(* ===== verification/Prelude.thy ===== *)
theory Prelude
  imports Main "HOL-Library.Multiset" "HOL-Library.Word" "HOL-Library.Monad_Syntax"
    "HOL-Library.Product_Lexorder"
begin

text \<open>
  Shared vocabulary of the development.

  \<^item> \<open>exec\<close>: the value of a call that may panic; \<open>None\<close> is the panic
    (\<open>assert!\<close>, \<open>unwrap\<close>, an index out of range), \<open>Some r\<close> the return of \<open>r\<close>.
    Indexing a Rust \<open>Vec\<close> is \<open>vec_get\<close>, assigning to an element is \<open>vec_set\<close>; both
    panic out of range.
  \<^item> \<open>usize_max\<close>, \<open>u64_max\<close>: the largest values of the 64-bit integers.
  \<^item> generic lemmas on list updates, multisets of updated lists and sorted lists that
    the component theories share, collected in \<open>upd_simps\<close>.
\<close>

named_theorems upd_simps
named_theorems exec_simps

type_synonym 'a exec = "'a option"
type_synonym duration = nat

definition u64_max :: nat where
  "u64_max = 2 ^ 64 - 1"

definition usize_max :: nat where
  "usize_max = 2 ^ 64 - 1"

definition vec_get :: "'a list \<Rightarrow> nat \<Rightarrow> 'a exec" where
  "vec_get xs i = (if i < length xs then Some (xs ! i) else None)"

definition vec_set :: "'a list \<Rightarrow> nat \<Rightarrow> 'a \<Rightarrow> 'a list exec" where
  "vec_set xs i x = (if i < length xs then Some (xs[i := x]) else None)"

lemma vec_get_in [simp, exec_simps]: "i < length xs \<Longrightarrow> vec_get xs i = Some (xs ! i)"
  by (simp add: vec_get_def)

lemma vec_set_in [simp, exec_simps]: "i < length xs \<Longrightarrow> vec_set xs i x = Some (xs[i := x])"
  by (simp add: vec_set_def)

lemma vec_get_out [simp, exec_simps]: "\<not> i < length xs \<Longrightarrow> vec_get xs i = None"
  by (simp add: vec_get_def)

lemma vec_get_eq_Some: "vec_get xs i = Some x \<longleftrightarrow> i < length xs \<and> xs ! i = x"
  by (auto simp: vec_get_def)

lemma vec_get_eq_None: "vec_get xs i = None \<longleftrightarrow> length xs \<le> i"
  by (auto simp: vec_get_def)

subsection \<open>Updated lists\<close>

lemma mset_update_add:
  assumes "i < length xs"
  shows "add_mset (xs ! i) (mset (xs[i := x])) = add_mset x (mset xs)"
proof -
  have "xs ! i \<in># mset xs"
    using assms by simp
  then have "add_mset (xs ! i) (mset xs - {#xs ! i#}) = mset xs"
    by (rule insert_DiffM)
  with assms show ?thesis
    by (simp add: mset_update add_mset_commute)
qed

lemma mset_hole_move [upd_simps]:
  assumes "p < length xs" "q < length xs" "p \<noteq> q"
  shows "mset ((xs[p := xs ! q])[q := x]) = mset (xs[p := x])"
proof -
  have "add_mset (xs ! q) (mset ((xs[p := xs ! q])[q := x])) = add_mset x (mset (xs[p := xs ! q]))"
    using mset_update_add [of q "xs[p := xs ! q]" x] assms by simp
  then have "add_mset (xs ! p) (add_mset (xs ! q) (mset ((xs[p := xs ! q])[q := x])))
      = add_mset x (add_mset (xs ! q) (mset xs))"
    using mset_update_add [OF assms(1), of "xs ! q"] by (metis add_mset_commute)
  also have "\<dots> = add_mset (xs ! q) (add_mset (xs ! p) (mset (xs[p := x])))"
    using mset_update_add [OF assms(1), of x] by (metis add_mset_commute)
  finally show ?thesis
    by (metis add_mset_add_mset_same_iff add_mset_commute)
qed

lemma mset_butlast_last: "xs \<noteq> [] \<Longrightarrow> add_mset (last xs) (mset (butlast xs)) = mset xs"
  by (metis append_butlast_last_id mset.simps(2) mset_append union_mset_add_mset_right
      mset_single_iff_right add_mset_add_single)

lemma nth_butlast_in [upd_simps]: "i < length xs - 1 \<Longrightarrow> butlast xs ! i = xs ! i"
  by (simp add: nth_butlast)

end
