(* ===== verification/Heap_Array.thy ===== *)
theory Heap_Array
  imports Prelude
begin

text \<open>
  Binary heaps stored in arrays, with the \<^emph>\<open>hole\<close> technique: a sift moves a vacant
  position through the array and writes the displaced element once, at the end.

  \<^item> \<open>heap_on R xs\<close>: every parent is related by \<open>R\<close> to its children;
  \<^item> \<open>heap_hole R xs p\<close>: the same for all edges that do not touch the hole \<open>p\<close>, and the
    hole can be bridged from its parent to its children.

  The locale \<open>total_preorder\<close> states what the heap algorithms need of the comparison;
  its lemmas describe one move of the hole. Both the model of the standard library's
  \<open>BinaryHeap\<close> (theory \<open>Binary_Heap\<close>) and the indexed heap of
  \<^verbatim>\<open>src/nexosim/src/util/indexed_priority_queue.rs\<close> (theory
  \<open>Indexed_Priority_Queue\<close>) rest on them.
\<close>

definition heap_on :: "('a \<Rightarrow> 'a \<Rightarrow> bool) \<Rightarrow> 'a list \<Rightarrow> bool" where
  "heap_on R xs \<longleftrightarrow> (\<forall>i. 0 < i \<longrightarrow> i < length xs \<longrightarrow> R (xs ! ((i - 1) div 2)) (xs ! i))"

definition heap_hole :: "('a \<Rightarrow> 'a \<Rightarrow> bool) \<Rightarrow> 'a list \<Rightarrow> nat \<Rightarrow> bool" where
  "heap_hole R xs p \<longleftrightarrow>
     (\<forall>i. 0 < i \<longrightarrow> i < length xs \<longrightarrow> i \<noteq> p \<longrightarrow> (i - 1) div 2 \<noteq> p \<longrightarrow>
        R (xs ! ((i - 1) div 2)) (xs ! i)) \<and>
     (\<forall>i. 0 < i \<longrightarrow> i < length xs \<longrightarrow> (i - 1) div 2 = p \<longrightarrow> 0 < p \<longrightarrow>
        R (xs ! ((p - 1) div 2)) (xs ! i))"

definition below_hole :: "('a \<Rightarrow> 'a \<Rightarrow> bool) \<Rightarrow> 'a list \<Rightarrow> nat \<Rightarrow> 'a \<Rightarrow> bool" where
  "below_hole R xs p x \<longleftrightarrow> (\<forall>i. 0 < i \<longrightarrow> i < length xs \<longrightarrow> (i - 1) div 2 = p \<longrightarrow> R x (xs ! i))"

definition above_hole :: "('a \<Rightarrow> 'a \<Rightarrow> bool) \<Rightarrow> 'a list \<Rightarrow> nat \<Rightarrow> 'a \<Rightarrow> bool" where
  "above_hole R xs p x \<longleftrightarrow> (0 < p \<longrightarrow> R (xs ! ((p - 1) div 2)) x)"

lemma parent_less [simp]: "0 < i \<Longrightarrow> (i - Suc 0) div 2 < i"
  by linarith

lemma parent_neq [simp]: "0 < i \<Longrightarrow> (i - Suc 0) div 2 \<noteq> i"
  by linarith

lemma child_of_iff: "0 < i \<Longrightarrow> (i - Suc 0) div 2 = p \<longleftrightarrow> i = 2 * p + 1 \<or> i = 2 * p + 2"
  by linarith

lemma heap_onD: "heap_on R xs \<Longrightarrow> 0 < i \<Longrightarrow> i < length xs \<Longrightarrow> R (xs ! ((i - 1) div 2)) (xs ! i)"
  by (simp add: heap_on_def)

lemma heap_on_Nil [simp]: "heap_on R []"
  by (simp add: heap_on_def)

text \<open>A hole that fits between its parent and its children is a heap again.\<close>

lemma heap_hole_fill:
  assumes "heap_hole R xs p" "p < length xs" "above_hole R xs p x" "below_hole R xs p x"
  shows "heap_on R (xs[p := x])"
  unfolding heap_on_def
proof (intro allI impI)
  fix i :: nat
  assume i: "0 < i" "i < length (xs[p := x])"
  consider (hole) "i = p" | (child) "(i - 1) div 2 = p" "i \<noteq> p" | (other) "i \<noteq> p" "(i - 1) div 2 \<noteq> p"
    by blast
  then show "R (xs[p := x] ! ((i - 1) div 2)) (xs[p := x] ! i)"
  proof cases
    case hole
    with assms(2,3) i show ?thesis
      by (simp add: above_hole_def nth_list_update)
  next
    case child
    with assms(2,4) i show ?thesis
      by (simp add: below_hole_def nth_list_update)
  next
    case other
    with assms(1) i show ?thesis
      by (simp add: heap_hole_def nth_list_update)
  qed
qed

lemma heap_on_butlast: "heap_on R xs \<Longrightarrow> heap_on R (butlast xs)"
  by (auto simp: heap_on_def nth_butlast)

lemma below_hole_leaf: "length xs \<le> 2 * p + 1 \<Longrightarrow> below_hole R xs p x"
  by (auto simp: below_hole_def)

lemma above_hole_root [simp]: "above_hole R xs 0 x"
  by (simp add: above_hole_def)

locale total_preorder =
  fixes R :: "'a \<Rightarrow> 'a \<Rightarrow> bool"
  assumes R_refl: "R x x"
    and R_trans: "R x y \<Longrightarrow> R y z \<Longrightarrow> R x z"
    and R_total: "R x y \<or> R y x"
begin

lemma R_not: "\<not> R x y \<Longrightarrow> R y x"
  using R_total by blast

lemma heap_root_extreme:
  assumes "heap_on R xs" "i < length xs"
  shows "R (xs ! 0) (xs ! i)"
  using assms(2)
proof (induction i rule: less_induct)
  case (less i)
  show ?case
  proof (cases "i = 0")
    case True
    then show ?thesis by (simp add: R_refl)
  next
    case False
    then have "R (xs ! 0) (xs ! ((i - 1) div 2))"
      using less by simp
    moreover have "R (xs ! ((i - 1) div 2)) (xs ! i)"
      using heap_onD [OF assms(1), of i] False less.prems by simp
    ultimately show ?thesis by (rule R_trans)
  qed
qed

lemma heap_on_hole:
  assumes "heap_on R xs" "p < length xs"
  shows "heap_hole R xs p"
  unfolding heap_hole_def
proof (intro conjI allI impI)
  fix i :: nat
  assume i: "0 < i" "i < length xs" "(i - 1) div 2 = p" "0 < p"
  have "R (xs ! ((p - 1) div 2)) (xs ! p)" "R (xs ! p) (xs ! i)"
    using i assms(2) heap_onD [OF assms(1), of i] heap_onD [OF assms(1), of p] by auto
  then show "R (xs ! ((p - 1) div 2)) (xs ! i)"
    by (rule R_trans)
qed (use assms in \<open>auto simp: heap_on_def\<close>)

lemma heap_hole_up:
  assumes h: "heap_hole R xs p" and p: "0 < p" "p < length xs"
    and b: "below_hole R xs p x" and x: "R x (xs ! ((p - 1) div 2))"
  shows "heap_hole R (xs[p := xs ! ((p - 1) div 2)]) ((p - 1) div 2)"
    and "below_hole R (xs[p := xs ! ((p - 1) div 2)]) ((p - 1) div 2) x"
proof -
  let ?q = "(p - 1) div 2" and ?ys = "xs[p := xs ! ((p - 1) div 2)]"
  have q: "?q < p" using p by simp
  show "heap_hole R ?ys ?q"
    unfolding heap_hole_def
  proof (intro conjI allI impI)
    fix i :: nat
    assume i: "0 < i" "i < length ?ys" "i \<noteq> ?q" "(i - 1) div 2 \<noteq> ?q"
    then have ip: "i \<noteq> p" by blast
    show "R (?ys ! ((i - 1) div 2)) (?ys ! i)"
    proof (cases "(i - 1) div 2 = p")
      case True
      with h i ip p show ?thesis
        by (simp add: heap_hole_def nth_list_update)
    next
      case False
      with h i ip p show ?thesis
        by (simp add: heap_hole_def nth_list_update)
    qed
  next
    fix i :: nat
    assume i: "0 < i" "i < length ?ys" "(i - 1) div 2 = ?q" "0 < ?q"
    have qq: "(?q - 1) div 2 \<noteq> p" "(?q - 1) div 2 \<noteq> ?q" "?q \<noteq> p"
      using q i(4) by linarith+
    have up: "R (xs ! ((?q - 1) div 2)) (xs ! ?q)"
      using h i(4) qq q p(2) unfolding heap_hole_def by auto
    have "R (xs ! ((?q - 1) div 2)) (?ys ! i)"
    proof (cases "i = p")
      case True
      with up p show ?thesis by simp
    next
      case False
      then have "R (xs ! ?q) (xs ! i)"
        using h i qq q unfolding heap_hole_def by (metis length_list_update)
      with up False show ?thesis
        by (auto intro: R_trans)
    qed
    with qq show "R (?ys ! ((?q - 1) div 2)) (?ys ! i)"
      by (simp add: nth_list_update)
  qed
  show "below_hole R ?ys ?q x"
    unfolding below_hole_def
  proof (intro allI impI)
    fix i :: nat
    assume i: "0 < i" "i < length ?ys" "(i - 1) div 2 = ?q"
    show "R x (?ys ! i)"
    proof (cases "i = p")
      case True
      with x p show ?thesis by simp
    next
      case False
      then have "R (xs ! ?q) (xs ! i)"
        using h i q unfolding heap_hole_def by (metis length_list_update less_irrefl)
      with x False show ?thesis
        by (auto intro: R_trans)
    qed
  qed
qed

lemma heap_hole_down:
  assumes h: "heap_hole R xs p" and c: "c < length xs" "0 < c" "(c - 1) div 2 = p"
    and best: "\<And>i. 0 < i \<Longrightarrow> i < length xs \<Longrightarrow> (i - 1) div 2 = p \<Longrightarrow> R (xs ! c) (xs ! i)"
  shows "heap_hole R (xs[p := xs ! c]) c"
  unfolding heap_hole_def
proof (intro conjI allI impI)
  let ?ys = "xs[p := xs ! c]"
  have pc: "p < c" "p < length xs" using c by auto
  fix i :: nat
  assume i: "0 < i" "i < length ?ys" "i \<noteq> c" "(i - 1) div 2 \<noteq> c"
  show "R (?ys ! ((i - 1) div 2)) (?ys ! i)"
  proof (cases "(i - 1) div 2 = p")
    case True
    then have "i \<noteq> p" using i by auto
    with True best [of i] i pc show ?thesis
      by (simp add: nth_list_update)
  next
    case False
    show ?thesis
    proof (cases "i = p")
      case True
      with h i c pc False show ?thesis
        unfolding heap_hole_def by (simp add: nth_list_update)
    next
      case ip: False
      with h i False show ?thesis
        unfolding heap_hole_def by (simp add: nth_list_update)
    qed
  qed
next
  let ?ys = "xs[p := xs ! c]"
  have pc: "p < c" "p < length xs" using c by auto
  fix i :: nat
  assume i: "0 < i" "i < length ?ys" "(i - 1) div 2 = c" "0 < c"
  then have "i \<noteq> c" "i \<noteq> p" "(i - 1) div 2 \<noteq> p"
    using pc by auto
  then have "R (xs ! c) (xs ! i)"
    using h i unfolding heap_hole_def by (metis length_list_update)
  with \<open>i \<noteq> p\<close> c pc show "R (?ys ! ((c - 1) div 2)) (?ys ! i)"
    by (simp add: nth_list_update)
qed

end

end
