(* ===== verification/Indexed_Priority_Queue.thy ===== *)
theory Indexed_Priority_Queue
  imports Heap_Array
begin

text \<open>
  Model of \<^verbatim>\<open>src/nexosim/src/util/indexed_priority_queue.rs\<close>: a binary heap of keys
  cross-indexed with a slab of values. A heap item names the slab node of its value, a
  slab node in use names its position in the heap, and free nodes form a linked list.
  Every \<open>unwrap\<close> of the wrong kind of node and every index out of range is a panic, the
  result \<open>None\<close>.

  The abstract value \<open>ipq_map\<close> of a queue maps each live insertion key (slab index and
  epoch) to its key-value pair. The lemmas show that \<open>insert\<close>, \<open>pull\<close> and \<open>extract\<close>
  never panic on a well-formed queue (short of \<open>u64_max\<close> insertions), keep it well
  formed, and act on that map as they should.
\<close>

type_synonym 'k unique_key = "'k \<times> nat"

datatype 'k ipq_item = IItem (ii_key: "'k unique_key") (ii_slab: nat)

datatype 'v node = FreeNode (fn_next: "nat option") | HeapNode (hn_value: 'v) (hn_heap_idx: nat)

datatype insert_key = InsertKey (ik_slab: nat) (ik_epoch: nat)

record ('k, 'v) ipq =
  ipq_heap :: "'k ipq_item list"
  ipq_slab :: "'v node list"
  ipq_first_free :: "nat option"
  ipq_next_epoch :: nat

fun unwrap_next_free_node :: "'v node \<Rightarrow> nat option exec" where
  "unwrap_next_free_node (FreeNode nx) = Some nx"
| "unwrap_next_free_node (HeapNode _ _) = None"

fun unwrap_heap_node :: "'v node \<Rightarrow> ('v \<times> nat) exec" where
  "unwrap_heap_node (HeapNode v i) = Some (v, i)"
| "unwrap_heap_node (FreeNode _) = None"

fun unwrap_value :: "'v node \<Rightarrow> 'v exec" where
  "unwrap_value (HeapNode v _) = Some v"
| "unwrap_value (FreeNode _) = None"

definition set_heap_index :: "'v node list \<Rightarrow> nat \<Rightarrow> nat \<Rightarrow> 'v node list exec" where
  "set_heap_index slab s i =
     do { n \<leftarrow> vec_get slab s; (v, _) \<leftarrow> unwrap_heap_node n; vec_set slab s (HeapNode v i) }"

definition from_raw_parts :: "nat \<Rightarrow> nat \<Rightarrow> insert_key" where
  "from_raw_parts slab_idx epoch = InsertKey slab_idx epoch"

definition into_raw_parts :: "insert_key \<Rightarrow> nat \<times> nat" where
  "into_raw_parts k = (ik_slab k, ik_epoch k)"

definition ipq_new :: "('k, 'v) ipq" where
  "ipq_new = \<lparr>ipq_heap = [], ipq_slab = [], ipq_first_free = None, ipq_next_epoch = 0\<rparr>"

definition ipq_len :: "('k, 'v) ipq \<Rightarrow> nat" where
  "ipq_len q = length (ipq_heap q)"

text \<open>The loops of \<open>sift_up\<close> and \<open>sift_down\<close>, then the final write of the item.\<close>

function ipq_sift_up_loop ::
    "'k::linorder ipq_item list \<Rightarrow> 'v node list \<Rightarrow> 'k unique_key \<Rightarrow> nat
      \<Rightarrow> ('k ipq_item list \<times> 'v node list \<times> nat) exec" where
  "ipq_sift_up_loop heap slab key child =
     (if child = 0 then Some (heap, slab, child)
      else do {
        parent_item \<leftarrow> vec_get heap ((child - 1) div 2);
        if ii_key parent_item \<le> key then Some (heap, slab, child)
        else do {
          heap' \<leftarrow> vec_set heap child parent_item;
          parent_item' \<leftarrow> vec_get heap' ((child - 1) div 2);
          slab' \<leftarrow> set_heap_index slab (ii_slab parent_item') child;
          if ii_key parent_item' \<le> key then Some (heap', slab', child)
          else ipq_sift_up_loop heap' slab' key ((child - 1) div 2)
        }
      })"
  by pat_completeness auto
termination
  by (relation "measure (\<lambda>(heap, slab, key, child). child)") auto

declare ipq_sift_up_loop.simps [simp del]

definition ipq_sift_up ::
    "'k::linorder ipq_item list \<Rightarrow> 'v node list \<Rightarrow> 'k ipq_item \<Rightarrow> nat
      \<Rightarrow> ('k ipq_item list \<times> 'v node list) exec" where
  "ipq_sift_up heap slab item heap_idx =
     do {
       (heap', slab', child) \<leftarrow> ipq_sift_up_loop heap slab (ii_key item) heap_idx;
       heap'' \<leftarrow> vec_set heap' child item;
       slab'' \<leftarrow> set_heap_index slab' (ii_slab item) child;
       Some (heap'', slab'')
     }"

function ipq_sift_down_loop ::
    "'k::linorder ipq_item list \<Rightarrow> 'v node list \<Rightarrow> 'k unique_key \<Rightarrow> nat
      \<Rightarrow> ('k ipq_item list \<times> 'v node list \<times> nat) exec" where
  "ipq_sift_down_loop heap slab key parent =
     (let child = 2 * parent + 1 in
      if child < length heap then
        (let child' = (if child + 1 < length heap \<and> ii_key (heap ! (child + 1)) < ii_key (heap ! child)
                       then child + 1 else child) in
         if key \<le> ii_key (heap ! child') then Some (heap, slab, parent)
         else do {
           heap' \<leftarrow> vec_set heap parent (heap ! child');
           child_item \<leftarrow> vec_get heap' child';
           slab' \<leftarrow> set_heap_index slab (ii_slab child_item) parent;
           ipq_sift_down_loop heap' slab' key child'
         })
      else Some (heap, slab, parent))"
  by pat_completeness auto
termination
  by (relation "measure (\<lambda>(heap, slab, key, parent). length heap - parent)")
    (auto simp: vec_set_def split: if_splits)

declare ipq_sift_down_loop.simps [simp del]

definition ipq_sift_down ::
    "'k::linorder ipq_item list \<Rightarrow> 'v node list \<Rightarrow> 'k ipq_item \<Rightarrow> nat
      \<Rightarrow> ('k ipq_item list \<times> 'v node list) exec" where
  "ipq_sift_down heap slab item heap_idx =
     do {
       (heap', slab', parent) \<leftarrow> ipq_sift_down_loop heap slab (ii_key item) heap_idx;
       heap'' \<leftarrow> vec_set heap' parent item;
       slab'' \<leftarrow> set_heap_index slab' (ii_slab item) parent;
       Some (heap'', slab'')
     }"

definition ipq_insert ::
    "'k::linorder \<Rightarrow> 'v \<Rightarrow> ('k, 'v) ipq \<Rightarrow> (insert_key \<times> ('k, 'v) ipq) exec" where
  "ipq_insert key value q =
     (let epoch = ipq_next_epoch q; unique_key = (key, epoch) in
      if epoch = u64_max then None
      else do {
        (slab, first_free, slab_idx) \<leftarrow>
          (case ipq_first_free q of
             Some idx \<Rightarrow> do {
               n \<leftarrow> vec_get (ipq_slab q) idx;
               nx \<leftarrow> unwrap_next_free_node n;
               slab \<leftarrow> vec_set (ipq_slab q) idx (HeapNode value 0);
               Some (slab, nx, idx)
             }
           | None \<Rightarrow> Some (ipq_slab q @ [HeapNode value 0], None, length (ipq_slab q)));
        (heap', slab') \<leftarrow>
          ipq_sift_up (ipq_heap q @ [IItem unique_key 0]) slab (IItem unique_key slab_idx)
            (length (ipq_heap q));
        Some (InsertKey slab_idx epoch,
              \<lparr>ipq_heap = heap', ipq_slab = slab', ipq_first_free = first_free,
               ipq_next_epoch = epoch + 1\<rparr>)
      })"

definition ipq_pull ::
    "('k::linorder, 'v) ipq \<Rightarrow> (('k \<times> 'v) option \<times> ('k, 'v) ipq) exec" where
  "ipq_pull q =
     (case ipq_heap q of
        [] \<Rightarrow> Some (None, q)
      | item # _ \<Rightarrow> do {
          n \<leftarrow> vec_get (ipq_slab q) (ii_slab item);
          slab \<leftarrow> vec_set (ipq_slab q) (ii_slab item) (FreeNode (ipq_first_free q));
          value \<leftarrow> unwrap_value n;
          let last_item = last (ipq_heap q);
          let heap = butlast (ipq_heap q);
          (heap', slab') \<leftarrow>
            (if ii_slab last_item \<noteq> ii_slab item then ipq_sift_down heap slab last_item 0
             else Some (heap, slab));
          Some (Some (fst (ii_key item), value),
                q\<lparr>ipq_heap := heap', ipq_slab := slab', ipq_first_free := Some (ii_slab item)\<rparr>)
        })"

definition ipq_peek :: "('k, 'v) ipq \<Rightarrow> ('k \<times> 'v) option exec" where
  "ipq_peek q =
     (case ipq_heap q of
        [] \<Rightarrow> Some None
      | item # _ \<Rightarrow> do {
          n \<leftarrow> vec_get (ipq_slab q) (ii_slab item);
          value \<leftarrow> unwrap_value n;
          Some (Some (fst (ii_key item), value))
        })"

definition ipq_peek_key :: "('k, 'v) ipq \<Rightarrow> 'k option" where
  "ipq_peek_key q = (case ipq_heap q of [] \<Rightarrow> None | item # _ \<Rightarrow> Some (fst (ii_key item)))"

definition ipq_extract ::
    "insert_key \<Rightarrow> ('k::linorder, 'v) ipq \<Rightarrow> (('k \<times> 'v) option \<times> ('k, 'v) ipq) exec" where
  "ipq_extract ik q =
     (if length (ipq_slab q) \<le> ik_slab ik then Some (None, q)
      else (case ipq_slab q ! ik_slab ik of
              FreeNode _ \<Rightarrow> Some (None, q)
            | HeapNode value heap_idx \<Rightarrow> do {
                item \<leftarrow> vec_get (ipq_heap q) heap_idx;
                if snd (ii_key item) \<noteq> ik_epoch ik then Some (None, q)
                else do {
                  slab \<leftarrow> vec_set (ipq_slab q) (ik_slab ik) (FreeNode (ipq_first_free q));
                  let last_item = last (ipq_heap q);
                  let heap = butlast (ipq_heap q);
                  (heap', slab') \<leftarrow>
                    (if heap_idx < length heap then
                       (if ii_key last_item < ii_key (heap ! heap_idx)
                        then ipq_sift_up heap slab last_item heap_idx
                        else ipq_sift_down heap slab last_item heap_idx)
                     else Some (heap, slab));
                  Some (Some (fst (ii_key item), value),
                        q\<lparr>ipq_heap := heap', ipq_slab := slab', ipq_first_free := Some (ik_slab ik)\<rparr>)
                }
              }))"


subsection \<open>Cross-indexing\<close>

fun node_idx :: "'v node \<Rightarrow> nat option" where
  "node_idx (FreeNode _) = None"
| "node_idx (HeapNode _ i) = Some i"

fun node_shape :: "'v node \<Rightarrow> 'v node" where
  "node_shape (FreeNode nx) = FreeNode nx"
| "node_shape (HeapNode v _) = HeapNode v 0"

fun node_at :: "nat \<Rightarrow> 'v node \<Rightarrow> 'v node" where
  "node_at i (FreeNode nx) = FreeNode nx"
| "node_at i (HeapNode v _) = HeapNode v i"

definition set_idx :: "'v node list \<Rightarrow> nat \<Rightarrow> nat \<Rightarrow> 'v node list" where
  "set_idx slab s i = slab[s := node_at i (slab ! s)]"

definition linked :: "'k ipq_item list \<Rightarrow> 'v node list \<Rightarrow> bool" where
  "linked heap slab \<longleftrightarrow>
     (\<forall>s i. s < length slab \<and> node_idx (slab ! s) = Some i \<longleftrightarrow>
            i < length heap \<and> ii_slab (heap ! i) = s)"

definition hole_linked ::
    "'k ipq_item list \<Rightarrow> 'v node list \<Rightarrow> nat \<Rightarrow> 'k ipq_item \<Rightarrow> bool" where
  "hole_linked heap slab p x \<longleftrightarrow>
     p < length heap \<and> ii_slab x < length slab \<and> node_idx (slab ! ii_slab x) \<noteq> None \<and>
     linked (heap[p := x]) (set_idx slab (ii_slab x) p)"

lemma node_idx_at [simp]: "node_idx (node_at i n) = (if node_idx n = None then None else Some i)"
  by (cases n) auto

lemma node_shape_at [simp]: "node_shape (node_at i n) = node_shape n"
  by (cases n) auto

lemma node_at_at [simp]: "node_at i (node_at j n) = node_at i n"
  by (cases n) auto

lemma node_idx_None: "node_idx n = None \<longleftrightarrow> (\<exists>nx. n = FreeNode nx)"
  by (cases n) auto

lemma hn_value_shape [simp]: "hn_value (node_shape n) = hn_value n"
  by (cases n) auto

lemma length_set_idx [simp]: "length (set_idx slab s i) = length slab"
  by (simp add: set_idx_def)

lemma set_idx_nth: "t < length slab \<Longrightarrow>
    set_idx slab s i ! t = (if t = s then node_at i (slab ! s) else slab ! t)"
  by (simp add: set_idx_def nth_list_update)

lemma set_idx_shape [simp]: "map node_shape (set_idx slab s i) = map node_shape slab"
proof (cases "s < length slab")
  case True
  then show ?thesis
    by (simp add: set_idx_def map_update) (metis list_update_id length_map nth_map)
qed (simp add: set_idx_def list_update_beyond)

lemma set_heap_index_set_idx:
  "s < length slab \<Longrightarrow> node_idx (slab ! s) \<noteq> None \<Longrightarrow> set_heap_index slab s i = Some (set_idx slab s i)"
  by (cases "slab ! s") (auto simp: set_heap_index_def set_idx_def)

lemma linkedD:
  assumes "linked heap slab" "i < length heap"
  shows "ii_slab (heap ! i) < length slab" "node_idx (slab ! ii_slab (heap ! i)) = Some i"
  using assms unfolding linked_def by blast+

lemma linked_inj:
  "linked heap slab \<Longrightarrow> i < length heap \<Longrightarrow> j < length heap \<Longrightarrow>
     ii_slab (heap ! i) = ii_slab (heap ! j) \<longleftrightarrow> i = j"
  by (metis linkedD(2) option.inject)

lemma linked_back:
  "linked heap slab \<Longrightarrow> s < length slab \<Longrightarrow> node_idx (slab ! s) = Some i \<Longrightarrow>
     i < length heap \<and> ii_slab (heap ! i) = s"
  unfolding linked_def by blast

lemma linkedI:
  assumes "\<And>i. i < length heap \<Longrightarrow>
      ii_slab (heap ! i) < length slab \<and> node_idx (slab ! ii_slab (heap ! i)) = Some i"
    and "\<And>s i. s < length slab \<Longrightarrow> node_idx (slab ! s) = Some i \<Longrightarrow>
      i < length heap \<and> ii_slab (heap ! i) = s"
  shows "linked heap slab"
  using assms unfolding linked_def by blast

lemma linked_distinct: "linked heap slab \<Longrightarrow> distinct (map ii_slab heap)"
  by (simp add: distinct_conv_nth linked_inj)

text \<open>The final write of a sift closes the hole.\<close>

lemma hole_linked_fill:
  "hole_linked heap slab p x \<Longrightarrow>
     set_heap_index slab (ii_slab x) p = Some (set_idx slab (ii_slab x) p) \<and>
     linked (heap[p := x]) (set_idx slab (ii_slab x) p)"
  by (simp add: hole_linked_def set_heap_index_set_idx)

text \<open>One iteration of a sift: the item at \<open>q\<close> moves into the hole \<open>p\<close>.\<close>

lemma hole_linked_move:
  assumes h: "hole_linked heap slab p x" and q: "q < length heap" "q \<noteq> p"
  shows "set_heap_index slab (ii_slab (heap ! q)) p = Some (set_idx slab (ii_slab (heap ! q)) p)"
    and "hole_linked (heap[p := heap ! q]) (set_idx slab (ii_slab (heap ! q)) p) q x"
proof -
  let ?y = "heap ! q" and ?h = "heap[p := x]" and ?s = "set_idx slab (ii_slab x) p"
  have p: "p < length heap" and x: "ii_slab x < length slab" "node_idx (slab ! ii_slab x) \<noteq> None"
    and l: "linked ?h ?s"
    using h by (auto simp: hole_linked_def)
  have hq: "?h ! q = ?y" and hp: "?h ! p = x"
    using p q by auto
  have ne: "ii_slab ?y \<noteq> ii_slab x"
    using linked_inj [OF l, of q p] p q by (simp add: hq)
  have y: "ii_slab ?y < length slab" "node_idx (slab ! ii_slab ?y) = Some q"
    using linkedD [OF l, of q] p q ne by (auto simp: hq set_idx_nth)
  show s: "set_heap_index slab (ii_slab ?y) p = Some (set_idx slab (ii_slab ?y) p)"
    using y by (simp add: set_heap_index_set_idx)
  let ?h' = "heap[p := ?y, q := x]" and ?s' = "set_idx (set_idx slab (ii_slab ?y) p) (ii_slab x) q"
  have "linked ?h' ?s'"
  proof (rule linkedI)
    fix i
    assume i: "i < length ?h'"
    then have "i \<noteq> p \<Longrightarrow> i \<noteq> q \<Longrightarrow>
        heap ! i = ?h ! i \<and> ii_slab (?h ! i) \<noteq> ii_slab x \<and> ii_slab (?h ! i) \<noteq> ii_slab ?y"
      using linked_inj [OF l, of i p] linked_inj [OF l, of i q] p q hp hq by auto
    note others = this
    consider (p) "i = p" | (q) "i = q" | (other) "i \<noteq> p" "i \<noteq> q"
      by blast
    then show "ii_slab (?h' ! i) < length ?s' \<and> node_idx (?s' ! ii_slab (?h' ! i)) = Some i"
    proof cases
      case p
      with y ne q \<open>p < length heap\<close> show ?thesis by (simp add: set_idx_nth)
    next
      case q
      with x ne assms(2,3) p show ?thesis by (simp add: set_idx_nth)
    next
      case other
      with others i linkedD [OF l, of i] show ?thesis by (simp add: set_idx_nth)
    qed
  next
    fix s i
    assume s: "s < length ?s'" "node_idx (?s' ! s) = Some i"
    consider (x) "s = ii_slab x" | (y) "s = ii_slab ?y" | (other) "s \<noteq> ii_slab x" "s \<noteq> ii_slab ?y"
      by blast
    then show "i < length ?h' \<and> ii_slab (?h' ! i) = s"
    proof cases
      case x
      with s p q ne \<open>node_idx (slab ! ii_slab x) \<noteq> None\<close> show ?thesis
        by (auto simp: set_idx_nth split: if_splits)
    next
      case y
      with s p q ne show ?thesis
        by (auto simp: set_idx_nth split: if_splits)
    next
      case other
      then have "i < length ?h \<and> ii_slab (?h ! i) = s"
        using s by (intro linked_back [OF l]) (auto simp: set_idx_nth)
      moreover have "i \<noteq> p" "i \<noteq> q"
        using calculation other hp hq by auto
      ultimately show ?thesis by simp
    qed
  qed
  then show "hole_linked (heap[p := ?y]) (set_idx slab (ii_slab ?y) p) q x"
    using p q x ne by (simp add: hole_linked_def set_idx_nth)
qed

text \<open>Removing the item at \<open>p\<close>: the last item is displaced to the hole at \<open>p\<close>.\<close>

lemma linked_remove_last:
  assumes l: "linked heap slab" and "heap \<noteq> []"
  shows "linked (butlast heap) (slab[ii_slab (last heap) := FreeNode nx])"
proof -
  let ?s = "ii_slab (last heap)" and ?n = "length heap - 1"
  have n: "?n < length heap" "last heap = heap ! ?n"
    using assms(2) by (auto simp: last_conv_nth)
  have sn: "?s < length slab" "node_idx (slab ! ?s) = Some ?n"
    using linkedD [OF l n(1)] n(2) by auto
  show ?thesis
  proof (rule linkedI)
    fix i
    assume "i < length (butlast heap)"
    then show "ii_slab (butlast heap ! i) < length (slab[?s := FreeNode nx]) \<and>
        node_idx (slab[?s := FreeNode nx] ! ii_slab (butlast heap ! i)) = Some i"
      using linkedD [OF l, of i] sn by (auto simp: nth_butlast nth_list_update)
  next
    fix s i
    assume s: "s < length (slab[?s := FreeNode nx])" "node_idx (slab[?s := FreeNode nx] ! s) = Some i"
    have "s \<noteq> ?s"
      using s by auto
    moreover have "i < length heap \<and> ii_slab (heap ! i) = s"
      using s calculation linked_back [OF l, of s i] by simp
    moreover have "i \<noteq> ?n"
      using n calculation by auto
    ultimately show "i < length (butlast heap) \<and> ii_slab (butlast heap ! i) = s"
      by (auto simp: nth_butlast)
  qed
qed

lemma linked_remove_inner:
  assumes l: "linked heap slab" and p: "p < length heap - 1"
  shows "hole_linked (butlast heap) (slab[ii_slab (heap ! p) := FreeNode nx]) p (last heap)"
proof -
  let ?n = "length heap - 1" and ?x = "last heap" and ?sp = "ii_slab (heap ! p)"
  let ?h = "(butlast heap)[p := ?x]" and ?s = "set_idx (slab[?sp := FreeNode nx]) (ii_slab ?x) p"
  have "heap \<noteq> []"
    using p by auto
  then have n: "?n < length heap" "?x = heap ! ?n" "p < length heap"
    using p by (auto simp: last_conv_nth)
  have sn: "ii_slab ?x < length slab" "node_idx (slab ! ii_slab ?x) = Some ?n"
    "?sp < length slab" "node_idx (slab ! ?sp) = Some p"
    using linkedD [OF l n(1)] linkedD [OF l n(3)] n(2) by auto
  have ne: "?sp \<noteq> ii_slab ?x"
    using linked_inj [OF l n(3) n(1)] n(2) p by simp
  have "linked ?h ?s"
  proof (rule linkedI)
    fix i
    assume i: "i < length ?h"
    show "ii_slab (?h ! i) < length ?s \<and> node_idx (?s ! ii_slab (?h ! i)) = Some i"
    proof (cases "i = p")
      case True
      with sn ne p show ?thesis by (auto simp: set_idx_nth)
    next
      case False
      with i n have "ii_slab (heap ! i) \<noteq> ?sp" "ii_slab (heap ! i) \<noteq> ii_slab ?x"
        using linked_inj [OF l, of i p] linked_inj [OF l, of i ?n] by auto
      with i False linkedD [OF l, of i] show ?thesis
        by (auto simp: set_idx_nth nth_butlast)
    qed
  next
    fix s i
    assume s: "s < length ?s" "node_idx (?s ! s) = Some i"
    show "i < length ?h \<and> ii_slab (?h ! i) = s"
    proof (cases "s = ii_slab ?x")
      case True
      with s p sn ne show ?thesis
        by (auto simp: set_idx_nth split: if_splits)
    next
      case False
      with s have "s \<noteq> ?sp"
        by (auto simp: set_idx_nth)
      moreover have "i < length heap \<and> ii_slab (heap ! i) = s"
        using s False calculation linked_back [OF l, of s i] by (simp add: set_idx_nth)
      moreover have "i \<noteq> ?n" "i \<noteq> p"
        using n False calculation by auto
      ultimately show ?thesis
        by (auto simp: nth_butlast)
    qed
  qed
  with sn ne p show ?thesis
    by (auto simp: hole_linked_def)
qed

subsection \<open>The sifts\<close>

interpretation ikey: total_preorder "\<lambda>a b :: 'k::linorder ipq_item. ii_key a \<le> ii_key b"
  by unfold_locales auto

abbreviation item_heap :: "'k::linorder ipq_item list \<Rightarrow> bool" where
  "item_heap \<equiv> heap_on (\<lambda>a b. ii_key a \<le> ii_key b)"

abbreviation item_hole :: "'k::linorder ipq_item list \<Rightarrow> nat \<Rightarrow> bool" where
  "item_hole \<equiv> heap_hole (\<lambda>a b. ii_key a \<le> ii_key b)"

abbreviation item_below :: "'k::linorder ipq_item list \<Rightarrow> nat \<Rightarrow> 'k ipq_item \<Rightarrow> bool" where
  "item_below \<equiv> below_hole (\<lambda>a b. ii_key a \<le> ii_key b)"

abbreviation item_above :: "'k::linorder ipq_item list \<Rightarrow> nat \<Rightarrow> 'k ipq_item \<Rightarrow> bool" where
  "item_above \<equiv> above_hole (\<lambda>a b. ii_key a \<le> ii_key b)"

text \<open>What a sift of \<open>x\<close> into the hole \<open>p\<close> has to deliver.\<close>

definition sifted ::
    "'k::linorder ipq_item list \<Rightarrow> 'v node list \<Rightarrow> nat \<Rightarrow> 'k ipq_item
      \<Rightarrow> 'k ipq_item list \<Rightarrow> 'v node list \<Rightarrow> bool" where
  "sifted heap slab p x heap' slab' \<longleftrightarrow>
     item_heap heap' \<and> linked heap' slab' \<and> mset heap' = mset (heap[p := x]) \<and>
     map node_shape slab' = map node_shape slab"

definition sifting ::
    "'k::linorder ipq_item list \<Rightarrow> 'v node list \<Rightarrow> nat \<Rightarrow> 'k ipq_item
      \<Rightarrow> 'k ipq_item list \<Rightarrow> 'v node list \<Rightarrow> nat \<Rightarrow> bool" where
  "sifting heap slab p x heap' slab' p' \<longleftrightarrow>
     hole_linked heap' slab' p' x \<and> item_heap (heap'[p' := x]) \<and>
     mset (heap'[p' := x]) = mset (heap[p := x]) \<and> map node_shape slab' = map node_shape slab"

lemma sifting_finish:
  assumes "sifting heap slab p x heap' slab' p'"
  shows "\<exists>heap'' slab''.
     do { h \<leftarrow> vec_set heap' p' x; s \<leftarrow> set_heap_index slab' (ii_slab x) p'; Some (h, s) } =
       Some (heap'', slab'') \<and> sifted heap slab p x heap'' slab''"
  using assms hole_linked_fill [of heap' slab' p' x]
  by (auto simp: sifting_def sifted_def hole_linked_def)

lemma sifting_step:
  assumes "sifting (heap[p := heap ! q]) (set_idx slab s p) q x heap' slab' p'"
    and "p < length heap" "q < length heap" "q \<noteq> p"
  shows "sifting heap slab p x heap' slab' p'"
  using assms mset_hole_move [of p heap q x] by (auto simp: sifting_def)

lemma sifting_stop:
  assumes "hole_linked heap slab p x" "item_hole heap p" "item_above heap p x" "item_below heap p x"
  shows "sifting heap slab p x heap slab p"
  using assms heap_hole_fill [of "\<lambda>a b. ii_key a \<le> ii_key b" heap p x]
  by (simp add: sifting_def hole_linked_def)

lemma ipq_sift_up_loop_move:
  assumes "child < length heap" "0 < child" "key < ii_key (heap ! ((child - 1) div 2))"
    and "set_heap_index slab (ii_slab (heap ! ((child - 1) div 2))) child = Some slab'"
  shows "ipq_sift_up_loop heap slab key child =
     ipq_sift_up_loop (heap[child := heap ! ((child - 1) div 2)]) slab' key ((child - 1) div 2)"
proof -
  have "(child - Suc 0) div 2 < length heap"
    using assms(1,2) parent_less [of child] by linarith
  moreover have "\<not> ii_key (heap ! ((child - Suc 0) div 2)) \<le> key"
    using assms(3) by (simp add: not_le)
  ultimately show ?thesis
    using assms(1,2,4) by (subst ipq_sift_up_loop.simps) simp
qed

lemma ipq_sift_up_loop_stop:
  assumes "child < length heap" "0 < child \<Longrightarrow> ii_key (heap ! ((child - 1) div 2)) \<le> key"
  shows "ipq_sift_up_loop heap slab key child = Some (heap, slab, child)"
proof (cases "child = 0")
  case False
  then have "(child - Suc 0) div 2 < length heap"
    using assms(1) parent_less [of child] by linarith
  with assms False show ?thesis
    by (subst ipq_sift_up_loop.simps) simp
qed (subst ipq_sift_up_loop.simps, simp)

lemma ipq_sift_up_loop_correct:
  assumes "hole_linked heap slab p x" "item_hole heap p" "item_below heap p x"
  shows "\<exists>heap' slab' p'. ipq_sift_up_loop heap slab (ii_key x) p = Some (heap', slab', p') \<and>
           sifting heap slab p x heap' slab' p'"
  using assms
proof (induction p arbitrary: heap slab rule: less_induct)
  case (less p)
  let ?q = "(p - 1) div 2"
  have p: "p < length heap"
    using less.prems(1) by (simp add: hole_linked_def)
  show ?case
  proof (cases "0 < p \<and> ii_key x < ii_key (heap ! ?q)")
    case True
    then have q: "?q < p" "?q < length heap" "?q \<noteq> p"
      using p parent_less [of p] by auto
    note m = hole_linked_move [OF less.prems(1) q(2,3)]
    have "item_hole (heap[p := heap ! ?q]) ?q" "item_below (heap[p := heap ! ?q]) ?q x"
      using ikey.heap_hole_up [OF less.prems(2) _ p less.prems(3)] True by auto
    from less.IH [OF q(1) m(2) this] obtain heap' slab' p' where
      "ipq_sift_up_loop (heap[p := heap ! ?q]) (set_idx slab (ii_slab (heap ! ?q)) p) (ii_key x) ?q
         = Some (heap', slab', p')"
      and s: "sifting (heap[p := heap ! ?q]) (set_idx slab (ii_slab (heap ! ?q)) p) ?q x heap' slab' p'"
      by blast
    then have "ipq_sift_up_loop heap slab (ii_key x) p = Some (heap', slab', p')"
      using ipq_sift_up_loop_move [OF p _ _ m(1)] True by simp
    with sifting_step [OF s p q(2,3)] show ?thesis by blast
  next
    case False
    then have "ipq_sift_up_loop heap slab (ii_key x) p = Some (heap, slab, p)"
      by (intro ipq_sift_up_loop_stop [OF p]) auto
    moreover have "item_above heap p x"
      using False by (auto simp: above_hole_def)
    ultimately show ?thesis
      using sifting_stop [OF less.prems(1,2) _ less.prems(3)] by blast
  qed
qed

lemma ipq_sift_up_correct:
  assumes "hole_linked heap slab p x" "item_hole heap p" "item_below heap p x"
  shows "\<exists>heap' slab'. ipq_sift_up heap slab x p = Some (heap', slab') \<and>
           sifted heap slab p x heap' slab'"
proof -
  obtain heap' slab' p' where l: "ipq_sift_up_loop heap slab (ii_key x) p = Some (heap', slab', p')"
    and s: "sifting heap slab p x heap' slab' p'"
    using ipq_sift_up_loop_correct [OF assms] by blast
  show ?thesis
    using sifting_finish [OF s] unfolding ipq_sift_up_def l by simp
qed

definition min_child :: "'k::linorder ipq_item list \<Rightarrow> nat \<Rightarrow> nat" where
  "min_child heap p =
     (if 2 * p + 1 + 1 < length heap \<and> ii_key (heap ! (2 * p + 1 + 1)) < ii_key (heap ! (2 * p + 1))
      then 2 * p + 1 + 1 else 2 * p + 1)"

lemma ipq_sift_down_loop_unfold:
  "ipq_sift_down_loop heap slab key p =
     (if 2 * p + 1 < length heap then
        (if key \<le> ii_key (heap ! min_child heap p) then Some (heap, slab, p)
         else do {
           heap' \<leftarrow> vec_set heap p (heap ! min_child heap p);
           child_item \<leftarrow> vec_get heap' (min_child heap p);
           slab' \<leftarrow> set_heap_index slab (ii_slab child_item) p;
           ipq_sift_down_loop heap' slab' key (min_child heap p)
         })
      else Some (heap, slab, p))"
  unfolding min_child_def by (subst ipq_sift_down_loop.simps, unfold Let_def) (rule refl)

lemma min_child_props:
  assumes "2 * p + 1 < length heap"
  shows "min_child heap p < length heap" "0 < min_child heap p" "(min_child heap p - 1) div 2 = p"
    and "0 < i \<Longrightarrow> i < length heap \<Longrightarrow> (i - 1) div 2 = p \<Longrightarrow>
      ii_key (heap ! min_child heap p) \<le> ii_key (heap ! i)"
  using assms child_of_iff [of i p] by (auto simp: min_child_def)

lemma ipq_sift_down_loop_move:
  assumes "2 * p + 1 < length heap" "ii_key (heap ! min_child heap p) < key"
    and "set_heap_index slab (ii_slab (heap ! min_child heap p)) p = Some slab'"
  shows "ipq_sift_down_loop heap slab key p =
     ipq_sift_down_loop (heap[p := heap ! min_child heap p]) slab' key (min_child heap p)"
proof -
  have "min_child heap p < length heap" "p < length heap" "p \<noteq> min_child heap p"
    using assms(1) min_child_props [of p heap] by (auto simp: min_child_def)
  moreover have "\<not> key \<le> ii_key (heap ! min_child heap p)"
    using assms(2) by (simp add: not_le)
  ultimately show ?thesis
    using assms(1,3) by (subst ipq_sift_down_loop_unfold) simp
qed

lemma ipq_sift_down_loop_stop:
  assumes "2 * p + 1 < length heap \<Longrightarrow> key \<le> ii_key (heap ! min_child heap p)"
  shows "ipq_sift_down_loop heap slab key p = Some (heap, slab, p)"
  using assms by (subst ipq_sift_down_loop_unfold) simp

lemma ipq_sift_down_loop_correct:
  assumes "hole_linked heap slab p x" "item_hole heap p" "item_above heap p x"
  shows "\<exists>heap' slab' p'. ipq_sift_down_loop heap slab (ii_key x) p = Some (heap', slab', p') \<and>
           sifting heap slab p x heap' slab' p'"
  using assms
proof (induction "length heap - p" arbitrary: heap slab p rule: less_induct)
  case less
  let ?c = "min_child heap p"
  have p: "p < length heap"
    using less.prems(1) by (simp add: hole_linked_def)
  show ?case
  proof (cases "2 * p + 1 < length heap \<and> ii_key (heap ! ?c) < ii_key x")
    case True
    then have c: "?c < length heap" "0 < ?c" "(?c - 1) div 2 = p" "?c \<noteq> p" "p < ?c"
      using min_child_props [of p heap] by (auto simp: min_child_def)
    note m = hole_linked_move [OF less.prems(1) c(1,4)]
    have "item_hole (heap[p := heap ! ?c]) ?c"
      using ikey.heap_hole_down [OF less.prems(2) c(1-3)] min_child_props(4) [of p heap] True by blast
    moreover have "item_above (heap[p := heap ! ?c]) ?c x"
      using True c p by (simp add: above_hole_def less_imp_le)
    moreover have "length (heap[p := heap ! ?c]) - ?c < length heap - p"
      using c p by simp
    ultimately obtain heap' slab' p' where
      "ipq_sift_down_loop (heap[p := heap ! ?c]) (set_idx slab (ii_slab (heap ! ?c)) p) (ii_key x) ?c
         = Some (heap', slab', p')"
      and s: "sifting (heap[p := heap ! ?c]) (set_idx slab (ii_slab (heap ! ?c)) p) ?c x heap' slab' p'"
      using less.hyps [OF _ m(2)] by blast
    then have "ipq_sift_down_loop heap slab (ii_key x) p = Some (heap', slab', p')"
      using ipq_sift_down_loop_move [OF _ _ m(1)] True by simp
    with sifting_step [OF s p c(1,4)] show ?thesis by blast
  next
    case False
    then have "ipq_sift_down_loop heap slab (ii_key x) p = Some (heap, slab, p)"
      by (intro ipq_sift_down_loop_stop) auto
    moreover have "item_below heap p x"
      unfolding below_hole_def
    proof (intro allI impI)
      fix i assume i: "0 < i" "i < length heap" "(i - 1) div 2 = p"
      then have "2 * p + 1 < length heap"
        using child_of_iff [of i p] by auto
      with False i min_child_props(4) [of p heap i] show "ii_key x \<le> ii_key (heap ! i)"
        by auto
    qed
    ultimately show ?thesis
      using sifting_stop [OF less.prems] by blast
  qed
qed

lemma ipq_sift_down_correct:
  assumes "hole_linked heap slab p x" "item_hole heap p" "item_above heap p x"
  shows "\<exists>heap' slab'. ipq_sift_down heap slab x p = Some (heap', slab') \<and>
           sifted heap slab p x heap' slab'"
proof -
  obtain heap' slab' p' where l: "ipq_sift_down_loop heap slab (ii_key x) p = Some (heap', slab', p')"
    and s: "sifting heap slab p x heap' slab' p'"
    using ipq_sift_down_loop_correct [OF assms] by blast
  show ?thesis
    using sifting_finish [OF s] unfolding ipq_sift_down_def l by simp
qed

subsection \<open>The free list\<close>

primrec chain :: "'v node list \<Rightarrow> nat option \<Rightarrow> nat list \<Rightarrow> bool" where
  "chain slab ff [] \<longleftrightarrow> ff = None"
| "chain slab ff (f # fs) \<longleftrightarrow>
     ff = Some f \<and> f < length slab \<and> (\<exists>nx. slab ! f = FreeNode nx \<and> chain slab nx fs)"

definition free_ok :: "'v node list \<Rightarrow> nat option \<Rightarrow> bool" where
  "free_ok slab ff \<longleftrightarrow>
     (\<exists>fs. chain slab ff fs \<and> distinct fs \<and>
           set fs = {s. s < length slab \<and> node_idx (slab ! s) = None})"

lemma chain_cong:
  "chain slab ff fs \<Longrightarrow> (\<And>f. f \<in> set fs \<Longrightarrow> f < length slab' \<and> slab' ! f = slab ! f) \<Longrightarrow>
     chain slab' ff fs"
  by (induction fs arbitrary: ff) auto

lemma node_shape_Free [simp]: "node_shape n = FreeNode nx \<longleftrightarrow> n = FreeNode nx"
  by (cases n) auto

lemma node_idx_shape: "node_shape n = node_shape m \<Longrightarrow> node_idx n = None \<longleftrightarrow> node_idx m = None"
  by (cases n; cases m) auto

lemma shape_nth:
  assumes "map node_shape slab' = map node_shape slab"
  shows "length slab' = length slab"
    and "s < length slab \<Longrightarrow> node_shape (slab' ! s) = node_shape (slab ! s)"
proof -
  show l: "length slab' = length slab"
    using assms map_eq_imp_length_eq by blast
  show "s < length slab \<Longrightarrow> node_shape (slab' ! s) = node_shape (slab ! s)"
    using arg_cong [OF assms, of "\<lambda>xs. xs ! s"] l by simp
qed

lemma free_ok_shape:
  assumes "map node_shape slab' = map node_shape slab" "free_ok slab ff"
  shows "free_ok slab' ff"
proof -
  obtain fs where fs: "chain slab ff fs" "distinct fs"
    "set fs = {s. s < length slab \<and> node_idx (slab ! s) = None}"
    using assms(2) by (auto simp: free_ok_def)
  have "chain slab' ff fs"
  proof (rule chain_cong [OF fs(1)])
    fix f
    assume "f \<in> set fs"
    then obtain nx where "f < length slab" "slab ! f = FreeNode nx"
      using fs(3) by (auto simp: node_idx_None)
    then show "f < length slab' \<and> slab' ! f = slab ! f"
      using shape_nth(1) [OF assms(1)] shape_nth(2) [OF assms(1), of f] by simp
  qed
  moreover have "{s. s < length slab \<and> node_idx (slab ! s) = None} =
      {s. s < length slab' \<and> node_idx (slab' ! s) = None}"
    using node_idx_shape [OF shape_nth(2) [OF assms(1)]] shape_nth(1) [OF assms(1)] by auto
  moreover note fs(3)
  ultimately show ?thesis
    using fs(2) unfolding free_ok_def by blast
qed

lemma free_ok_alloc:
  assumes "free_ok slab (Some i)"
  obtains nx where "i < length slab" "slab ! i = FreeNode nx" "free_ok (slab[i := HeapNode v j]) nx"
proof -
  obtain fs where fs: "chain slab (Some i) fs" "distinct fs"
    "set fs = {s. s < length slab \<and> node_idx (slab ! s) = None}"
    using assms by (auto simp: free_ok_def)
  then obtain gs nx where g: "fs = i # gs" "i < length slab" "slab ! i = FreeNode nx" "chain slab nx gs"
    by (cases fs) auto
  have "chain (slab[i := HeapNode v j]) nx gs"
  proof (rule chain_cong [OF g(4)])
    fix f assume "f \<in> set gs"
    then have "f \<noteq> i" "f \<in> set fs"
      using fs(2) g(1) by auto
    then show "f < length (slab[i := HeapNode v j]) \<and> slab[i := HeapNode v j] ! f = slab ! f"
      using fs(3) by auto
  qed
  moreover have "set gs = {s. s < length (slab[i := HeapNode v j]) \<and>
      node_idx (slab[i := HeapNode v j] ! s) = None}"
  proof -
    have "set gs = set fs - {i}"
      using fs(2) g(1) by auto
    also have "\<dots> = {s. s < length slab \<and> node_idx (slab ! s) = None} - {i}"
      by (simp only: fs(3))
    also have "\<dots> = {s. s < length (slab[i := HeapNode v j]) \<and>
        node_idx (slab[i := HeapNode v j] ! s) = None}"
      using g(2) by (auto simp: nth_list_update)
    finally show ?thesis .
  qed
  ultimately have "free_ok (slab[i := HeapNode v j]) nx"
    using fs(2) g(1) unfolding free_ok_def by auto
  with g(2,3) that show ?thesis by blast
qed

lemma free_ok_push:
  assumes "free_ok slab None"
  shows "free_ok (slab @ [HeapNode v j]) None"
proof -
  obtain fs where "chain slab None fs" "set fs = {s. s < length slab \<and> node_idx (slab ! s) = None}"
    using assms by (auto simp: free_ok_def)
  then have "{s. s < length slab \<and> node_idx (slab ! s) = None} = {}"
    by (cases fs) auto
  then have "set [] = {s. s < length (slab @ [HeapNode v j]) \<and>
      node_idx ((slab @ [HeapNode v j]) ! s) = None}"
    by (auto simp: nth_append less_Suc_eq)
  then show ?thesis
    unfolding free_ok_def by (intro exI [of _ "[]"]) simp
qed

lemma free_ok_release:
  assumes "free_ok slab ff" "s < length slab" "node_idx (slab ! s) \<noteq> None"
  shows "free_ok (slab[s := FreeNode ff]) (Some s)"
proof -
  obtain fs where fs: "chain slab ff fs" "distinct fs"
    "set fs = {s. s < length slab \<and> node_idx (slab ! s) = None}"
    using assms(1) by (auto simp: free_ok_def)
  have "chain (slab[s := FreeNode ff]) ff fs"
  proof (rule chain_cong [OF fs(1)])
    fix f assume "f \<in> set fs"
    then have "f < length slab" "f \<noteq> s"
      unfolding fs(3) using assms(3) by auto
    then show "f < length (slab[s := FreeNode ff]) \<and> slab[s := FreeNode ff] ! f = slab ! f"
      by simp
  qed
  moreover have "set (s # fs) = {t. t < length (slab[s := FreeNode ff]) \<and>
      node_idx (slab[s := FreeNode ff] ! t) = None}"
    unfolding list.set(2) fs(3) using assms(2) by (auto simp: nth_list_update)
  moreover have "distinct (s # fs)"
    unfolding distinct.simps(2) fs(3) using fs(2) assms(3) by simp
  ultimately show ?thesis
    using assms(2) unfolding free_ok_def by (intro exI [of _ "s # fs"]) auto
qed

subsection \<open>Invariant and abstract value\<close>

definition ipq_entry :: "'v node list \<Rightarrow> 'k ipq_item \<Rightarrow> insert_key \<times> 'k \<times> 'v" where
  "ipq_entry slab it =
     (InsertKey (ii_slab it) (snd (ii_key it)), (fst (ii_key it), hn_value (slab ! ii_slab it)))"

definition ipq_map :: "('k, 'v) ipq \<Rightarrow> insert_key \<rightharpoonup> 'k \<times> 'v" where
  "ipq_map q = map_of (map (ipq_entry (ipq_slab q)) (ipq_heap q))"

definition ipq_inv :: "('k::linorder, 'v) ipq \<Rightarrow> bool" where
  "ipq_inv q \<longleftrightarrow>
     item_heap (ipq_heap q) \<and> linked (ipq_heap q) (ipq_slab q) \<and>
     free_ok (ipq_slab q) (ipq_first_free q) \<and>
     distinct (map (snd \<circ> ii_key) (ipq_heap q)) \<and>
     (\<forall>it \<in> set (ipq_heap q). snd (ii_key it) < ipq_next_epoch q) \<and>
     ipq_next_epoch q \<le> u64_max"

lemma ipq_entry_keys_distinct:
  "distinct (map ii_slab heap) \<Longrightarrow> distinct (map fst (map (ipq_entry slab) heap))"
  by (induction heap) (auto simp: ipq_entry_def)

lemma ipq_map_eq_Some:
  assumes "linked (ipq_heap q) (ipq_slab q)"
  shows "ipq_map q ik = Some kv \<longleftrightarrow> (ik, kv) \<in> ipq_entry (ipq_slab q) ` set (ipq_heap q)"
  unfolding ipq_map_def
    map_of_eq_Some_iff [OF ipq_entry_keys_distinct [OF linked_distinct [OF assms]]] by simp

text \<open>Two queues with the same items and the same values have the same map.\<close>

lemma ipq_map_eqI:
  assumes "linked heap slab" "set heap = A"
    and "\<And>it. it \<in> A \<Longrightarrow> hn_value (slab ! ii_slab it) = f it"
  shows "map_of (map (ipq_entry slab) heap) ik = Some kv \<longleftrightarrow>
     (\<exists>it \<in> A. ik = InsertKey (ii_slab it) (snd (ii_key it)) \<and> kv = (fst (ii_key it), f it))"
  unfolding map_of_eq_Some_iff [OF ipq_entry_keys_distinct [OF linked_distinct [OF assms(1)]]]
  using assms(2,3) by (auto simp: ipq_entry_def)

lemma map_ext_Some: "(\<And>x y. m x = Some y \<longleftrightarrow> n x = Some y) \<Longrightarrow> m = n"
  by (rule ext) (metis option.exhaust)

lemma shape_value:
  assumes "map node_shape slab' = map node_shape slab" "s < length slab"
  shows "hn_value (slab' ! s) = hn_value (slab ! s)"
  using shape_nth(2) [OF assms] by (metis hn_value_shape)

lemma linked_new [simp]: "linked [] []"
  by (simp add: linked_def)

lemma ipq_inv_new [simp]: "ipq_inv ipq_new"
  by (auto simp: ipq_inv_def ipq_new_def free_ok_def intro: exI [of _ "[]"])

lemma ipq_next_epoch_new [simp]: "ipq_next_epoch ipq_new = 0"
  by (simp add: ipq_new_def)

lemma ipq_map_new [simp]: "ipq_map ipq_new = Map.empty"
  by (simp add: ipq_map_def ipq_new_def)

lemma ipq_map_epoch:
  assumes "ipq_inv q" "ipq_next_epoch q \<le> ik_epoch ik"
  shows "ipq_map q ik = None"
proof (rule ccontr)
  assume "ipq_map q ik \<noteq> None"
  then obtain kv where "ipq_map q ik = Some kv" by blast
  then show False
    using assms by (auto simp: ipq_inv_def ipq_map_eq_Some ipq_entry_def)
qed

subsection \<open>Insertion\<close>

lemma hole_linked_insert:
  assumes l: "linked heap slab" and s: "s < length slab'" "slab' ! s = HeapNode v j"
    and fresh: "s < length slab \<Longrightarrow> node_idx (slab ! s) = None"
    and same: "\<And>t. t \<noteq> s \<Longrightarrow> t < length slab' \<longleftrightarrow> t < length slab"
      "\<And>t. t \<noteq> s \<Longrightarrow> t < length slab \<Longrightarrow> slab' ! t = slab ! t"
  shows "hole_linked (heap @ [d]) slab' (length heap) (IItem k s)"
proof -
  let ?h = "heap @ [IItem k s]" and ?s = "set_idx slab' s (length heap)"
  have ne: "ii_slab (heap ! i) \<noteq> s" if "i < length heap" for i
    using linkedD [OF l that] fresh by auto
  have "linked ?h ?s"
  proof (rule linkedI)
    fix i
    assume "i < length ?h"
    then show "ii_slab (?h ! i) < length ?s \<and> node_idx (?s ! ii_slab (?h ! i)) = Some i"
      using linkedD [OF l, of i] ne [of i] s same
      by (cases "i = length heap") (auto simp: set_idx_nth nth_append)
  next
    fix t i
    assume t: "t < length ?s" "node_idx (?s ! t) = Some i"
    show "i < length ?h \<and> ii_slab (?h ! i) = t"
    proof (cases "t = s")
      case True
      with t s show ?thesis by (auto simp: set_idx_nth nth_append)
    next
      case False
      with t same [of t] have "i < length heap \<and> ii_slab (heap ! i) = t"
        using linked_back [OF l, of t i] by (simp add: set_idx_nth)
      then show ?thesis by (simp add: nth_append)
    qed
  qed
  with s show ?thesis
    by (simp add: hole_linked_def)
qed

lemma heap_hole_append: "heap_on R xs \<Longrightarrow> heap_hole R (xs @ [x]) (length xs)"
  unfolding heap_hole_def heap_on_def by (auto simp: nth_append)

text \<open>The slab after the allocation of a node, on both branches of the free list.\<close>

definition allocated ::
    "'v node list \<Rightarrow> 'v \<Rightarrow> 'v node list \<Rightarrow> nat option \<Rightarrow> nat \<Rightarrow> bool" where
  "allocated slab v slab' ff s \<longleftrightarrow>
     s < length slab' \<and> slab' ! s = HeapNode v 0 \<and> free_ok slab' ff \<and>
     (s < length slab \<longrightarrow> node_idx (slab ! s) = None) \<and>
     (\<forall>t. t \<noteq> s \<longrightarrow> t < length slab' \<longleftrightarrow> t < length slab) \<and>
     (\<forall>t. t \<noteq> s \<longrightarrow> t < length slab \<longrightarrow> slab' ! t = slab ! t)"

lemma ipq_alloc_ok:
  assumes "free_ok slab ff"
  shows "\<exists>slab' ff' s.
     (case ff of
        Some idx \<Rightarrow> do {
          n \<leftarrow> vec_get slab idx;
          nx \<leftarrow> unwrap_next_free_node n;
          slab \<leftarrow> vec_set slab idx (HeapNode v 0);
          Some (slab, nx, idx)
        }
      | None \<Rightarrow> Some (slab @ [HeapNode v 0], None, length slab)) = Some (slab', ff', s) \<and>
     allocated slab v slab' ff' s"
proof (cases ff)
  case None
  with assms show ?thesis
    using free_ok_push [of slab v 0] by (auto simp: allocated_def nth_append)
next
  case (Some idx)
  then have "free_ok slab (Some idx)"
    using assms by simp
  then obtain nx where "idx < length slab" "slab ! idx = FreeNode nx"
    "free_ok (slab[idx := HeapNode v 0]) nx"
    by (rule free_ok_alloc)
  with Some show ?thesis
    by (auto simp: allocated_def)
qed

lemma ipq_map_insert:
  assumes l: "linked (ipq_heap q) (ipq_slab q)" and l': "linked (ipq_heap q') (ipq_slab q')"
    and st: "set (ipq_heap q') = insert (IItem (k, e) s) (set (ipq_heap q))"
    and fresh: "\<And>it. it \<in> set (ipq_heap q) \<Longrightarrow> ii_slab it \<noteq> s"
    and val: "\<And>it. it \<in> set (ipq_heap q) \<Longrightarrow>
      hn_value (ipq_slab q' ! ii_slab it) = hn_value (ipq_slab q ! ii_slab it)"
    and v: "hn_value (ipq_slab q' ! s) = v"
  shows "ipq_map q' = (ipq_map q)(InsertKey s e \<mapsto> (k, v))"
proof (rule map_ext_Some)
  fix ik kv
  show "ipq_map q' ik = Some kv \<longleftrightarrow> ((ipq_map q)(InsertKey s e \<mapsto> (k, v))) ik = Some kv"
  proof (cases "ik = InsertKey s e")
    case True
    then show ?thesis
      unfolding ipq_map_eq_Some [OF l'] st using fresh v by (auto simp: ipq_entry_def)
  next
    case False
    then have "ipq_map q' ik = Some kv \<longleftrightarrow> (ik, kv) \<in> ipq_entry (ipq_slab q') ` set (ipq_heap q)"
      unfolding ipq_map_eq_Some [OF l'] st by (auto simp: ipq_entry_def)
    also have "ipq_entry (ipq_slab q') ` set (ipq_heap q) = ipq_entry (ipq_slab q) ` set (ipq_heap q)"
      using val by (auto simp: ipq_entry_def intro!: image_cong)
    finally show ?thesis
      using False by (simp add: ipq_map_eq_Some [OF l])
  qed
qed

lemma ipq_insert_correct:
  assumes inv: "ipq_inv q" and e: "ipq_next_epoch q < u64_max"
  shows "\<exists>ik q'. ipq_insert k v q = Some (ik, q') \<and> ipq_inv q' \<and>
     ik_epoch ik = ipq_next_epoch q \<and> ipq_next_epoch q' = Suc (ipq_next_epoch q) \<and>
     ipq_map q' = (ipq_map q)(ik \<mapsto> (k, v))"
proof -
  let ?heap = "ipq_heap q" and ?slab = "ipq_slab q" and ?e = "ipq_next_epoch q"
  have l: "linked ?heap ?slab" and h: "item_heap ?heap" and f: "free_ok ?slab (ipq_first_free q)"
    and d: "distinct (map (snd \<circ> ii_key) ?heap)" and lt: "\<forall>it \<in> set ?heap. snd (ii_key it) < ?e"
    using inv by (auto simp: ipq_inv_def)
  obtain slab1 ff s where alloc: "(case ipq_first_free q of
        Some idx \<Rightarrow> do {
          n \<leftarrow> vec_get ?slab idx;
          nx \<leftarrow> unwrap_next_free_node n;
          slab \<leftarrow> vec_set ?slab idx (HeapNode v 0);
          Some (slab, nx, idx)
        }
      | None \<Rightarrow> Some (?slab @ [HeapNode v 0], None, length ?slab)) = Some (slab1, ff, s)"
    and a: "allocated ?slab v slab1 ff s"
    using ipq_alloc_ok [OF f, of v] by blast
  let ?x = "IItem (k, ?e) s" and ?d = "IItem (k, ?e) 0"
  have hl: "hole_linked (?heap @ [?d]) slab1 (length ?heap) ?x"
    by (rule hole_linked_insert [OF l]) (use a in \<open>auto simp: allocated_def\<close>)
  have "item_below (?heap @ [?d]) (length ?heap) ?x"
    by (rule below_hole_leaf) simp
  then obtain heap' slab' where sift:
    "ipq_sift_up (?heap @ [?d]) slab1 ?x (length ?heap) = Some (heap', slab')"
    and r: "sifted (?heap @ [?d]) slab1 (length ?heap) ?x heap' slab'"
    using ipq_sift_up_correct [OF hl heap_hole_append [OF h]] by blast
  let ?q' = "\<lparr>ipq_heap = heap', ipq_slab = slab', ipq_first_free = ff, ipq_next_epoch = ?e + 1\<rparr>"
  have sh: "map node_shape slab' = map node_shape slab1" and ms: "mset heap' = mset (?x # ?heap)"
    using r by (simp_all add: sifted_def)
  have st: "set heap' = insert ?x (set ?heap)"
    using mset_eq_setD [OF ms] by simp
  have xs: "ii_slab it \<noteq> s \<and> ii_slab it < length ?slab \<and> ii_slab it < length slab1"
    if "it \<in> set ?heap" for it
  proof -
    from that obtain i where "i < length ?heap" "it = ?heap ! i"
      by (auto simp: in_set_conv_nth)
    then have "ii_slab it < length ?slab" "node_idx (?slab ! ii_slab it) = Some i"
      using linkedD [OF l, of i] by auto
    with a show ?thesis by (auto simp: allocated_def)
  qed
  have "distinct (map (snd \<circ> ii_key) heap')"
    using mset_eq_imp_distinct_iff [of "map (snd \<circ> ii_key) heap'" "map (snd \<circ> ii_key) (?x # ?heap)"]
      ms d lt by auto
  then have "ipq_inv ?q'"
    using r a lt e st free_ok_shape [OF sh, of ff]
    by (auto simp: ipq_inv_def sifted_def allocated_def)
  moreover have "ipq_map ?q' = (ipq_map q)(InsertKey s ?e \<mapsto> (k, v))"
    using l r st xs a shape_value [OF sh]
    by (intro ipq_map_insert) (auto simp: sifted_def allocated_def)
  moreover have "ipq_insert k v q = Some (InsertKey s ?e, ?q')"
    using e alloc sift by (simp add: ipq_insert_def Let_def)
  ultimately show ?thesis by auto
qed

subsection \<open>Removal\<close>

lemma mset_swap_remove:
  assumes "p < length xs - 1"
  shows "add_mset (xs ! p) (mset ((butlast xs)[p := last xs])) = mset xs"
proof -
  have "xs \<noteq> []" and "p < length (butlast xs)"
    using assms by auto
  then show ?thesis
    using mset_update_add [of p "butlast xs" "last xs"] mset_butlast_last [of xs]
    by (simp add: nth_butlast)
qed

text \<open>The state after a removal of the item \<open>x\<close>, whatever way the heap was repaired.\<close>

definition removed ::
    "('k::linorder, 'v) ipq \<Rightarrow> 'k ipq_item \<Rightarrow> 'k ipq_item list \<Rightarrow> 'v node list \<Rightarrow> bool" where
  "removed q x heap' slab' \<longleftrightarrow>
     item_heap heap' \<and> linked heap' slab' \<and> add_mset x (mset heap') = mset (ipq_heap q) \<and>
     map node_shape slab' =
       map node_shape ((ipq_slab q)[ii_slab x := FreeNode (ipq_first_free q)])"

lemma removed_state:
  assumes inv: "ipq_inv q" and r: "removed q x heap' slab'"
  defines "q' \<equiv> q\<lparr>ipq_heap := heap', ipq_slab := slab', ipq_first_free := Some (ii_slab x)\<rparr>"
  shows "ipq_inv q'" and "ipq_map q' = (ipq_map q)(InsertKey (ii_slab x) (snd (ii_key x)) := None)"
proof -
  let ?heap = "ipq_heap q" and ?slab = "ipq_slab q" and ?s = "ii_slab x"
  have l: "linked ?heap ?slab" and f: "free_ok ?slab (ipq_first_free q)"
    and d: "distinct (map (snd \<circ> ii_key) ?heap)"
    using inv by (auto simp: ipq_inv_def)
  have l': "linked heap' slab'" and ms: "mset ?heap = mset (x # heap')"
    and sh: "map node_shape slab' = map node_shape (?slab[?s := FreeNode (ipq_first_free q)])"
    using r by (auto simp: removed_def)
  have st: "set ?heap = insert x (set heap')"
    using mset_eq_setD [OF ms] by simp
  have dd: "distinct (map ii_slab (x # heap'))" "distinct (map (snd \<circ> ii_key) (x # heap'))"
    using mset_eq_imp_distinct_iff [of "map ii_slab ?heap" "map ii_slab (x # heap')"]
      mset_eq_imp_distinct_iff [of "map (snd \<circ> ii_key) ?heap" "map (snd \<circ> ii_key) (x # heap')"]
      ms linked_distinct [OF l] d by auto
  have slabs: "ii_slab it < length ?slab \<and> node_idx (?slab ! ii_slab it) \<noteq> None" if "it \<in> set ?heap" for it
    using that linkedD [OF l] by (auto simp: in_set_conv_nth)
  have "free_ok slab' (Some ?s)"
    using free_ok_shape [OF sh] free_ok_release [OF f] slabs [of x] st by blast
  then show "ipq_inv q'"
    using r inv st dd by (auto simp: removed_def ipq_inv_def q'_def)
  have val: "hn_value (slab' ! ii_slab it) = hn_value (?slab ! ii_slab it)" if "it \<in> set heap'" for it
  proof -
    have "ii_slab it \<noteq> ?s" "ii_slab it < length ?slab"
      using that dd(1) slabs [of it] st by (auto simp: rev_image_eqI)
    then show ?thesis
      using shape_value [OF sh, of "ii_slab it"] by simp
  qed
  show "ipq_map q' = (ipq_map q)(InsertKey ?s (snd (ii_key x)) := None)"
  proof (rule map_ext_Some)
    fix ik kv
    have "ipq_map q' ik = Some kv \<longleftrightarrow> (ik, kv) \<in> ipq_entry slab' ` set heap'"
      using ipq_map_eq_Some [of q' ik kv] l' by (simp add: q'_def)
    also have "ipq_entry slab' ` set heap' = ipq_entry ?slab ` set heap'"
      using val by (auto simp: ipq_entry_def intro!: image_cong)
    also have "(ik, kv) \<in> \<dots> \<longleftrightarrow> ik \<noteq> InsertKey ?s (snd (ii_key x)) \<and> ipq_map q ik = Some kv"
      unfolding ipq_map_eq_Some [OF l] st using dd(1) by (auto simp: ipq_entry_def rev_image_eqI)
    finally show "ipq_map q' ik = Some kv \<longleftrightarrow>
        ((ipq_map q)(InsertKey ?s (snd (ii_key x)) := None)) ik = Some kv"
      by auto
  qed
qed

lemma removed_last:
  assumes "ipq_inv q" "ipq_heap q \<noteq> []"
  shows "removed q (last (ipq_heap q)) (butlast (ipq_heap q))
     ((ipq_slab q)[ii_slab (last (ipq_heap q)) := FreeNode (ipq_first_free q)])"
  using assms linked_remove_last [of "ipq_heap q" "ipq_slab q"]
  by (auto simp: removed_def ipq_inv_def mset_butlast_last heap_on_butlast)

lemma removed_sifted:
  assumes "p < length (ipq_heap q) - 1"
    and "sifted (butlast (ipq_heap q))
      ((ipq_slab q)[ii_slab (ipq_heap q ! p) := FreeNode (ipq_first_free q)]) p (last (ipq_heap q))
      heap' slab'"
  shows "removed q (ipq_heap q ! p) heap' slab'"
  using assms mset_swap_remove [OF assms(1)] by (simp add: removed_def sifted_def)

lemma remove_hole:
  assumes "ipq_inv q" "p < length (ipq_heap q) - 1"
  shows "item_hole (butlast (ipq_heap q)) p"
    and "hole_linked (butlast (ipq_heap q))
      ((ipq_slab q)[ii_slab (ipq_heap q ! p) := FreeNode (ipq_first_free q)]) p (last (ipq_heap q))"
  using assms linked_remove_inner [of "ipq_heap q" "ipq_slab q" p]
    ikey.heap_on_hole [OF heap_on_butlast, of "ipq_heap q" p]
  by (auto simp: ipq_inv_def)

lemma ipq_node_at:
  assumes "ipq_inv q" "p < length (ipq_heap q)"
  obtains v where "ii_slab (ipq_heap q ! p) < length (ipq_slab q)"
    and "ipq_slab q ! ii_slab (ipq_heap q ! p) = HeapNode v p"
    and "ipq_map q (InsertKey (ii_slab (ipq_heap q ! p)) (snd (ii_key (ipq_heap q ! p))))
      = Some (fst (ii_key (ipq_heap q ! p)), v)"
proof -
  have l: "linked (ipq_heap q) (ipq_slab q)"
    using assms(1) by (simp add: ipq_inv_def)
  note n = linkedD [OF l assms(2)]
  then obtain v where "ipq_slab q ! ii_slab (ipq_heap q ! p) = HeapNode v p"
    by (cases "ipq_slab q ! ii_slab (ipq_heap q ! p)") auto
  moreover from this have "ipq_map q (InsertKey (ii_slab (ipq_heap q ! p)) (snd (ii_key (ipq_heap q ! p))))
      = Some (fst (ii_key (ipq_heap q ! p)), v)"
    using assms(2) by (auto simp: ipq_map_eq_Some [OF l] ipq_entry_def intro!: rev_image_eqI)
  ultimately show ?thesis
    using that n(1) by blast
qed

lemma ipq_map_root:
  assumes "ipq_inv q" "ipq_map q ik = Some (k, v)"
  shows "ipq_heap q \<noteq> []" and "ii_key (ipq_heap q ! 0) \<le> (k, ik_epoch ik)"
proof -
  have l: "linked (ipq_heap q) (ipq_slab q)" and h: "item_heap (ipq_heap q)"
    using assms(1) by (auto simp: ipq_inv_def)
  obtain i where "i < length (ipq_heap q)" "(k, ik_epoch ik) = ii_key (ipq_heap q ! i)"
    using assms(2) unfolding ipq_map_eq_Some [OF l]
    by (auto simp: ipq_entry_def in_set_conv_nth)
  then show "ipq_heap q \<noteq> []" and "ii_key (ipq_heap q ! 0) \<le> (k, ik_epoch ik)"
    using ikey.heap_root_extreme [OF h] by auto
qed

lemma ipq_pull_empty:
  assumes "ipq_inv q" "ipq_heap q = []"
  shows "ipq_pull q = Some (None, q)" "ipq_map q = Map.empty"
  using assms by (auto simp: ipq_pull_def ipq_map_def)

lemma ipq_pull_nonempty:
  assumes inv: "ipq_inv q" and ne: "ipq_heap q \<noteq> []"
  shows "\<exists>v q'. ipq_pull q = Some (Some (fst (ii_key (ipq_heap q ! 0)), v), q') \<and> ipq_inv q' \<and>
     ipq_next_epoch q' = ipq_next_epoch q \<and>
     ipq_map q (InsertKey (ii_slab (ipq_heap q ! 0)) (snd (ii_key (ipq_heap q ! 0))))
       = Some (fst (ii_key (ipq_heap q ! 0)), v) \<and>
     ipq_map q' = (ipq_map q)(InsertKey (ii_slab (ipq_heap q ! 0)) (snd (ii_key (ipq_heap q ! 0))) := None)"
proof -
  let ?it = "ipq_heap q ! 0" and ?last = "last (ipq_heap q)"
  let ?slab = "(ipq_slab q)[ii_slab ?it := FreeNode (ipq_first_free q)]"
  have hd: "ipq_heap q = ?it # tl (ipq_heap q)" and n0: "0 < length (ipq_heap q)"
    using ne by (auto simp: hd_conv_nth [symmetric])
  obtain v where v: "ii_slab ?it < length (ipq_slab q)" "ipq_slab q ! ii_slab ?it = HeapNode v 0"
    "ipq_map q (InsertKey (ii_slab ?it) (snd (ii_key ?it))) = Some (fst (ii_key ?it), v)"
    using ipq_node_at [OF inv n0] by blast
  have l: "linked (ipq_heap q) (ipq_slab q)"
    using inv by (simp add: ipq_inv_def)
  have top: "ii_slab ?last \<noteq> ii_slab ?it \<longleftrightarrow> 0 < length (ipq_heap q) - 1"
    using linked_inj [OF l, of "length (ipq_heap q) - 1" 0] ne by (auto simp: last_conv_nth)
  have "\<exists>heap' slab'. (if ii_slab ?last \<noteq> ii_slab ?it
        then ipq_sift_down (butlast (ipq_heap q)) ?slab ?last 0
        else Some (butlast (ipq_heap q), ?slab)) = Some (heap', slab') \<and> removed q ?it heap' slab'"
  proof (cases "0 < length (ipq_heap q) - 1")
    case True
    then show ?thesis
      using ipq_sift_down_correct [OF remove_hole(2) [OF inv True] remove_hole(1) [OF inv True]]
        removed_sifted [OF True] top by auto
  next
    case False
    then have "length (ipq_heap q) = Suc 0"
      using ne by (cases "ipq_heap q") auto
    then have "?last = ?it"
      using ne by (simp add: last_conv_nth)
    with removed_last [OF inv ne] show ?thesis by auto
  qed
  then obtain heap' slab' where s: "(if ii_slab ?last \<noteq> ii_slab ?it
        then ipq_sift_down (butlast (ipq_heap q)) ?slab ?last 0
        else Some (butlast (ipq_heap q), ?slab)) = Some (heap', slab')"
    and r: "removed q ?it heap' slab'"
    by blast
  have "ipq_pull q = Some (Some (fst (ii_key ?it), v),
      q\<lparr>ipq_heap := heap', ipq_slab := slab', ipq_first_free := Some (ii_slab ?it)\<rparr>)"
    unfolding ipq_pull_def using v(1,2) s by (subst hd) (simp del: butlast.simps last.simps add: Let_def)
  with removed_state [OF inv r] v(3) show ?thesis
    by (intro exI conjI) (assumption | simp)+
qed

lemma ipq_map_node:
  assumes "ipq_inv q" "ipq_map q ik = Some kv"
  obtains v p where "ik_slab ik < length (ipq_slab q)" "ipq_slab q ! ik_slab ik = HeapNode v p"
    "p < length (ipq_heap q)" "snd (ii_key (ipq_heap q ! p)) = ik_epoch ik"
proof -
  have l: "linked (ipq_heap q) (ipq_slab q)"
    using assms(1) by (simp add: ipq_inv_def)
  obtain p where p: "p < length (ipq_heap q)" "ik_slab ik = ii_slab (ipq_heap q ! p)"
    "snd (ii_key (ipq_heap q ! p)) = ik_epoch ik"
    using assms(2) unfolding ipq_map_eq_Some [OF l]
    by (auto simp: ipq_entry_def in_set_conv_nth)
  then show ?thesis
    using ipq_node_at [OF assms(1) p(1)] that by metis
qed

lemma ipq_extract_miss:
  assumes "ipq_inv q" "ipq_map q ik = None"
  shows "ipq_extract ik q = Some (None, q)"
proof (cases "ik_slab ik < length (ipq_slab q)")
  case True
  show ?thesis
  proof (cases "ipq_slab q ! ik_slab ik")
    case (HeapNode v p)
    have l: "linked (ipq_heap q) (ipq_slab q)"
      using assms(1) by (simp add: ipq_inv_def)
    have p: "p < length (ipq_heap q)" "ii_slab (ipq_heap q ! p) = ik_slab ik"
      using linked_back [OF l True, of p] HeapNode by auto
    have "snd (ii_key (ipq_heap q ! p)) \<noteq> ik_epoch ik"
    proof
      assume "snd (ii_key (ipq_heap q ! p)) = ik_epoch ik"
      then have "ipq_map q ik \<noteq> None"
        using ipq_node_at [OF assms(1) p(1)] p(2) by (metis insert_key.collapse option.distinct(1))
      with assms(2) show False by simp
    qed
    with HeapNode True p show ?thesis
      by (simp add: ipq_extract_def)
  qed (use True in \<open>simp add: ipq_extract_def\<close>)
qed (simp add: ipq_extract_def)

text \<open>The repair of the heap after the removal of the item at \<open>p\<close>.\<close>

lemma ipq_extract_repair:
  assumes inv: "ipq_inv q" and p: "p < length (ipq_heap q)"
  defines "heap \<equiv> butlast (ipq_heap q)" and "x \<equiv> last (ipq_heap q)"
    and "slab \<equiv> (ipq_slab q)[ii_slab (ipq_heap q ! p) := FreeNode (ipq_first_free q)]"
  shows "\<exists>heap' slab'. (if p < length heap then
       (if ii_key x < ii_key (heap ! p) then ipq_sift_up heap slab x p else ipq_sift_down heap slab x p)
       else Some (heap, slab)) = Some (heap', slab') \<and> removed q (ipq_heap q ! p) heap' slab'"
proof (cases "p < length heap")
  case True
  then have p': "p < length (ipq_heap q) - 1"
    by (simp add: heap_def)
  note hole = remove_hole [OF inv p', folded heap_def x_def slab_def]
  have h: "item_heap heap"
    using inv by (simp add: heap_def ipq_inv_def heap_on_butlast)
  show ?thesis
  proof (cases "ii_key x < ii_key (heap ! p)")
    case lt: True
    have "item_below heap p x"
      unfolding below_hole_def
    proof (intro allI impI)
      fix i :: nat
      assume "0 < i" "i < length heap" "(i - 1) div 2 = p"
      then have "ii_key (heap ! p) \<le> ii_key (heap ! i)"
        using heap_onD [OF h, of i] by simp
      with lt show "ii_key x \<le> ii_key (heap ! i)" by order
    qed
    from ipq_sift_up_correct [OF hole(2,1) this] obtain heap' slab' where
      "ipq_sift_up heap slab x p = Some (heap', slab')" "sifted heap slab p x heap' slab'"
      by blast
    with removed_sifted [OF p', folded heap_def x_def slab_def] True lt show ?thesis
      by simp
  next
    case ge: False
    have "item_above heap p x"
      unfolding above_hole_def
    proof
      assume "0 < p"
      then have "ii_key (heap ! ((p - 1) div 2)) \<le> ii_key (heap ! p)"
        using heap_onD [OF h, of p] True by simp
      with ge show "ii_key (heap ! ((p - 1) div 2)) \<le> ii_key x" by order
    qed
    from ipq_sift_down_correct [OF hole(2,1) this] obtain heap' slab' where
      "ipq_sift_down heap slab x p = Some (heap', slab')" "sifted heap slab p x heap' slab'"
      by blast
    with removed_sifted [OF p', folded heap_def x_def slab_def] True ge show ?thesis
      by simp
  qed
next
  case False
  then have "ipq_heap q \<noteq> []" "p = length (ipq_heap q) - 1"
    using p by (auto simp: heap_def)
  then have "x = ipq_heap q ! p"
    by (simp add: x_def last_conv_nth)
  then show ?thesis
    using removed_last [OF inv \<open>ipq_heap q \<noteq> []\<close>] False by (simp add: heap_def slab_def x_def)
qed

lemma ipq_extract_correct:
  assumes inv: "ipq_inv q"
  shows "\<exists>q'. ipq_extract ik q = Some (ipq_map q ik, q') \<and> ipq_inv q' \<and>
     ipq_next_epoch q' = ipq_next_epoch q \<and> ipq_map q' = (ipq_map q)(ik := None)"
proof (cases "ipq_map q ik")
  case None
  with ipq_extract_miss [OF inv None] inv show ?thesis
    by (simp add: fun_upd_idem)
next
  case (Some kv)
  with inv obtain v p where n: "ik_slab ik < length (ipq_slab q)" "ipq_slab q ! ik_slab ik = HeapNode v p"
    "p < length (ipq_heap q)" "snd (ii_key (ipq_heap q ! p)) = ik_epoch ik"
    by (rule ipq_map_node)
  have "linked (ipq_heap q) (ipq_slab q)"
    using inv by (simp add: ipq_inv_def)
  then have s: "ii_slab (ipq_heap q ! p) = ik_slab ik"
    using linked_back n(1,2) by fastforce
  then have ik: "InsertKey (ii_slab (ipq_heap q ! p)) (snd (ii_key (ipq_heap q ! p))) = ik"
    using n(4) by simp
  have m: "ipq_map q ik = Some (fst (ii_key (ipq_heap q ! p)), v)"
    using ipq_node_at [OF inv n(3)] s ik n(2) by (metis node.inject(2))
  from ipq_extract_repair [OF inv n(3)] obtain heap' slab' where
    rep: "(if p < length (butlast (ipq_heap q)) then
       (if ii_key (last (ipq_heap q)) < ii_key (butlast (ipq_heap q) ! p)
        then ipq_sift_up (butlast (ipq_heap q))
          ((ipq_slab q)[ik_slab ik := FreeNode (ipq_first_free q)]) (last (ipq_heap q)) p
        else ipq_sift_down (butlast (ipq_heap q))
          ((ipq_slab q)[ik_slab ik := FreeNode (ipq_first_free q)]) (last (ipq_heap q)) p)
       else Some (butlast (ipq_heap q), (ipq_slab q)[ik_slab ik := FreeNode (ipq_first_free q)]))
       = Some (heap', slab')"
    and r: "removed q (ipq_heap q ! p) heap' slab'"
    unfolding s by blast
  have "ipq_extract ik q = Some (Some (fst (ii_key (ipq_heap q ! p)), v),
      q\<lparr>ipq_heap := heap', ipq_slab := slab', ipq_first_free := Some (ik_slab ik)\<rparr>)"
    using n rep by (simp add: ipq_extract_def Let_def)
  with removed_state [OF inv r] m ik s show ?thesis
    by simp
qed

lemma ipq_peek_root:
  assumes "ipq_inv q"
  shows "ipq_peek q = map_option fst (ipq_pull q)"
    and "ipq_peek_key q = (case ipq_heap q of [] \<Rightarrow> None | it # _ \<Rightarrow> Some (fst (ii_key it)))"
proof -
  show "ipq_peek q = map_option fst (ipq_pull q)"
  proof (cases "ipq_heap q")
    case Nil
    then show ?thesis by (simp add: ipq_peek_def ipq_pull_def)
  next
    case (Cons it rest)
    then have "0 < length (ipq_heap q)" by simp
    from ipq_node_at [OF assms this] obtain v where
      "ii_slab it < length (ipq_slab q)" "ipq_slab q ! ii_slab it = HeapNode v 0"
      "ipq_map q (InsertKey (ii_slab it) (snd (ii_key it))) = Some (fst (ii_key it), v)"
      using Cons by (metis nth_Cons_0)
    with ipq_pull_nonempty [OF assms] Cons show ?thesis
      by (auto simp: ipq_peek_def)
  qed
qed (simp add: ipq_peek_key_def)

subsection \<open>The contract of an indexed queue\<close>

text \<open>The loop that pulls all entries with a key below a bound, for any queue operations.\<close>

partial_function (option) pull_below ::
    "('q \<Rightarrow> 'k::linorder option) \<Rightarrow> ('q \<Rightarrow> (('k \<times> 'v) option \<times> 'q) exec) \<Rightarrow> 'k \<Rightarrow> 'q \<Rightarrow> 'q exec" where
  "pull_below peek_key pull now q =
     (case peek_key q of
        None \<Rightarrow> Some q
      | Some k \<Rightarrow>
          if now \<le> k then Some q
          else Option.bind (pull q) (\<lambda>(_, q'). pull_below peek_key pull now q'))"

locale indexed_queue =
  fixes inv :: "'q \<Rightarrow> bool"
    and view :: "'q \<Rightarrow> insert_key \<Rightarrow> ('k::linorder \<times> 'v) option"
    and room :: "'q \<Rightarrow> nat"
    and insert :: "'k \<Rightarrow> 'v \<Rightarrow> 'q \<Rightarrow> (insert_key \<times> 'q) exec"
    and pull :: "'q \<Rightarrow> (('k \<times> 'v) option \<times> 'q) exec"
    and peek_key :: "'q \<Rightarrow> 'k option"
    and extract_entry :: "insert_key \<Rightarrow> 'q \<Rightarrow> (('k \<times> 'v) option \<times> 'q) exec"
  assumes view_finite: "finite (dom (view q))"
    and insert_ok: "inv q \<Longrightarrow> 0 < room q \<Longrightarrow>
      \<exists>ik q'. insert k v q = Some (ik, q') \<and> inv q' \<and> view q ik = None \<and>
        view q' = (view q)(ik \<mapsto> (k, v)) \<and> room q = Suc (room q')"
    and extract_ok: "inv q \<Longrightarrow>
      \<exists>q'. extract_entry ik q = Some (view q ik, q') \<and> inv q' \<and> view q' = (view q)(ik := None) \<and>
        room q' = room q"
    and pull_empty: "inv q \<Longrightarrow> view q = Map.empty \<Longrightarrow> pull q = Some (None, q) \<and> peek_key q = None"
    and pull_min: "inv q \<Longrightarrow> view q \<noteq> Map.empty \<Longrightarrow>
      \<exists>ik k v q'. peek_key q = Some k \<and> pull q = Some (Some (k, v), q') \<and> inv q' \<and>
        view q ik = Some (k, v) \<and> view q' = (view q)(ik := None) \<and> room q' = room q \<and>
        (\<forall>ik' k' v'. view q ik' = Some (k', v') \<longrightarrow> (k, ik_epoch ik) \<le> (k', ik_epoch ik'))"
begin

lemma pull_below_ok:
  assumes "inv q"
  shows "\<exists>q'. pull_below peek_key pull now q = Some q' \<and> inv q' \<and> room q' = room q \<and>
    view q' = (\<lambda>ik. case view q ik of None \<Rightarrow> None | Some (k, v) \<Rightarrow> if k < now then None else Some (k, v))"
  using assms
proof (induction "card (dom (view q))" arbitrary: q rule: less_induct)
  case less
  show ?case
  proof (cases "view q = Map.empty")
    case True
    with pull_empty [OF less.prems] less.prems show ?thesis
      by (subst pull_below.simps) auto
  next
    case False
    from pull_min [OF less.prems False] obtain ik k v q1 where
      p: "peek_key q = Some k" "pull q = Some (Some (k, v), q1)" and q1: "inv q1" "room q1 = room q"
      and ik: "view q ik = Some (k, v)" and v1: "view q1 = (view q)(ik := None)"
      and least: "\<forall>ik' k' v'. view q ik' = Some (k', v') \<longrightarrow> (k, ik_epoch ik) \<le> (k', ik_epoch ik')"
      by blast
    show ?thesis
    proof (cases "now \<le> k")
      case True
      have "\<not> k' < now" if "view q ik' = Some (k', v')" for ik' k' v'
        using least that True by (fastforce simp: less_eq_prod_def)
      then have "view q = (\<lambda>ik. case view q ik of None \<Rightarrow> None
          | Some (k, v) \<Rightarrow> if k < now then None else Some (k, v))"
        by (intro ext) (auto split: option.splits)
      with True p(1) less.prems show ?thesis
        by (subst pull_below.simps) simp
    next
      case False
      have "dom (view q1) \<subset> dom (view q)"
        unfolding v1 using ik by auto
      then have "card (dom (view q1)) < card (dom (view q))"
        by (rule psubset_card_mono [OF view_finite])
      from less.hyps [OF this q1(1)] obtain q2 where
        q2: "pull_below peek_key pull now q1 = Some q2" "inv q2" "room q2 = room q1"
        "view q2 = (\<lambda>ik. case view q1 ik of None \<Rightarrow> None
          | Some (k, v) \<Rightarrow> if k < now then None else Some (k, v))"
        by blast
      have "view q2 = (\<lambda>ik. case view q ik of None \<Rightarrow> None
          | Some (k, v) \<Rightarrow> if k < now then None else Some (k, v))"
        unfolding q2(4) v1 using ik False by (intro ext) auto
      moreover have "pull_below peek_key pull now q = Some q2"
        using False p q2(1) by (subst pull_below.simps) simp
      ultimately show ?thesis
        using q2 q1 by auto
    qed
  qed
qed

end

lemma ipq_map_empty_iff:
  assumes "ipq_inv q"
  shows "ipq_map q = Map.empty \<longleftrightarrow> ipq_heap q = []"
  using ipq_pull_empty(2) [OF assms] ipq_node_at [OF assms, of 0] by fastforce

lemma prod_le_iff: "(a :: 'a::linorder, b :: nat) \<le> (c, d) \<longleftrightarrow> a < c \<or> a = c \<and> b \<le> d"
  by (auto simp: less_eq_prod_def)

lemma ipq_pull_correct:
  assumes inv: "ipq_inv q" and ne: "ipq_map q \<noteq> Map.empty"
  shows "\<exists>ik k v q'. ipq_peek_key q = Some k \<and> ipq_pull q = Some (Some (k, v), q') \<and> ipq_inv q' \<and>
     ipq_map q ik = Some (k, v) \<and> ipq_map q' = (ipq_map q)(ik := None) \<and>
     ipq_next_epoch q' = ipq_next_epoch q \<and>
     (\<forall>ik' k' v'. ipq_map q ik' = Some (k', v') \<longrightarrow> (k, ik_epoch ik) \<le> (k', ik_epoch ik'))"
proof -
  let ?it = "ipq_heap q ! 0"
  have h: "ipq_heap q \<noteq> []"
    using ne ipq_map_empty_iff [OF inv] by simp
  from ipq_pull_nonempty [OF inv h] obtain v q' where
    r: "ipq_pull q = Some (Some (fst (ii_key ?it), v), q')" "ipq_inv q'"
      "ipq_next_epoch q' = ipq_next_epoch q"
      "ipq_map q (InsertKey (ii_slab ?it) (snd (ii_key ?it))) = Some (fst (ii_key ?it), v)"
      "ipq_map q' = (ipq_map q)(InsertKey (ii_slab ?it) (snd (ii_key ?it)) := None)"
    by blast
  moreover have "ipq_peek_key q = Some (fst (ii_key ?it))"
    using h by (cases "ipq_heap q") (auto simp: ipq_peek_key_def)
  moreover have "\<forall>ik' k' v'. ipq_map q ik' = Some (k', v') \<longrightarrow>
      (fst (ii_key ?it), snd (ii_key ?it)) \<le> (k', ik_epoch ik')"
    using ipq_map_root(2) [OF inv] by (simp only: prod.collapse) blast
  ultimately show ?thesis
    by (intro exI [of _ "InsertKey (ii_slab ?it) (snd (ii_key ?it))"] exI [of _ "fst (ii_key ?it)"]
        exI [of _ v] exI [of _ q']) simp
qed

interpretation ipq: indexed_queue ipq_inv ipq_map "\<lambda>q. u64_max - ipq_next_epoch q"
    ipq_insert ipq_pull ipq_peek_key ipq_extract
proof (unfold_locales, goal_cases)
  case (1 q)
  show ?case by (simp add: ipq_map_def finite_dom_map_of)
next
  case (2 q k v)
  then obtain ik q' where "ipq_insert k v q = Some (ik, q')" "ipq_inv q'"
    "ik_epoch ik = ipq_next_epoch q" "ipq_next_epoch q' = Suc (ipq_next_epoch q)"
    "ipq_map q' = (ipq_map q)(ik \<mapsto> (k, v))"
    using ipq_insert_correct [of q k v] by auto
  with 2 ipq_map_epoch [of q ik] show ?case by auto
next
  case (3 q ik)
  then show ?case using ipq_extract_correct [of q ik] by auto
next
  case (4 q)
  then show ?case
    using ipq_pull_empty(1) [of q] by (simp add: ipq_map_empty_iff ipq_peek_key_def)
next
  case (5 q)
  then show ?case using ipq_pull_correct [of q] by metis
qed

subsection \<open>Sequences of operations\<close>

datatype ('k, 'v) ipq_op = OpInsert 'k 'v | OpPull | OpExtract insert_key

datatype ('k, 'v) ipq_out = OutKey insert_key | OutPair "('k \<times> 'v) option"

fun ipq_step :: "('k::linorder, 'v) ipq_op \<Rightarrow> ('k, 'v) ipq \<Rightarrow> (('k, 'v) ipq_out \<times> ('k, 'v) ipq) exec" where
  "ipq_step (OpInsert k v) q = map_option (\<lambda>(ik, q'). (OutKey ik, q')) (ipq_insert k v q)"
| "ipq_step OpPull q = map_option (\<lambda>(r, q'). (OutPair r, q')) (ipq_pull q)"
| "ipq_step (OpExtract ik) q = map_option (\<lambda>(r, q'). (OutPair r, q')) (ipq_extract ik q)"

fun ipq_run :: "('k::linorder, 'v) ipq_op list \<Rightarrow> ('k, 'v) ipq \<Rightarrow> (('k, 'v) ipq_out list \<times> ('k, 'v) ipq) exec" where
  "ipq_run [] q = Some ([], q)"
| "ipq_run (a # as) q = do {
     (r, q') \<leftarrow> ipq_step a q;
     (rs, q'') \<leftarrow> ipq_run as q';
     Some (r # rs, q'')
   }"

fun is_insert :: "('k, 'v) ipq_op \<Rightarrow> bool" where
  "is_insert (OpInsert _ _) = True"
| "is_insert _ = False"

lemma ipq_step_ok:
  assumes inv: "ipq_inv q" and room: "is_insert a \<Longrightarrow> ipq_next_epoch q < u64_max"
  shows "\<exists>r q'. ipq_step a q = Some (r, q') \<and> ipq_inv q' \<and>
     ipq_next_epoch q' = ipq_next_epoch q + (if is_insert a then 1 else 0) \<and>
     (\<forall>ik. ik_epoch ik < ipq_next_epoch q \<longrightarrow> ipq_map q ik = None \<longrightarrow> ipq_map q' ik = None)"
proof (cases a)
  case (OpInsert k v)
  then obtain ik q' where "ipq_insert k v q = Some (ik, q')" "ipq_inv q'"
    "ik_epoch ik = ipq_next_epoch q" "ipq_next_epoch q' = Suc (ipq_next_epoch q)"
    "ipq_map q' = (ipq_map q)(ik \<mapsto> (k, v))"
    using ipq_insert_correct [OF inv, of k v] room by auto
  with OpInsert show ?thesis by auto
next
  case OpPull
  show ?thesis
  proof (cases "ipq_map q = Map.empty")
    case True
    with OpPull inv ipq_pull_empty [OF inv] show ?thesis
      by (simp add: ipq_map_empty_iff)
  next
    case False
    with OpPull ipq_pull_correct [OF inv] show ?thesis by fastforce
  qed
next
  case (OpExtract ik)
  with ipq_extract_correct [OF inv, of ik] show ?thesis by fastforce
qed

lemma ipq_run_ok:
  "ipq_inv q \<Longrightarrow> ipq_next_epoch q + length (filter is_insert as) \<le> u64_max \<Longrightarrow>
     \<exists>rs q'. ipq_run as q = Some (rs, q') \<and> ipq_inv q' \<and> ipq_next_epoch q \<le> ipq_next_epoch q' \<and>
       (\<forall>ik. ik_epoch ik < ipq_next_epoch q \<longrightarrow> ipq_map q ik = None \<longrightarrow> ipq_map q' ik = None)"
proof (induction as arbitrary: q)
  case (Cons a as)
  have "is_insert a \<Longrightarrow> ipq_next_epoch q < u64_max"
    using Cons.prems(2) by auto
  from ipq_step_ok [OF Cons.prems(1) this] obtain r q1 where
    s: "ipq_step a q = Some (r, q1)" "ipq_inv q1"
      "ipq_next_epoch q1 = ipq_next_epoch q + (if is_insert a then 1 else 0)"
      "\<forall>ik. ik_epoch ik < ipq_next_epoch q \<longrightarrow> ipq_map q ik = None \<longrightarrow> ipq_map q1 ik = None"
    by blast
  have "ipq_next_epoch q1 + length (filter is_insert as) \<le> u64_max"
    using s(3) Cons.prems(2) by (auto split: if_splits)
  from Cons.IH [OF s(2) this] s show ?case
    by fastforce
qed auto

subsection \<open>Properties\<close>

text \<open>C14: Whatever operations are applied to a new queue, with at most \<open>u64_max\<close> insertions
  among them, none panics (no index out of range, no \<open>unwrap\<close> of the wrong node kind, no
  epoch overflow) and the queue stays well formed: heap order, both directions of the
  cross-indexing, the free list, and distinct epochs.\<close>

theorem ipq_never_panics:
  assumes "length (filter is_insert as) \<le> u64_max"
  shows "\<exists>rs q'. ipq_run as ipq_new = Some (rs, q') \<and> ipq_inv q'"
  using ipq_run_ok [of ipq_new as] assms by auto

theorem ipq_never_panics_witness:
  "\<exists>rs q'. ipq_run [OpInsert (2 :: nat) ''x'', OpInsert 1 ''y'', OpExtract (InsertKey 0 0), OpPull] ipq_new
     = Some (rs, q') \<and> ipq_inv q'"
  by (rule ipq_never_panics) (simp add: u64_max_def)

text \<open>An insertion returns a key that names no entry yet and maps it to the new pair,
  changing no other entry; the epochs of returned keys grow by one at each insertion.\<close>

lemma ipq_insert_refines:
  assumes "ipq_inv q" "ipq_next_epoch q < u64_max"
  shows "\<exists>ik q'. ipq_insert k v q = Some (ik, q') \<and> ipq_inv q' \<and>
     ipq_map q ik = None \<and> ipq_map q' = (ipq_map q)(ik \<mapsto> (k, v)) \<and>
     ik_epoch ik = ipq_next_epoch q \<and> ipq_next_epoch q' = ipq_next_epoch q + 1"
  using ipq_insert_correct [OF assms, of k v] ipq_map_epoch [OF assms(1)] by auto

lemma ipq_singleton: "\<exists>ik q. ipq_inv q \<and> ipq_map q = [ik \<mapsto> (k :: 'k::linorder, v)]"
proof -
  have "ipq_next_epoch (ipq_new :: ('k, 'a) ipq) < u64_max"
    by (simp add: u64_max_def)
  from ipq_insert_correct [OF ipq_inv_new this, of k v] show ?thesis by auto
qed

text \<open>A pull on a queue with entries returns and removes exactly one entry, the one with
  the smallest key and, among equal keys, the smallest epoch, i.e. the one inserted first;
  on an empty queue it returns nothing.\<close>

lemma ipq_pull_refines:
  assumes "ipq_inv q"
  shows "if ipq_map q = Map.empty then ipq_pull q = Some (None, q)
    else (\<exists>ik k v q'. ipq_pull q = Some (Some (k, v), q') \<and> ipq_inv q' \<and>
      ipq_map q ik = Some (k, v) \<and> ipq_map q' = (ipq_map q)(ik := None) \<and>
      (\<forall>ik' k' v'. ipq_map q ik' = Some (k', v') \<longrightarrow> k < k' \<or> k = k' \<and> ik_epoch ik \<le> ik_epoch ik'))"
proof (cases "ipq_map q = Map.empty")
  case True
  with ipq_pull_empty(1) [OF assms] show ?thesis
    by (simp add: ipq_map_empty_iff [OF assms])
next
  case False
  with ipq_pull_correct [OF assms False, unfolded prod_le_iff] show ?thesis
    by (simp only: if_False) blast
qed

text \<open>An extraction returns the entry of the given insertion key if it is still in the
  queue, and nothing otherwise; it removes that entry and no other.\<close>

lemma ipq_extract_refines:
  assumes "ipq_inv q"
  shows "\<exists>q'. ipq_extract ik q = Some (ipq_map q ik, q') \<and> ipq_inv q' \<and>
     ipq_map q' = (ipq_map q)(ik := None)"
  using ipq_extract_correct [OF assms, of ik] by blast

text \<open>C15: An insertion key is never used twice: once its entry has left the queue, no further
  sequence of operations brings it back, so extracting with a stale key returns nothing,
  also when the slab node has been reused.\<close>

theorem ipq_stale_key_rejected:
  assumes "ipq_inv q" "ipq_map q ik = None" "ik_epoch ik < ipq_next_epoch q"
    and "ipq_next_epoch q + length (filter is_insert as) \<le> u64_max"
  shows "\<exists>rs q'. ipq_run as q = Some (rs, q') \<and> ipq_extract ik q' = Some (None, q')"
  using ipq_run_ok [OF assms(1,4)] assms(2,3) ipq_extract_miss by blast

theorem ipq_stale_key_rejected_witness:
  "\<exists>(q :: (nat, string) ipq) rs q'. ipq_run [OpInsert 7 ''b''] q = Some (rs, q') \<and>
     ipq_extract (InsertKey 0 0) q' = Some (None, q')"
proof -
  let ?q = "\<lparr>ipq_heap = [], ipq_slab = [FreeNode None], ipq_first_free = Some 0, ipq_next_epoch = 1\<rparr>
    :: (nat, string) ipq"
  have "chain [FreeNode None] (Some 0) [0 :: nat]" by simp
  then have "free_ok [FreeNode None] (Some 0)"
    unfolding free_ok_def by (intro exI [of _ "[0]"]) auto
  then have "ipq_inv ?q"
    by (auto simp: ipq_inv_def u64_max_def linked_def intro: gr0I)
  from ipq_stale_key_rejected [OF this, of "InsertKey 0 0" "[OpInsert 7 ''b'']"] show ?thesis
    by (simp add: ipq_map_def u64_max_def del: ipq_run.simps) blast
qed

end
