(* ===== verification/Key_Registry.thy ===== *)
theory Key_Registry
  imports Indexed_Priority_Queue
begin

text \<open>
  Model of \<^verbatim>\<open>src/nexosim/src/server/key_registry.rs\<close>: the server's collection of event
  keys with expiration deadlines, a client of the indexed priority queue. The time type
  is any linear order; \<open>t_max\<close> stands for \<open>MonotonicTime::MAX\<close> of the \<open>tai-time\<close> crate.
\<close>

record ('t, 'e) key_registry =
  kr_keys :: "('t, 'e) ipq"

definition kr_default :: "('t, 'e) key_registry" where
  "kr_default = \<lparr>kr_keys = ipq_new\<rparr>"

definition insert_key ::
    "'e \<Rightarrow> 't::linorder \<Rightarrow> ('t, 'e) key_registry \<Rightarrow> (insert_key \<times> ('t, 'e) key_registry) exec" where
  "insert_key event_key expiration r = do {
     (kid, keys) \<leftarrow> ipq_insert expiration event_key (kr_keys r);
     Some (kid, r\<lparr>kr_keys := keys\<rparr>)
   }"

definition insert_eternal_key ::
    "'t::linorder \<Rightarrow> 'e \<Rightarrow> ('t, 'e) key_registry \<Rightarrow> (insert_key \<times> ('t, 'e) key_registry) exec" where
  "insert_eternal_key t_max event_key r = do {
     (kid, keys) \<leftarrow> ipq_insert t_max event_key (kr_keys r);
     Some (kid, r\<lparr>kr_keys := keys\<rparr>)
   }"

definition extract_key ::
    "insert_key \<Rightarrow> ('t::linorder, 'e) key_registry \<Rightarrow> ('e option \<times> ('t, 'e) key_registry) exec" where
  "extract_key key_id r = do {
     (res, keys) \<leftarrow> ipq_extract key_id (kr_keys r);
     Some (map_option snd res, r\<lparr>kr_keys := keys\<rparr>)
   }"

definition remove_expired_keys ::
    "'t::linorder \<Rightarrow> ('t, 'e) key_registry \<Rightarrow> ('t, 'e) key_registry exec" where
  "remove_expired_keys now r = do {
     keys \<leftarrow> pull_below ipq_peek_key ipq_pull now (kr_keys r);
     Some (r\<lparr>kr_keys := keys\<rparr>)
   }"

definition kr_inv :: "('t::linorder, 'e) key_registry \<Rightarrow> bool" where
  "kr_inv r \<longleftrightarrow> ipq_inv (kr_keys r)"

definition kr_room :: "('t, 'e) key_registry \<Rightarrow> nat" where
  "kr_room r = u64_max - ipq_next_epoch (kr_keys r)"

text \<open>The registered keys: identifier to deadline and event key.\<close>

definition kr_map :: "('t, 'e) key_registry \<Rightarrow> insert_key \<rightharpoonup> 't \<times> 'e" where
  "kr_map r = ipq_map (kr_keys r)"

lemma insert_key_ok:
  assumes "kr_inv r" "0 < kr_room r"
  shows "\<exists>kid r'. insert_key e t r = Some (kid, r') \<and> kr_inv r' \<and> kr_map r kid = None \<and>
    kr_map r' = (kr_map r)(kid \<mapsto> (t, e)) \<and> kr_room r = Suc (kr_room r')"
  using ipq.insert_ok [of "kr_keys r" t e] assms
  by (auto simp: insert_key_def kr_inv_def kr_map_def kr_room_def)

lemma insert_eternal_key_eq: "insert_eternal_key t_max e r = insert_key e t_max r"
  by (simp add: insert_eternal_key_def insert_key_def)

lemma extract_key_ok:
  assumes "kr_inv r"
  shows "\<exists>r'. extract_key kid r = Some (map_option snd (kr_map r kid), r') \<and> kr_inv r' \<and>
    kr_map r' = (kr_map r)(kid := None)"
  using ipq.extract_ok [of "kr_keys r" kid] assms
  by (auto simp: extract_key_def kr_inv_def kr_map_def)

lemma remove_expired_keys_ok:
  assumes "kr_inv r"
  shows "\<exists>r'. remove_expired_keys now r = Some r' \<and> kr_inv r' \<and> kr_room r' = kr_room r \<and>
    kr_map r' = (\<lambda>kid. case kr_map r kid of None \<Rightarrow> None
      | Some (t, e) \<Rightarrow> if t < now then None else Some (t, e))"
  using ipq.pull_below_ok [of "kr_keys r" now] assms
  by (auto simp: remove_expired_keys_def kr_inv_def kr_map_def kr_room_def)

text \<open>The expiry loop always ends, never panics, and removes exactly the keys whose
  deadline strictly predates the given time.\<close>

lemma remove_expired_keys_exact:
  assumes "kr_inv r"
  shows "\<exists>r'. remove_expired_keys now r = Some r' \<and> kr_inv r' \<and>
    kr_map r' = (\<lambda>kid. case kr_map r kid of None \<Rightarrow> None
      | Some (t, e) \<Rightarrow> if t < now then None else Some (t, e))"
  using remove_expired_keys_ok [OF assms, of now] by blast

text \<open>A registered key stays extractable as long as the registry is purged at times not
  after its deadline, and only so long; an eternal key survives every purge.\<close>

lemma registered_key_extractable:
  assumes "kr_inv r" "0 < kr_room r" "\<And>t. t \<le> t_max"
  shows "(\<exists>kid r1 r2 r3. insert_key e t r = Some (kid, r1) \<and> remove_expired_keys now r1 = Some r2 \<and>
      extract_key kid r2 = Some (if now \<le> t then Some e else None, r3)) \<and>
    (\<exists>kid r1 r2 r3. insert_eternal_key t_max e r = Some (kid, r1) \<and>
      remove_expired_keys now r1 = Some r2 \<and> extract_key kid r2 = Some (Some e, r3))"
proof -
  have gen: "\<exists>kid r1 r2 r3. insert_key e t r = Some (kid, r1) \<and> remove_expired_keys now r1 = Some r2 \<and>
      extract_key kid r2 = Some (if now \<le> t then Some e else None, r3)" for t
  proof -
    obtain kid r1 where r1: "insert_key e t r = Some (kid, r1)" "kr_inv r1" "kr_map r1 kid = Some (t, e)"
      using insert_key_ok [OF assms(1,2), of e t] by auto
    obtain r2 where r2: "remove_expired_keys now r1 = Some r2" "kr_inv r2"
      "kr_map r2 kid = (if now \<le> t then Some (t, e) else None)"
      using remove_expired_keys_ok [OF r1(2), of now] r1(3) by (auto simp: not_le [symmetric])
    show ?thesis
      using r1(1) r2 extract_key_ok [OF r2(2), of kid] by auto
  qed
  show ?thesis
    using gen [of t] gen [of t_max] assms(3) [of now] by (simp add: insert_eternal_key_eq)
qed

end
