(* ===== verification/Sim_Path.thy ===== *)
theory Sim_Path
  imports Prelude
begin

text \<open>
  Model of \<^verbatim>\<open>src/nexosim/src/path.rs\<close>: paths of named segments. A range bound is
  included, excluded or absent; the additions that adjust it are checked at 64 bits.
\<close>

type_synonym path = "string list"

definition path_join :: "path \<Rightarrow> path \<Rightarrow> path" where
  "path_join p other = p @ other"

definition path_join_segment :: "path \<Rightarrow> string \<Rightarrow> path" where
  "path_join_segment p segment = p @ [segment]"

definition path_get :: "path \<Rightarrow> nat \<Rightarrow> string option" where
  "path_get p i = (if i < length p then Some (p ! i) else None)"

definition path_index :: "path \<Rightarrow> nat \<Rightarrow> string exec" where
  "path_index p i = vec_get p i"

datatype bound = Included nat | Excluded nat | Unbounded

definition checked_add_one :: "nat \<Rightarrow> nat option" where
  "checked_add_one n = (if n < usize_max then Some (n + 1) else None)"

definition path_subpath :: "bound \<Rightarrow> bound \<Rightarrow> path \<Rightarrow> path option" where
  "path_subpath sb eb p = do {
     start \<leftarrow> (case sb of Included s \<Rightarrow> Some s | Excluded s \<Rightarrow> checked_add_one s | Unbounded \<Rightarrow> Some 0);
     stop \<leftarrow> (case eb of Included e \<Rightarrow> checked_add_one e | Excluded e \<Rightarrow> Some e | Unbounded \<Rightarrow> Some (length p));
     if stop < start \<or> length p < stop then None
     else Some (take (stop - start) (drop start p))
   }"

fun path_display :: "path \<Rightarrow> string" where
  "path_display [] = []"
| "path_display [s] = s"
| "path_display (s # ss) = s @ CHR 0x2F # path_display ss"

definition path_from_str :: "string \<Rightarrow> path" where
  "path_from_str s = [s]"

definition path_from_iter :: "string list \<Rightarrow> path" where
  "path_from_iter ss = map (\<lambda>s. s) ss"

text \<open>The positions a range denotes.\<close>

fun lower_in :: "bound \<Rightarrow> nat \<Rightarrow> bool" where
  "lower_in (Included s) i \<longleftrightarrow> s \<le> i"
| "lower_in (Excluded s) i \<longleftrightarrow> s < i"
| "lower_in Unbounded i \<longleftrightarrow> True"

fun upper_in :: "bound \<Rightarrow> nat \<Rightarrow> bool" where
  "upper_in (Included e) i \<longleftrightarrow> i \<le> e"
| "upper_in (Excluded e) i \<longleftrightarrow> i < e"
| "upper_in Unbounded i \<longleftrightarrow> True"

lemma path_subpath_Some:
  assumes "path_subpath sb eb p = Some r"
  obtains a b where "a \<le> b" "b \<le> length p" "r = take (b - a) (drop a p)"
    "\<And>i. i < length p \<Longrightarrow> lower_in sb i \<longleftrightarrow> a \<le> i" "\<And>i. i < length p \<Longrightarrow> upper_in eb i \<longleftrightarrow> i < b"
proof -
  obtain a where a: "(case sb of Included s \<Rightarrow> Some s | Excluded s \<Rightarrow> checked_add_one s | Unbounded \<Rightarrow> Some 0)
      = Some a"
    using assms by (auto simp: path_subpath_def bind_eq_Some_conv)
  obtain b where b: "(case eb of Included e \<Rightarrow> checked_add_one e | Excluded e \<Rightarrow> Some e
      | Unbounded \<Rightarrow> Some (length p)) = Some b"
    using assms by (auto simp: path_subpath_def bind_eq_Some_conv)
  have r: "a \<le> b" "b \<le> length p" "r = take (b - a) (drop a p)"
    using assms unfolding path_subpath_def a b by (auto split: if_splits)
  have "lower_in sb i \<longleftrightarrow> a \<le> i" for i
    using a by (cases sb) (auto simp: checked_add_one_def split: if_splits)
  moreover have "upper_in eb i \<longleftrightarrow> i < b" if "i < length p" for i
    using b that by (cases eb) (auto simp: checked_add_one_def split: if_splits)
  ultimately show ?thesis
    using that r by blast
qed

text \<open>Splitting a displayed path at the separators.\<close>

fun split_slash :: "string \<Rightarrow> path" where
  "split_slash [] = [[]]"
| "split_slash (c # cs) =
     (if c = CHR 0x2F then [] # split_slash cs
      else case split_slash cs of [] \<Rightarrow> [[c]] | s # ss \<Rightarrow> (c # s) # ss)"

lemma split_slash_nonempty [simp]: "split_slash s \<noteq> []"
  by (cases s) (auto split: list.splits)

lemma split_slash_segment: "CHR 0x2F \<notin> set s \<Longrightarrow> split_slash s = [s]"
  by (induction s) auto

lemma split_slash_append:
  "CHR 0x2F \<notin> set s \<Longrightarrow> split_slash (s @ CHR 0x2F # t) = s # split_slash t"
  by (induction s) auto

lemma split_display:
  "p \<noteq> [] \<Longrightarrow> \<forall>s \<in> set p. CHR 0x2F \<notin> set s \<Longrightarrow> split_slash (path_display p) = p"
  by (induction p rule: path_display.induct) (auto simp: split_slash_segment split_slash_append)

text \<open>Displaying a non-empty path whose segments contain no separator loses nothing: the
  segments are recovered by splitting at the separators, so such paths are displayed
  alike only when they are equal.\<close>

lemma path_display_roundtrip:
  assumes "p \<noteq> []" "\<forall>s \<in> set p. CHR 0x2F \<notin> set s"
    and "q \<noteq> []" "\<forall>s \<in> set q. CHR 0x2F \<notin> set s"
  shows "split_slash (path_display p) = p \<and> (path_display p = path_display q \<longleftrightarrow> p = q)"
  using split_display [OF assms(1,2)] split_display [OF assms(3,4)] by metis

text \<open>A subpath, when it exists, is the list of exactly those segments whose position is in
  the range, in order, whatever the kinds of the two bounds.\<close>

lemma path_subpath_range:
  assumes "path_subpath sb eb p = Some r"
  shows "r = map (nth p) (filter (\<lambda>i. lower_in sb i \<and> upper_in eb i) [0..<length p])"
proof -
  obtain a b where ab: "a \<le> b" "b \<le> length p" "r = take (b - a) (drop a p)"
    "\<And>i. i < length p \<Longrightarrow> lower_in sb i \<longleftrightarrow> a \<le> i" "\<And>i. i < length p \<Longrightarrow> upper_in eb i \<longleftrightarrow> i < b"
    using path_subpath_Some [OF assms] by blast
  have "[0..<length p] = [0..<a] @ [a..<b] @ [b..<length p]"
    using upt_add_eq_append [of 0 a "b - a"] upt_add_eq_append [of 0 b "length p - b"] ab(1,2) by simp
  then have "filter (\<lambda>i. a \<le> i \<and> i < b) [0..<length p] = [a..<b]"
    by (simp add: filter_empty_conv filter_id_conv)
  moreover have "filter (\<lambda>i. lower_in sb i \<and> upper_in eb i) [0..<length p] =
      filter (\<lambda>i. a \<le> i \<and> i < b) [0..<length p]"
    using ab(4,5) by (intro filter_cong) auto
  ultimately have "map (nth p) (filter (\<lambda>i. lower_in sb i \<and> upper_in eb i) [0..<length p]) =
      map (nth p) [a..<b]" by (simp only:)
  also have "\<dots> = r"
    using ab(1-3) by (intro nth_equalityI) (auto simp: add.commute)
  finally show ?thesis by simp
qed

end
