(* ===== verification/Sim_Time.thy ===== *)
theory Sim_Time
  imports Prelude
begin

text \<open>
  Model of \<^verbatim>\<open>src/nexosim/src/time.rs\<close> and \<^verbatim>\<open>src/nexosim/src/time/\<close>: deadlines, the periodic
  ticker, the clocks and the tearable representation of a timestamp.

  \<open>MonotonicTime\<close> comes from the \<open>tai-time\<close> crate. It is a linearly ordered type \<open>'t\<close> with
  the operations of the record \<open>tai\<close>; the predicate \<open>tai_laws\<close> states their documented
  behaviour: timestamps are ordered by their nanoseconds since the epoch, the addition
  of a duration is exact and panics only beyond the latest timestamp, \<open>duration_since\<close>
  is the exact difference and panics when its argument lies in the future, and \<open>new\<close>
  accepts exactly the nanosecond fields below \<open>10 ^ 9\<close> (\<open>tai_new_laws\<close>); no timestamp is
  later than \<open>MAX\<close> (\<open>tai_bounded\<close>). A \<open>Duration\<close> is its number of nanoseconds. \<open>ns_tai\<close> is an
  instance on integers, \<open>word_tai\<close> a bounded one on 64-bit words.
\<close>

record 't tai =
  tai_secs :: "'t \<Rightarrow> int"
  tai_nanos :: "'t \<Rightarrow> nat"
  tai_new :: "int \<Rightarrow> nat \<Rightarrow> 't option"
  tai_add :: "'t \<Rightarrow> duration \<Rightarrow> 't exec"
  tai_since :: "'t \<Rightarrow> 't \<Rightarrow> duration exec"
  tai_max :: 't

abbreviation nanos_per_sec :: nat where
  "nanos_per_sec \<equiv> 1000000000"

definition tai_ns :: "'t tai \<Rightarrow> 't \<Rightarrow> int" where
  "tai_ns T t = tai_secs T t * int nanos_per_sec + int (tai_nanos T t)"

definition tai_limit :: "'t tai \<Rightarrow> int" where
  "tai_limit T = tai_ns T (tai_max T)"

definition tai_laws :: "('t::linorder) tai \<Rightarrow> bool" where
  "tai_laws T \<longleftrightarrow>
     (\<forall>a b. a \<le> b \<longleftrightarrow> tai_ns T a \<le> tai_ns T b) \<and>
     (\<forall>t. tai_nanos T t < nanos_per_sec) \<and>
     (\<forall>t d t'. tai_add T t d = Some t' \<longrightarrow> tai_ns T t' = tai_ns T t + int d) \<and>
     (\<forall>t d. tai_add T t d = None \<longleftrightarrow> tai_limit T < tai_ns T t + int d) \<and>
     (\<forall>a b. tai_since T a b = (if b \<le> a then Some (nat (tai_ns T a - tai_ns T b)) else None))"

definition tai_new_laws :: "'t tai \<Rightarrow> bool" where
  "tai_new_laws T \<longleftrightarrow>
     (\<forall>s n. tai_new T s n = None \<longleftrightarrow> nanos_per_sec \<le> n) \<and>
     (\<forall>s n t. tai_new T s n = Some t \<longrightarrow> tai_secs T t = s \<and> tai_nanos T t = n) \<and>
     (\<forall>t. tai_nanos T t < nanos_per_sec)"

definition tai_bounded :: "('t::linorder) tai \<Rightarrow> bool" where
  "tai_bounded T \<longleftrightarrow> (\<forall>t. t \<le> tai_max T)"

definition ns_tai :: "int \<Rightarrow> int tai" where
  "ns_tai lim = \<lparr>
     tai_secs = (\<lambda>t. t div int nanos_per_sec),
     tai_nanos = (\<lambda>t. nat (t mod int nanos_per_sec)),
     tai_new = (\<lambda>s n. if n < nanos_per_sec then Some (s * int nanos_per_sec + int n) else None),
     tai_add = (\<lambda>t d. if t + int d \<le> lim then Some (t + int d) else None),
     tai_since = (\<lambda>a b. if b \<le> a then Some (nat (a - b)) else None),
     tai_max = lim\<rparr>"

definition word_tai :: "64 word tai" where
  "word_tai = \<lparr>
     tai_secs = (\<lambda>t. uint t div int nanos_per_sec),
     tai_nanos = (\<lambda>t. nat (uint t mod int nanos_per_sec)),
     tai_new = (\<lambda>s n. if n < nanos_per_sec then Some (word_of_int (s * int nanos_per_sec + int n)) else None),
     tai_add = (\<lambda>t d. if uint t + int d < 2 ^ 64 then Some (word_of_int (uint t + int d)) else None),
     tai_since = (\<lambda>a b. if b \<le> a then Some (nat (uint a - uint b)) else None),
     tai_max = - 1\<rparr>"

lemma ns_tai_ns [simp]: "tai_ns (ns_tai lim) t = t"
  by (simp add: tai_ns_def ns_tai_def)

lemma ns_tai_laws [simp]: "tai_laws (ns_tai lim)"
proof -
  have "nat (t mod 1000000000) < 1000000000" for t :: int
    by (simp add: nat_less_iff)
  then show ?thesis
    unfolding tai_laws_def tai_limit_def ns_tai_ns by (auto simp: ns_tai_def)
qed

lemma ns_tai_new_laws [simp]: "tai_new_laws (ns_tai lim)"
proof -
  have "nat (t mod 1000000000) < 1000000000" for t :: int
    by (simp add: nat_less_iff)
  then show ?thesis
    unfolding tai_new_laws_def by (auto simp: ns_tai_def)
qed

lemma word_tai_ns [simp]: "tai_ns word_tai t = uint t"
  by (simp add: tai_ns_def word_tai_def)

lemma word_tai_laws [simp]: "tai_laws word_tai"
proof -
  have nn: "nat (t mod 1000000000) < 1000000000" for t :: int
    by (simp add: nat_less_iff)
  have add: "tai_add word_tai t d = Some t' \<longrightarrow> uint t' = uint t + int d" for t d t'
  proof
    assume "tai_add word_tai t d = Some t'"
    then have "uint t + int d < 2 ^ 64" "t' = word_of_int (uint t + int d)"
      by (auto simp only: word_tai_def tai.simps option.inject option.distinct split: if_splits)
    then show "uint t' = uint t + int d"
      by (simp only: uint_word_of_int) simp
  qed
  have "uint (- 1 :: 64 word) = 2 ^ 64 - 1"
    by (simp add: unsigned_minus_1_eq_mask mask_eq_exp_minus_1)
  then have lim: "tai_limit word_tai = 2 ^ 64 - 1"
    unfolding tai_limit_def word_tai_ns by (simp add: word_tai_def)
  have none: "tai_add word_tai t d = None \<longleftrightarrow> 2 ^ 64 - 1 < uint t + int d" for t d
    by (simp add: word_tai_def)
  have since: "tai_since word_tai a b = (if b \<le> a then Some (nat (uint a - uint b)) else None)" for a b
    by (simp add: word_tai_def)
  have nanos: "tai_nanos word_tai t < nanos_per_sec" for t
    using nn by (simp add: word_tai_def)
  show ?thesis
    unfolding tai_laws_def word_tai_ns lim word_le_def [symmetric]
    using add none since nanos by blast
qed

lemma word_tai_bounded [simp]: "tai_bounded word_tai"
  by (simp add: tai_bounded_def word_tai_def)

lemma tai_le_iff: "tai_laws T \<Longrightarrow> a \<le> b \<longleftrightarrow> tai_ns T a \<le> tai_ns T b"
  by (simp add: tai_laws_def)

lemma tai_less_iff: "tai_laws T \<Longrightarrow> a < b \<longleftrightarrow> tai_ns T a < tai_ns T b"
  by (metis tai_le_iff not_le)

lemma tai_ns_eq: "tai_laws T \<Longrightarrow> tai_ns T a = tai_ns T b \<longleftrightarrow> a = b"
  by (metis tai_le_iff order_antisym order_refl)

lemma tai_add_Some: "tai_laws T \<Longrightarrow> tai_add T t d = Some t' \<Longrightarrow> tai_ns T t' = tai_ns T t + int d"
  by (simp add: tai_laws_def)

lemma tai_add_None: "tai_laws T \<Longrightarrow> tai_add T t d = None \<longleftrightarrow> tai_limit T < tai_ns T t + int d"
  by (simp add: tai_laws_def)

lemma tai_add_ok:
  assumes "tai_laws T" "tai_ns T t + int d \<le> tai_limit T"
  obtains t' where "tai_add T t d = Some t'" "tai_ns T t' = tai_ns T t + int d"
proof (cases "tai_add T t d")
  case None
  with tai_add_None [OF assms(1), of t d] assms(2) show ?thesis by simp
next
  case (Some t')
  with that tai_add_Some [OF assms(1) Some] show ?thesis by blast
qed

lemma tai_since_Some: "tai_laws T \<Longrightarrow> b \<le> a \<Longrightarrow> tai_since T a b = Some (nat (tai_ns T a - tai_ns T b))"
  by (simp add: tai_laws_def)

text \<open>Two additions that give the same instant are the same call.\<close>

lemma tai_add_cong:
  assumes "tai_laws T" "tai_ns T a + int d = tai_ns T b + int e"
  shows "tai_add T a d = tai_add T b e"
proof (cases "tai_add T a d")
  case None
  then show ?thesis
    using assms tai_add_None [OF assms(1)] by metis
next
  case (Some t)
  then have "tai_add T b e \<noteq> None"
    using assms tai_add_None [OF assms(1)] by (metis option.distinct(1))
  then obtain u where u: "tai_add T b e = Some u"
    by blast
  then have "tai_ns T t = tai_ns T u"
    using tai_add_Some [OF assms(1)] Some assms(2) by metis
  then show ?thesis
    using Some u tai_ns_eq [OF assms(1)] by simp
qed

subsection \<open>Deadlines\<close>

datatype 't deadline = DlDuration duration | DlTime 't

fun into_time :: "'t tai \<Rightarrow> 't deadline \<Rightarrow> 't \<Rightarrow> 't exec" where
  "into_time T (DlDuration d) now = tai_add T now d"
| "into_time T (DlTime t) now = Some t"

subsection \<open>The periodic ticker\<close>

record 't periodic_ticker =
  pt_period :: duration
  pt_reference :: "'t option"

definition ticker_new :: "duration \<Rightarrow> 't periodic_ticker exec" where
  "ticker_new period = (if period = 0 then None else Some \<lparr>pt_period = period, pt_reference = None\<rparr>)"

definition ticker_anchored_at :: "duration \<Rightarrow> 't \<Rightarrow> 't periodic_ticker exec" where
  "ticker_anchored_at period reference =
     (if period = 0 then None else Some \<lparr>pt_period = period, pt_reference = Some reference\<rparr>)"

definition duration_from_nanos_u128 :: "nat \<Rightarrow> duration exec" where
  "duration_from_nanos_u128 nanos =
     (let secs = nanos div nanos_per_sec; subsec_nanos = nanos mod nanos_per_sec in
      if secs \<le> u64_max then Some (secs * nanos_per_sec + subsec_nanos) else None)"

definition next_tick ::
    "('t::linorder) tai \<Rightarrow> 't \<Rightarrow> 't periodic_ticker \<Rightarrow> ('t \<times> 't periodic_ticker) exec" where
  "next_tick T time tk =
     (let reference = (case pt_reference tk of None \<Rightarrow> time | Some r \<Rightarrow> r) in do {
        tick \<leftarrow>
          (if reference \<le> time then do {
             elapsed \<leftarrow> tai_since T time reference;
             if elapsed < pt_period tk then tai_add T reference (pt_period tk)
             else do {
               d \<leftarrow> duration_from_nanos_u128 (pt_period tk - elapsed mod pt_period tk);
               tai_add T time d
             }
           }
           else do {
             gap \<leftarrow> tai_since T reference time;
             if gap mod pt_period tk = 0 then tai_add T time (pt_period tk)
             else do {
               d \<leftarrow> duration_from_nanos_u128 (gap mod pt_period tk);
               tai_add T time d
             }
           });
        Some (tick, tk\<lparr>pt_reference := Some tick\<rparr>)
      })"

text \<open>The reference of a ticker at a call, and what a \<open>Duration\<close> can hold.\<close>

definition pt_ref :: "'t periodic_ticker \<Rightarrow> 't \<Rightarrow> 't" where
  "pt_ref tk time = (case pt_reference tk of None \<Rightarrow> time | Some r \<Rightarrow> r)"

definition duration_max :: nat where
  "duration_max = u64_max * nanos_per_sec + (nanos_per_sec - 1)"

definition ticker_ok :: "'t periodic_ticker \<Rightarrow> bool" where
  "ticker_ok tk \<longleftrightarrow> 0 < pt_period tk \<and> pt_period tk \<le> duration_max"

lemma duration_from_nanos_u128_ok: "n \<le> duration_max \<Longrightarrow> duration_from_nanos_u128 n = Some n"
proof -
  assume "n \<le> duration_max"
  then have "n div nanos_per_sec \<le> duration_max div nanos_per_sec"
    by (rule div_le_mono)
  then show ?thesis
    by (simp add: duration_from_nanos_u128_def duration_max_def Let_def)
qed

text \<open>The distance from \<open>time\<close> to the next instant of the grid through the reference.\<close>

definition to_next :: "int \<Rightarrow> int \<Rightarrow> nat \<Rightarrow> nat" where
  "to_next time ref period = period - nat ((time - ref) mod int period)"

lemma to_next_bounds:
  assumes "0 < period"
  shows "0 < to_next time ref period" "to_next time ref period \<le> period"
    and "(time + int (to_next time ref period) - ref) mod int period = 0"
proof -
  let ?m = "(time - ref) mod int period"
  have m: "0 \<le> ?m" "?m < int period"
    using assms by simp_all
  then show "0 < to_next time ref period" "to_next time ref period \<le> period"
    by (auto simp: to_next_def nat_less_iff)
  have "time + int (to_next time ref period) - ref = (time - ref - ?m) + int period"
    using m by (simp add: to_next_def of_nat_diff nat_le_iff)
  also have "(\<dots>) mod int period = 0"
    by (simp add: minus_mod_eq_mult_div)
  finally show "(time + int (to_next time ref period) - ref) mod int period = 0" .
qed

lemma next_tick_eq:
  assumes T: "tai_laws T" and tk: "ticker_ok tk"
  shows "next_tick T time tk =
    map_option (\<lambda>tick. (tick, tk\<lparr>pt_reference := Some tick\<rparr>))
      (tai_add T time (to_next (tai_ns T time) (tai_ns T (pt_ref tk time)) (pt_period tk)))"
proof -
  let ?p = "pt_period tk" and ?r = "pt_ref tk time"
  let ?t = "tai_ns T time" and ?n = "tai_ns T (pt_ref tk time)"
  have p: "0 < ?p" "?p \<le> duration_max"
    using tk by (auto simp: ticker_ok_def)
  have "(if ?r \<le> time then do {
             elapsed \<leftarrow> tai_since T time ?r;
             if elapsed < ?p then tai_add T ?r ?p
             else do { d \<leftarrow> duration_from_nanos_u128 (?p - elapsed mod ?p); tai_add T time d }
           }
           else do {
             gap \<leftarrow> tai_since T ?r time;
             if gap mod ?p = 0 then tai_add T time ?p
             else do { d \<leftarrow> duration_from_nanos_u128 (gap mod ?p); tai_add T time d }
           }) = tai_add T time (to_next ?t ?n ?p)"
  proof (cases "?r \<le> time")
    case True
    then have le: "?n \<le> ?t"
      using tai_le_iff [OF T] by blast
    define el where "el = nat (?t - ?n)"
    have el: "?t = ?n + int el"
      using le by (simp add: el_def)
    have nx: "to_next ?t ?n ?p = ?p - el mod ?p"
      by (simp add: to_next_def el zmod_int [symmetric])
    show ?thesis
    proof (cases "el < ?p")
      case lt: True
      then have "tai_add T ?r ?p = tai_add T time (?p - el mod ?p)"
        by (intro tai_add_cong [OF T]) (simp add: el)
      then show ?thesis
        using True lt tai_since_Some [OF T True] by (simp add: el_def [symmetric] nx)
    next
      case False
      have "duration_from_nanos_u128 (?p - el mod ?p) = Some (?p - el mod ?p)"
        using p by (intro duration_from_nanos_u128_ok) simp
      then show ?thesis
        using True False tai_since_Some [OF T True] by (simp add: el_def [symmetric] nx)
    qed
  next
    case False
    then have "?t \<le> ?n" and le: "time \<le> ?r"
      using tai_le_iff [OF T] by auto
    define g where "g = nat (?n - ?t)"
    have g: "?n = ?t + int g"
      using \<open>?t \<le> ?n\<close> by (simp add: g_def)
    have "(?t - ?n) mod int ?p = (- int g) mod int ?p"
      by (simp add: g)
    also have "\<dots> = (if g mod ?p = 0 then 0 else int (?p - g mod ?p))"
      using p(1) by (simp add: zmod_zminus1_eq_if zmod_int [symmetric] of_nat_diff)
    finally have nx: "to_next ?t ?n ?p = (if g mod ?p = 0 then ?p else g mod ?p)"
      using p(1) mod_less_divisor [OF p(1), of g] by (simp add: to_next_def nat_diff_distrib)
    have "duration_from_nanos_u128 (g mod ?p) = Some (g mod ?p)"
      using p(2) mod_less_divisor [OF p(1), of g] by (intro duration_from_nanos_u128_ok) linarith
    then show ?thesis
      using False tai_since_Some [OF T le] by (simp add: g_def [symmetric] nx)
  qed
  then show ?thesis
    unfolding next_tick_def Let_def pt_ref_def [symmetric]
    by (simp only:) (simp add: map_option_case split: option.split)
qed

lemma next_tick_Some:
  assumes "tai_laws T" "ticker_ok tk" "next_tick T time tk = Some (tick, tk')"
  shows "tk' = tk\<lparr>pt_reference := Some tick\<rparr>"
    and "tai_ns T tick = tai_ns T time + int (to_next (tai_ns T time) (tai_ns T (pt_ref tk time)) (pt_period tk))"
  using assms(3) tai_add_Some [OF assms(1)] unfolding next_tick_eq [OF assms(1,2)] by auto

text \<open>Successive calls.\<close>

fun ticks :: "('t::linorder) tai \<Rightarrow> 't list \<Rightarrow> 't periodic_ticker \<Rightarrow> 't list exec" where
  "ticks T [] tk = Some []"
| "ticks T (t # ts) tk = do {
     (tick, tk') \<leftarrow> next_tick T t tk;
     rest \<leftarrow> ticks T ts tk';
     Some (tick # rest)
   }"

lemma ticks_grid:
  "tai_laws T \<Longrightarrow> ticker_ok tk \<Longrightarrow> pt_reference tk = Some r \<Longrightarrow> ticks T ts tk = Some us \<Longrightarrow>
     list_all2 (\<lambda>t u. tai_ns T t < tai_ns T u \<and> tai_ns T u \<le> tai_ns T t + int (pt_period tk) \<and>
       (tai_ns T u - tai_ns T r) mod int (pt_period tk) = 0) ts us"
proof (induction ts arbitrary: tk r us)
  case (Cons t ts)
  then obtain u tk' us' where
    n: "next_tick T t tk = Some (u, tk')" "ticks T ts tk' = Some us'" "us = u # us'"
    by (auto simp: bind_eq_Some_conv)
  note s = next_tick_Some [OF Cons.prems(1,2) n(1)]
  have p: "0 < pt_period tk"
    using Cons.prems(2) by (simp add: ticker_ok_def)
  have u: "tai_ns T t < tai_ns T u" "tai_ns T u \<le> tai_ns T t + int (pt_period tk)"
    "(tai_ns T u - tai_ns T r) mod int (pt_period tk) = 0"
    using to_next_bounds [OF p, of "tai_ns T t" "tai_ns T r"] Cons.prems(3) s(2)
    by (auto simp: pt_ref_def)
  have "ticker_ok tk'" "pt_reference tk' = Some u" "pt_period tk' = pt_period tk"
    using Cons.prems(2) by (simp_all add: s(1) ticker_ok_def)
  from Cons.IH [OF Cons.prems(1) this(1,2) n(2)] this(3)
  have "list_all2 (\<lambda>t u'. tai_ns T t < tai_ns T u' \<and> tai_ns T u' \<le> tai_ns T t + int (pt_period tk) \<and>
       (tai_ns T u' - tai_ns T u) mod int (pt_period tk) = 0) ts us'"
    by simp
  then have "list_all2 (\<lambda>t u'. tai_ns T t < tai_ns T u' \<and> tai_ns T u' \<le> tai_ns T t + int (pt_period tk) \<and>
       (tai_ns T u' - tai_ns T r) mod int (pt_period tk) = 0) ts us'"
  proof (rule list_all2_mono)
    fix t u'
    assume "tai_ns T t < tai_ns T u' \<and> tai_ns T u' \<le> tai_ns T t + int (pt_period tk) \<and>
       (tai_ns T u' - tai_ns T u) mod int (pt_period tk) = 0"
    moreover have "tai_ns T u' - tai_ns T r = (tai_ns T u' - tai_ns T u) + (tai_ns T u - tai_ns T r)"
      by simp
    moreover have "int (pt_period tk) dvd (tai_ns T u' - tai_ns T u) + (tai_ns T u - tai_ns T r)"
      using u(3) calculation by (intro dvd_add mod_0_imp_dvd) auto
    ultimately show "tai_ns T t < tai_ns T u' \<and> tai_ns T u' \<le> tai_ns T t + int (pt_period tk) \<and>
       (tai_ns T u' - tai_ns T r) mod int (pt_period tk) = 0"
      by simp
  qed
  with u n(3) show ?case by simp
qed simp

subsection \<open>Clocks\<close>

datatype sync_status = Synchronized | OutOfSync duration

definition no_clock_synchronize :: "'t \<Rightarrow> sync_status" where
  "no_clock_synchronize deadline = Synchronized"

text \<open>The reading \<open>now\<close> of the wall clock is an input; the result names the time slept.\<close>

definition system_clock_synchronize ::
    "('t::linorder) tai \<Rightarrow> 't \<Rightarrow> 't \<Rightarrow> (duration \<times> sync_status) exec" where
  "system_clock_synchronize T now deadline =
     (if now \<le> deadline then do { d \<leftarrow> tai_since T deadline now; Some (d, Synchronized) }
      else do { lag \<leftarrow> tai_since T now deadline; Some (0, OutOfSync lag) })"

text \<open>\<open>from_instant\<close> and \<open>read\<close> stand for \<open>MonotonicClock::init_from_instant\<close> at the current
  instant and \<open>MonotonicClock::now\<close>.\<close>

definition auto_system_clock_synchronize ::
    "('t::linorder) tai \<Rightarrow> ('t \<Rightarrow> 'c) \<Rightarrow> ('c \<Rightarrow> 't) \<Rightarrow> 't \<Rightarrow> 'c option
      \<Rightarrow> ((duration \<times> sync_status) \<times> 'c option) exec" where
  "auto_system_clock_synchronize T from_instant read deadline inner =
     (case inner of
        None \<Rightarrow> Some ((0, Synchronized), Some (from_instant deadline))
      | Some clock \<Rightarrow> map_option (\<lambda>r. (r, inner)) (system_clock_synchronize T (read clock) deadline))"

lemma system_clock_synchronize_eq:
  assumes "tai_laws T"
  shows "system_clock_synchronize T now deadline =
    Some (nat (tai_ns T deadline - tai_ns T now),
      if now \<le> deadline then Synchronized else OutOfSync (nat (tai_ns T now - tai_ns T deadline)))"
  using tai_since_Some [OF assms, of now deadline] tai_since_Some [OF assms, of deadline now]
    tai_le_iff [OF assms, of now deadline]
  by (auto simp: system_clock_synchronize_def)

subsection \<open>Properties\<close>

text \<open>C16: The periodic ticker's next tick is the earliest instant strictly after the given
  time that lies on the grid of period multiples through its reference, for times before
  and after the reference and on both computation paths; the call panics only when that
  instant is beyond the latest timestamp, and the new reference is the tick.\<close>

theorem next_tick_least:
  assumes "tai_laws T" "ticker_ok tk"
  shows "\<exists>n :: int. tai_ns T time < n \<and> (n - tai_ns T (pt_ref tk time)) mod int (pt_period tk) = 0 \<and>
     (\<forall>m > tai_ns T time. (m - tai_ns T (pt_ref tk time)) mod int (pt_period tk) = 0 \<longrightarrow> n \<le> m) \<and>
     (case next_tick T time tk of
        None \<Rightarrow> tai_limit T < n
      | Some (tick, tk') \<Rightarrow> tai_ns T tick = n \<and> tk' = tk\<lparr>pt_reference := Some tick\<rparr>)"
proof (intro exI conjI allI impI)
  let ?t = "tai_ns T time" and ?r = "tai_ns T (pt_ref tk time)" and ?p = "int (pt_period tk)"
  let ?n = "?t + int (to_next ?t ?r (pt_period tk))"
  have p: "0 < pt_period tk"
    using assms(2) by (simp add: ticker_ok_def)
  note b = to_next_bounds [OF p, of ?t ?r]
  show "?t < ?n" "(?n - ?r) mod ?p = 0"
    using b by auto
  show "?n \<le> m" if m: "?t < m" "(m - ?r) mod ?p = 0" for m
  proof (rule ccontr)
    assume "\<not> ?n \<le> m"
    have "?p dvd (?n - ?r) - (m - ?r)"
      using b(3) m(2) by (intro dvd_diff mod_0_imp_dvd)
    moreover have "(?n - ?r) - (m - ?r) = ?n - m"
      by linarith
    ultimately have "?p dvd ?n - m"
      by (simp only:)
    then have "?p \<le> ?n - m"
      using \<open>\<not> ?n \<le> m\<close> by (intro zdvd_imp_le) linarith+
    then show False
      using b(2) m(1) by simp
  qed
  show "case next_tick T time tk of
        None \<Rightarrow> tai_limit T < ?n
      | Some (tick, tk') \<Rightarrow> tai_ns T tick = ?n \<and> tk' = tk\<lparr>pt_reference := Some tick\<rparr>"
  proof (cases "tai_add T time (to_next ?t ?r (pt_period tk))")
    case None
    then have "tai_limit T < ?n"
      using tai_add_None [OF assms(1)] by blast
    then show ?thesis
      unfolding next_tick_eq [OF assms] None by simp
  next
    case (Some tick)
    then show ?thesis
      using tai_add_Some [OF assms(1) Some] by (simp add: next_tick_eq [OF assms])
  qed
qed

theorem next_tick_least_witness:
  "next_tick (ns_tai 1000) 25 \<lparr>pt_period = 10, pt_reference = Some 2\<rparr>
     = Some (32, \<lparr>pt_period = 10, pt_reference = Some 32\<rparr>) \<and>
   (\<exists>n :: int. 25 < n \<and> (n - 2) mod 10 = 0 \<and> (\<forall>m > 25. (m - 2) mod 10 = 0 \<longrightarrow> n \<le> m) \<and> n = 32)"
proof -
  let ?tk = "\<lparr>pt_period = 10, pt_reference = Some 2\<rparr> :: int periodic_ticker"
  have "ticker_ok ?tk"
    by (simp add: ticker_ok_def duration_max_def)
  from next_tick_least [OF ns_tai_laws this, of 1000 25]
  show ?thesis
    by (auto simp: next_tick_def ns_tai_def duration_from_nanos_u128_def pt_ref_def tai_ns_def Let_def
        u64_max_def)
qed

text \<open>However the ticker is called, with times in any order, every tick it returns lies on
  the grid of its first reference, strictly after the given time and at most one period
  later: resetting the reference to the last tick introduces no drift.\<close>

lemma ticker_no_drift:
  assumes "tai_laws T" "ticker_anchored_at period r = Some tk" "period \<le> duration_max"
    and "ticks T ts tk = Some us"
  shows "list_all2 (\<lambda>t u. tai_ns T t < tai_ns T u \<and> tai_ns T u \<le> tai_ns T t + int period \<and>
       (tai_ns T u - tai_ns T r) mod int period = 0) ts us"
proof -
  have "ticker_ok tk" "pt_reference tk = Some r" "pt_period tk = period"
    using assms(2,3) by (auto simp: ticker_anchored_at_def ticker_ok_def split: if_splits)
  with ticks_grid [OF assms(1) this(1,2) assms(4)] show ?thesis by simp
qed

end
