(* ===== verification/Queue_Items.thy ===== *)
theory Queue_Items
  imports Sim_Path Sim_Time
begin

unbundle bit_operations_syntax

text \<open>
  Model of \<^verbatim>\<open>src/nexosim/src/simulation/queue_items.rs\<close>, of the error types of
  \<^verbatim>\<open>src/nexosim/src/simulation.rs\<close> and of the schedulable identifiers of
  \<^verbatim>\<open>src/nexosim/src/model/context.rs\<close>.

  \<^item> A value of type \<open>Box<dyn Any>\<close> is a value of a type \<open>'a\<close> with a partial downcast; the
    future that a source builds is a value of type \<open>'f\<close>.
  \<^item> A source is a trait object, the record of its methods.
  \<^item> An event key is a shared flag (\<open>Arc<AtomicBool>\<close>). The flags of all keys are a list
    of booleans, a key is an index in it, and its address in a saved state is that index.
  \<^item> \<open>bincode\<close> is a pair of functions \<open>enc\<close> and \<open>dec\<close>, the failure of either being \<open>None\<close>;
    what the theorems need of it, \<open>bincode_laws\<close>, is that decoding inverts encoding.
\<close>

type_synonym bytes = "8 word list"

subsection \<open>Errors\<close>

datatype save_error =
    ConfigSerializationError
  | SaveModelSerializationError path string
  | EventSerializationError nat
  | QuerySerializationError nat
  | SchedulerQueueSerializationError
  | SimulationStateSerializationError
  | SaveEventNotFound nat
  | SaveQueryNotFound nat
  | ArgumentTypeMismatch string
  | ArgumentSerializationError string

datatype restore_error =
    ConfigMissing
  | ModelDeserializationError path string
  | RestoreModelSerializationError path string
  | QueueItemDeserializationError
  | SchedulerQueueDeserializationError
  | SimulationStateDeserializationError
  | RestoreEventNotFound nat
  | RestoreQueryNotFound nat
  | ArgumentDeserializationError string

record deadlock_info =
  di_model :: path
  di_mailbox_size :: nat

datatype ('t, 'p) execution_error =
    Halted
  | Terminated
  | Deadlock "deadlock_info list"
  | MessageLoss nat
  | NoRecipient "path option"
  | PanicError path 'p
  | TimeoutError
  | OutOfSyncError duration
  | BadQuery
  | InvalidDeadline 't
  | InvalidEventId nat
  | InvalidQueryId nat
  | InvalidEventType string
  | InvalidQueryType string string
  | SaveErr save_error
  | RestoreErr restore_error

subsection \<open>Event keys\<close>

type_synonym key_flags = "bool list"

definition event_key_new :: "key_flags \<Rightarrow> nat \<times> key_flags" where
  "event_key_new flags = (length flags, flags @ [False])"

definition key_is_cancelled :: "key_flags \<Rightarrow> nat \<Rightarrow> bool" where
  "key_is_cancelled flags k = (k < length flags \<and> flags ! k)"

definition key_cancel :: "nat \<Rightarrow> key_flags \<Rightarrow> key_flags" where
  "key_cancel k flags = flags[k := True]"

text \<open>Dropping a managed key cancels the event.\<close>

definition auto_key_drop :: "nat \<Rightarrow> key_flags \<Rightarrow> key_flags" where
  "auto_key_drop k flags = flags[k := True]"

definition key_eq :: "nat \<Rightarrow> nat \<Rightarrow> bool" where
  "key_eq a b \<longleftrightarrow> a = b"

definition key_serialize :: "key_flags \<Rightarrow> nat \<Rightarrow> bool \<times> nat" where
  "key_serialize flags k = (key_is_cancelled flags k, k)"

type_synonym key_reg = "nat \<rightharpoonup> nat"

fun key_deserialize :: "bool \<times> nat \<Rightarrow> key_reg \<times> key_flags \<Rightarrow> nat \<times> key_reg \<times> key_flags" where
  "key_deserialize (value, addr) (reg, flags) =
     (case reg addr of
        Some k \<Rightarrow> (k, reg, flags)
      | None \<Rightarrow> (length flags, reg(addr \<mapsto> length flags), flags @ [value]))"

subsection \<open>Sources and their registry\<close>

record ('a, 'f, 't, 'p) event_source =
  es_serialize_arg :: "'a \<Rightarrow> ('t, 'p) execution_error + bytes"
  es_deserialize_arg :: "bytes \<Rightarrow> ('t, 'p) execution_error + 'a"
  es_future_borrowed :: "'a \<Rightarrow> nat option \<Rightarrow> ('t, 'p) execution_error + 'f"
  es_future_owned :: "'a \<Rightarrow> nat option \<Rightarrow> ('t, 'p) execution_error + 'f"

record ('a, 'f, 't, 'p) query_source =
  qs_serialize_arg :: "'a \<Rightarrow> ('t, 'p) execution_error + bytes"
  qs_deserialize_arg :: "bytes \<Rightarrow> ('t, 'p) execution_error + 'a"
  qs_future :: "'a \<Rightarrow> nat option \<Rightarrow> ('t, 'p) execution_error + 'f"

record ('a, 'f, 't, 'p) registry =
  event_registry :: "('a, 'f, 't, 'p) event_source list"
  query_registry :: "('a, 'f, 't, 'p) query_source list"

definition max_source_id :: nat where
  "max_source_id = 2 ^ 63 - 1"

definition add_event_source ::
    "('a, 'f, 't, 'p) event_source \<Rightarrow> ('a, 'f, 't, 'p) registry \<Rightarrow> (nat \<times> ('a, 'f, 't, 'p) registry) exec" where
  "add_event_source source r =
     (if length (event_registry r) \<le> max_source_id
      then Some (length (event_registry r), r\<lparr>event_registry := event_registry r @ [source]\<rparr>) else None)"

definition get_event_source :: "nat \<Rightarrow> ('a, 'f, 't, 'p) registry \<Rightarrow> ('a, 'f, 't, 'p) event_source option" where
  "get_event_source i r = (if i < length (event_registry r) then Some (event_registry r ! i) else None)"

definition add_query_source ::
    "('a, 'f, 't, 'p) query_source \<Rightarrow> ('a, 'f, 't, 'p) registry \<Rightarrow> (nat \<times> ('a, 'f, 't, 'p) registry) exec" where
  "add_query_source source r =
     (if length (query_registry r) \<le> max_source_id
      then Some (length (query_registry r), r\<lparr>query_registry := query_registry r @ [source]\<rparr>) else None)"

definition get_query_source :: "nat \<Rightarrow> ('a, 'f, 't, 'p) registry \<Rightarrow> ('a, 'f, 't, 'p) query_source option" where
  "get_query_source i r = (if i < length (query_registry r) then Some (query_registry r ! i) else None)"

text \<open>The argument type \<open>T\<close> of a source: its name, its downcast and upcast from and to
  \<open>dyn Any\<close>, and the \<open>bincode\<close> functions at this type.\<close>

record ('a, 'v) arg_type =
  at_name :: string
  at_downcast :: "'a \<Rightarrow> 'v option"
  at_box :: "'v \<Rightarrow> 'a"
  at_enc :: "'v \<Rightarrow> bytes option"
  at_dec :: "bytes \<Rightarrow> 'v option"

definition arg_type_laws :: "('a, 'v) arg_type \<Rightarrow> bool" where
  "arg_type_laws A \<longleftrightarrow>
     (\<forall>v. at_downcast A (at_box A v) = Some v) \<and>
     (\<forall>a v. at_downcast A a = Some v \<longrightarrow> a = at_box A v) \<and>
     (\<forall>v b. at_enc A v = Some b \<longrightarrow> at_dec A b = Some v)"

definition serialize_arg :: "('a, 'v) arg_type \<Rightarrow> 'a \<Rightarrow> ('t, 'p) execution_error + bytes" where
  "serialize_arg A arg =
     (case at_downcast A arg of
        None \<Rightarrow> Inl (SaveErr (ArgumentTypeMismatch (at_name A)))
      | Some v \<Rightarrow> (case at_enc A v of
          None \<Rightarrow> Inl (SaveErr (ArgumentSerializationError (at_name A)))
        | Some b \<Rightarrow> Inr b))"

definition deserialize_arg :: "('a, 'v) arg_type \<Rightarrow> bytes \<Rightarrow> ('t, 'p) execution_error + 'a" where
  "deserialize_arg A b =
     (case at_dec A b of
        None \<Rightarrow> Inl (RestoreErr (ArgumentDeserializationError (at_name A)))
      | Some v \<Rightarrow> Inr (at_box A v))"

text \<open>The input of a model: its future carries the key, which is checked again on delivery.\<close>

definition input_source ::
    "('a, 'v) arg_type \<Rightarrow> ('v \<Rightarrow> nat option \<Rightarrow> 'f) \<Rightarrow> ('a, 'f, 't, 'p) event_source" where
  "input_source A send = \<lparr>
     es_serialize_arg = serialize_arg A,
     es_deserialize_arg = deserialize_arg A,
     es_future_borrowed = (\<lambda>arg key. case at_downcast A arg of
         None \<Rightarrow> Inl (InvalidEventType (at_name A)) | Some v \<Rightarrow> Inr (send v key)),
     es_future_owned = (\<lambda>arg key. case at_downcast A arg of
         None \<Rightarrow> Inl (InvalidEventType (at_name A)) | Some v \<Rightarrow> Inr (send v key))\<rparr>"

text \<open>An \<open>EventSource\<close> port: the key is not passed on.\<close>

definition event_source_port ::
    "('a, 'v) arg_type \<Rightarrow> ('v \<Rightarrow> 'f) \<Rightarrow> ('a, 'f, 't, 'p) event_source" where
  "event_source_port A event_future = \<lparr>
     es_serialize_arg = serialize_arg A,
     es_deserialize_arg = deserialize_arg A,
     es_future_borrowed = (\<lambda>arg _. case at_downcast A arg of
         None \<Rightarrow> Inl (InvalidEventType (at_name A)) | Some v \<Rightarrow> Inr (event_future v)),
     es_future_owned = (\<lambda>arg _. case at_downcast A arg of
         None \<Rightarrow> Inl (InvalidEventType (at_name A)) | Some v \<Rightarrow> Inr (event_future v))\<rparr>"

definition query_source_port ::
    "('a, 'v) arg_type \<Rightarrow> string \<Rightarrow> (nat \<Rightarrow> bool) \<Rightarrow> ('v \<Rightarrow> nat option \<Rightarrow> 'f) \<Rightarrow> ('a, 'f, 't, 'p) query_source" where
  "query_source_port A reply_name replier_type query_future = \<lparr>
     qs_serialize_arg = serialize_arg A,
     qs_deserialize_arg = deserialize_arg A,
     qs_future = (\<lambda>arg replier.
       if (case replier of None \<Rightarrow> False | Some r \<Rightarrow> \<not> replier_type r)
       then Inl (InvalidQueryType (at_name A) reply_name)
       else (case at_downcast A arg of
         None \<Rightarrow> Inl (InvalidQueryType (at_name A) reply_name)
       | Some v \<Rightarrow> Inr (query_future v replier)))\<rparr>"

subsection \<open>Queue items\<close>

record 'a event =
  ev_id :: nat
  ev_arg :: 'a
  ev_period :: "duration option"
  ev_key :: "nat option"

record 'a query =
  qu_id :: nat
  qu_arg :: 'a
  qu_replier :: "nat option"

datatype 'a queue_item = QEvent "'a event" | QQuery "'a query"

definition event_new :: "nat \<Rightarrow> 'a \<Rightarrow> 'a event" where
  "event_new event_id arg = \<lparr>ev_id = event_id, ev_arg = arg, ev_period = None, ev_key = None\<rparr>"

definition with_period :: "duration \<Rightarrow> 'a event \<Rightarrow> 'a event" where
  "with_period period ev = ev\<lparr>ev_period := Some period\<rparr>"

definition with_key :: "nat \<Rightarrow> 'a event \<Rightarrow> 'a event" where
  "with_key key ev = ev\<lparr>ev_key := Some key\<rparr>"

definition event_is_cancelled :: "key_flags \<Rightarrow> 'a event \<Rightarrow> bool" where
  "event_is_cancelled flags ev =
     (case map_option (key_is_cancelled flags) (ev_key ev) of None \<Rightarrow> False | Some b \<Rightarrow> b)"

text \<open>\<open>query_replier()\<close> makes a fresh reply channel, named by the counter \<open>n\<close>.\<close>

definition query_new :: "nat \<Rightarrow> 'a \<Rightarrow> nat \<Rightarrow> 'a query \<times> nat" where
  "query_new query_id arg n = (\<lparr>qu_id = query_id, qu_arg = arg, qu_replier = Some n\<rparr>, n)"

record ser_event =
  se_event_id :: nat
  se_arg :: bytes
  se_period :: "duration option"
  se_key :: "(bool \<times> nat) option"

record ser_query =
  sq_query_id :: nat
  sq_arg :: bytes

datatype ser_item = SEvent ser_event | SQuery ser_query

record bincode =
  enc_item :: "ser_item \<Rightarrow> bytes option"
  dec_item :: "bytes \<Rightarrow> ser_item option"

definition bincode_laws :: "bincode \<Rightarrow> bool" where
  "bincode_laws B \<longleftrightarrow> (\<forall>x b. enc_item B x = Some b \<longrightarrow> dec_item B b = Some x)"

definition event_to_serializable ::
    "key_flags \<Rightarrow> 'a event \<Rightarrow> ('a, 'f, 't, 'p) registry \<Rightarrow> ('t, 'p) execution_error + ser_event" where
  "event_to_serializable flags ev r =
     (case get_event_source (ev_id ev) r of
        None \<Rightarrow> Inl (SaveErr (SaveEventNotFound (ev_id ev)))
      | Some source \<Rightarrow> (case es_serialize_arg source (ev_arg ev) of
          Inl e \<Rightarrow> Inl e
        | Inr arg \<Rightarrow> Inr \<lparr>se_event_id = ev_id ev, se_arg = arg, se_period = ev_period ev,
            se_key = map_option (key_serialize flags) (ev_key ev)\<rparr>))"

definition query_to_serializable ::
    "'a query \<Rightarrow> ('a, 'f, 't, 'p) registry \<Rightarrow> ('t, 'p) execution_error + ser_query" where
  "query_to_serializable q r =
     (case get_query_source (qu_id q) r of
        None \<Rightarrow> Inl (SaveErr (SaveQueryNotFound (qu_id q)))
      | Some source \<Rightarrow> (case qs_serialize_arg source (qu_arg q) of
          Inl e \<Rightarrow> Inl e
        | Inr arg \<Rightarrow> Inr \<lparr>sq_query_id = qu_id q, sq_arg = arg\<rparr>))"

definition item_serialize ::
    "bincode \<Rightarrow> key_flags \<Rightarrow> ('a, 'f, 't, 'p) registry \<Rightarrow> 'a queue_item \<Rightarrow> ('t, 'p) execution_error + bytes" where
  "item_serialize B flags r item =
     (case (case item of
              QEvent ev \<Rightarrow> (case event_to_serializable flags ev r of Inl e \<Rightarrow> Inl e | Inr s \<Rightarrow> Inr (SEvent s))
            | QQuery q \<Rightarrow> (case query_to_serializable q r of Inl e \<Rightarrow> Inl e | Inr s \<Rightarrow> Inr (SQuery s))) of
        Inl e \<Rightarrow> Inl e
      | Inr s \<Rightarrow> (case enc_item B s of
          Some b \<Rightarrow> Inr b
        | None \<Rightarrow> Inl (SaveErr (case item of
              QEvent ev \<Rightarrow> EventSerializationError (ev_id ev)
            | QQuery q \<Rightarrow> QuerySerializationError (qu_id q)))))"

text \<open>Decoding an item restores the key it carries, before the registry is consulted.\<close>

definition event_from_serializable ::
    "ser_event \<Rightarrow> nat option \<Rightarrow> ('a, 'f, 't, 'p) registry \<Rightarrow> ('t, 'p) execution_error + 'a event" where
  "event_from_serializable s key r =
     (case get_event_source (se_event_id s) r of
        None \<Rightarrow> Inl (RestoreErr (RestoreEventNotFound (se_event_id s)))
      | Some source \<Rightarrow> (case es_deserialize_arg source (se_arg s) of
          Inl e \<Rightarrow> Inl e
        | Inr arg \<Rightarrow> Inr \<lparr>ev_id = se_event_id s, ev_arg = arg, ev_period = se_period s, ev_key = key\<rparr>))"

definition query_from_serializable ::
    "ser_query \<Rightarrow> ('a, 'f, 't, 'p) registry \<Rightarrow> ('t, 'p) execution_error + 'a query" where
  "query_from_serializable s r =
     (case get_query_source (sq_query_id s) r of
        None \<Rightarrow> Inl (RestoreErr (RestoreQueryNotFound (sq_query_id s)))
      | Some source \<Rightarrow> (case qs_deserialize_arg source (sq_arg s) of
          Inl e \<Rightarrow> Inl e
        | Inr arg \<Rightarrow> Inr \<lparr>qu_id = sq_query_id s, qu_arg = arg, qu_replier = None\<rparr>))"

definition item_deserialize ::
    "bincode \<Rightarrow> bytes \<Rightarrow> ('a, 'f, 't, 'p) registry \<Rightarrow> key_reg \<times> key_flags
      \<Rightarrow> (('t, 'p) execution_error + 'a queue_item) \<times> key_reg \<times> key_flags" where
  "item_deserialize B b r ks =
     (case dec_item B b of
        None \<Rightarrow> (Inl (RestoreErr QueueItemDeserializationError), ks)
      | Some (SEvent s) \<Rightarrow>
          (let (key, ks') = (case se_key s of
               None \<Rightarrow> (None, ks)
             | Some kv \<Rightarrow> (let (k, ks') = key_deserialize kv ks in (Some k, ks'))) in
           (case event_from_serializable s key r of Inl e \<Rightarrow> Inl e | Inr ev \<Rightarrow> Inr (QEvent ev), ks'))
      | Some (SQuery s) \<Rightarrow>
          (case query_from_serializable s r of Inl e \<Rightarrow> Inl e | Inr q \<Rightarrow> Inr (QQuery q), ks))"

subsection \<open>Schedulable identifiers\<close>

definition registry_mask :: "64 word" where
  "registry_mask = push_bit 63 1"

definition from_decorated :: "64 word \<Rightarrow> 64 word" where
  "from_decorated i = i OR registry_mask"

definition model_registry_get :: "64 word list \<Rightarrow> nat \<Rightarrow> 64 word exec" where
  "model_registry_get reg idx = vec_get reg idx"

definition model_registry_add :: "64 word \<Rightarrow> 64 word list \<Rightarrow> 64 word list" where
  "model_registry_add sid reg = reg @ [sid]"

definition source_id :: "64 word \<Rightarrow> 64 word list \<Rightarrow> 64 word exec" where
  "source_id sid reg =
     (if sid AND registry_mask = 0 then Some sid
      else model_registry_get reg (unat (sid XOR registry_mask)))"

subsection \<open>Lemmas\<close>

lemma key_new_fresh:
  assumes "event_key_new flags = (k, flags')"
  shows "\<not> key_is_cancelled flags' k" "k = length flags" "flags' = flags @ [False]"
    and "k' < length flags \<Longrightarrow> key_is_cancelled flags' k' = key_is_cancelled flags k'"
  using assms by (auto simp: event_key_new_def key_is_cancelled_def nth_append)

lemma key_cancel_exact:
  "k < length flags \<Longrightarrow> key_is_cancelled (key_cancel k flags) k' \<longleftrightarrow> k' = k \<or> key_is_cancelled flags k'"
  by (auto simp: key_is_cancelled_def key_cancel_def nth_list_update)

text \<open>Arguments survive a round trip through the source that serialized them.\<close>

lemma serialize_arg_roundtrip:
  "arg_type_laws A \<Longrightarrow> serialize_arg A a = Inr b \<Longrightarrow> deserialize_arg A b = Inr a"
  by (auto simp: arg_type_laws_def serialize_arg_def deserialize_arg_def split: option.splits)

definition registry_ok :: "('a, 'f, 't, 'p) registry \<Rightarrow> bool" where
  "registry_ok r \<longleftrightarrow>
     (\<forall>s \<in> set (event_registry r). \<forall>a b. es_serialize_arg s a = Inr b \<longrightarrow> es_deserialize_arg s b = Inr a) \<and>
     (\<forall>s \<in> set (query_registry r). \<forall>a b. qs_serialize_arg s a = Inr b \<longrightarrow> qs_deserialize_arg s b = Inr a)"

lemma registry_ok_add:
  assumes "registry_ok r" "arg_type_laws A"
  shows "add_event_source (input_source A send) r = Some (i, r') \<Longrightarrow> registry_ok r'"
    and "add_event_source (event_source_port A fut) r = Some (i, r') \<Longrightarrow> registry_ok r'"
    and "add_query_source (query_source_port A n ty qfut) r = Some (i, r') \<Longrightarrow> registry_ok r'"
  using assms serialize_arg_roundtrip [OF assms(2)]
  by (auto simp: registry_ok_def add_event_source_def add_query_source_def input_source_def
      event_source_port_def query_source_port_def split: if_splits)

lemma add_event_source_get:
  assumes "add_event_source s r = Some (i, r')"
  shows "get_event_source i r' = Some s"
    and "j \<noteq> i \<Longrightarrow> get_event_source j r' = get_event_source j r"
  using assms
  by (auto simp: add_event_source_def get_event_source_def nth_append less_Suc_eq split: if_splits)

text \<open>Restored keys: the registry maps saved addresses injectively to new keys whose flags are
  those that were saved.\<close>

fun keys_ok :: "key_flags \<Rightarrow> key_reg \<times> key_flags \<Rightarrow> bool" where
  "keys_ok old (reg, flags) \<longleftrightarrow>
     inj_on reg (dom reg) \<and>
     (\<forall>a k. reg a = Some k \<longrightarrow> k < length flags \<and> flags ! k = key_is_cancelled old a)"

lemma key_deserialize_ok:
  assumes "keys_ok old (reg, flags)"
    and "key_deserialize (key_serialize old a) (reg, flags) = (k, reg', flags')"
  shows "keys_ok old (reg', flags')" "reg' a = Some k" "reg \<subseteq>\<^sub>m reg'"
proof -
  show "reg' a = Some k"
    using assms(2) by (auto simp: key_serialize_def split: option.splits)
  show "reg \<subseteq>\<^sub>m reg'"
    using assms(2) by (auto simp: key_serialize_def map_le_def split: option.splits)
  show "keys_ok old (reg', flags')"
  proof (cases "reg a")
    case (Some k)
    with assms show ?thesis by (simp add: key_serialize_def)
  next
    case None
    then have r: "reg' = reg(a \<mapsto> length flags)" "flags' = flags @ [key_is_cancelled old a]"
      using assms(2) by (auto simp: key_serialize_def)
    have old: "inj_on reg (dom reg)"
      and bound: "reg x = Some y \<Longrightarrow> y < length flags \<and> flags ! y = key_is_cancelled old x" for x y
      using assms(1) by auto
    have ne: "reg x \<noteq> Some (length flags)" for x
      using bound [of x "length flags"] by auto
    have dom: "dom reg' = insert a (dom reg)"
      by (auto simp: r(1))
    have "inj_on reg' (dom reg)"
      using old None by (auto simp: r(1) inj_on_def)
    moreover have "reg' a \<notin> reg' ` dom reg"
      using ne None by (auto simp: r(1))
    moreover have "dom reg - {a} = dom reg"
      using None by auto
    ultimately have "inj_on reg' (dom reg')"
      by (simp add: dom)
    moreover have "k < length flags' \<and> flags' ! k = key_is_cancelled old x" if "reg' x = Some k" for x k
      using that bound [of x k] by (auto simp: r nth_append split: if_splits)
    ultimately show ?thesis by simp
  qed
qed

fun item_restored :: "key_reg \<Rightarrow> 'a queue_item \<Rightarrow> 'a queue_item \<Rightarrow> bool" where
  "item_restored reg (QEvent ev) (QEvent ev') \<longleftrightarrow>
     ev' = ev\<lparr>ev_key := Option.bind (ev_key ev) reg\<rparr> \<and> (ev_key ev = None \<longleftrightarrow> ev_key ev' = None)"
| "item_restored reg (QQuery q) (QQuery q') \<longleftrightarrow> q' = q\<lparr>qu_replier := None\<rparr>"
| "item_restored reg _ _ \<longleftrightarrow> False"

lemma item_restored_mono:
  "item_restored reg item item' \<Longrightarrow> reg \<subseteq>\<^sub>m reg' \<Longrightarrow> item_restored reg' item item'"
proof (induction reg item item' rule: item_restored.induct)
  case (1 reg ev ev')
  then show ?case
    by (cases "ev_key ev") (auto simp: map_le_def split: bind_splits, metis domI)
qed auto

fun item_cancelled :: "key_flags \<Rightarrow> 'a queue_item \<Rightarrow> bool" where
  "item_cancelled flags (QEvent ev) = event_is_cancelled flags ev"
| "item_cancelled flags (QQuery q) = False"

lemma item_restored_cancelled:
  assumes "item_restored reg item item'" "keys_ok old (reg, flags)"
  shows "item_cancelled flags item' = item_cancelled old item"
  using assms
  by (induction reg item item' rule: item_restored.induct)
    (auto simp: event_is_cancelled_def key_is_cancelled_def split: option.splits bind_splits)

lemma event_roundtrip:
  assumes "registry_ok r" "event_to_serializable old ev r = Inr s"
  shows "event_from_serializable s key r = Inr (ev\<lparr>ev_key := key\<rparr>)"
    and "se_key s = map_option (key_serialize old) (ev_key ev)"
proof -
  obtain src where g: "get_event_source (ev_id ev) r = Some src"
    using assms(2) by (auto simp: event_to_serializable_def split: option.splits)
  then obtain arg where a: "es_serialize_arg src (ev_arg ev) = Inr arg"
    and s: "s = \<lparr>se_event_id = ev_id ev, se_arg = arg, se_period = ev_period ev,
      se_key = map_option (key_serialize old) (ev_key ev)\<rparr>"
    using assms(2) by (auto simp: event_to_serializable_def split: sum.splits)
  have "src \<in> set (event_registry r)"
    using g by (auto simp: get_event_source_def split: if_splits)
  then have "es_deserialize_arg src arg = Inr (ev_arg ev)"
    using assms(1) a by (auto simp: registry_ok_def)
  with g s show "event_from_serializable s key r = Inr (ev\<lparr>ev_key := key\<rparr>)"
    by (simp add: event_from_serializable_def)
  show "se_key s = map_option (key_serialize old) (ev_key ev)"
    by (simp add: s)
qed

lemma query_roundtrip:
  assumes "registry_ok r" "query_to_serializable q r = Inr s"
  shows "query_from_serializable s r = Inr (q\<lparr>qu_replier := None\<rparr>)"
proof -
  obtain src where g: "get_query_source (qu_id q) r = Some src"
    using assms(2) by (auto simp: query_to_serializable_def split: option.splits)
  then obtain arg where a: "qs_serialize_arg src (qu_arg q) = Inr arg"
    and s: "s = \<lparr>sq_query_id = qu_id q, sq_arg = arg\<rparr>"
    using assms(2) by (auto simp: query_to_serializable_def split: sum.splits)
  have "src \<in> set (query_registry r)"
    using g by (auto simp: get_query_source_def split: if_splits)
  then have "qs_deserialize_arg src arg = Inr (qu_arg q)"
    using assms(1) a by (auto simp: registry_ok_def)
  with g s show ?thesis
    by (simp add: query_from_serializable_def)
qed

lemma item_roundtrip:
  assumes "bincode_laws B" "registry_ok r" "keys_ok old (reg, flags)"
    and "item_serialize B old r item = Inr b"
  shows "\<exists>item' reg' flags'. item_deserialize B b r (reg, flags) = (Inr item', reg', flags') \<and>
    keys_ok old (reg', flags') \<and> reg \<subseteq>\<^sub>m reg' \<and> item_restored reg' item item'"
proof (cases item)
  case (QQuery q)
  then obtain s where s: "query_to_serializable q r = Inr s" "enc_item B (SQuery s) = Some b"
    using assms(4) by (auto simp: item_serialize_def split: sum.splits option.splits)
  then show ?thesis
    using assms(1,3) query_roundtrip [OF assms(2) s(1)] QQuery
    by (auto simp: item_deserialize_def bincode_laws_def)
next
  case (QEvent ev)
  then obtain s where s: "event_to_serializable old ev r = Inr s" "enc_item B (SEvent s) = Some b"
    using assms(4) by (auto simp: item_serialize_def split: sum.splits option.splits)
  note e = event_roundtrip [OF assms(2) s(1)]
  have d: "dec_item B b = Some (SEvent s)"
    using assms(1) s(2) by (simp add: bincode_laws_def)
  show ?thesis
  proof (cases "ev_key ev")
    case None
    then show ?thesis
      using d e assms(3) QEvent by (simp add: item_deserialize_def)
  next
    case (Some a)
    obtain k reg' flags' where kd: "key_deserialize (key_serialize old a) (reg, flags) = (k, reg', flags')"
      by (metis prod_cases3)
    from key_deserialize_ok [OF assms(3) kd] show ?thesis
      using d e kd Some QEvent by (simp add: item_deserialize_def)
  qed
qed

lemma bit_registry_mask: "bit registry_mask n \<longleftrightarrow> n = 63"
  unfolding registry_mask_def by (subst bit_push_bit_iff) (auto simp: bit_1_iff)

lemma mask_bits:
  assumes "unat i \<le> max_source_id"
  shows "i AND registry_mask = 0"
proof -
  have "i < 2 ^ 63"
    using assms by (simp add: max_source_id_def word_less_nat_alt)
  then have "\<not> bit i 63"
    by (simp add: bit_iff_odd div_word_less)
  then show ?thesis
    by (intro bit_word_eqI) (auto simp: bit_registry_mask bit_and_iff)
qed

subsection \<open>Properties\<close>

text \<open>A saved queue item is restored to itself: same source, argument and period; its key
  becomes the key that the registry of restored keys assigns to the saved one, with the
  same cancellation flag, and distinct saved keys stay distinct, so items that shared a
  key still share it. The reply channel of a query is dropped.\<close>

lemma item_save_restore:
  assumes "bincode_laws B" "registry_ok r" "keys_ok old (reg, flags)"
    and "item_serialize B old r item = Inr b"
  shows "\<exists>item' reg' flags'. item_deserialize B b r (reg, flags) = (Inr item', reg', flags') \<and>
    keys_ok old (reg', flags') \<and> reg \<subseteq>\<^sub>m reg' \<and> item_restored reg' item item' \<and>
    item_cancelled flags' item' = item_cancelled old item"
  using item_roundtrip [OF assms] item_restored_cancelled by blast

text \<open>A small instance: numbers below 256 as arguments, one input source.\<close>

definition byte_arg :: "(nat, nat) arg_type" where
  "byte_arg = \<lparr>at_name = ''u8'', at_downcast = Some, at_box = (\<lambda>v. v),
     at_enc = (\<lambda>v. if v < 256 then Some [word_of_nat v] else None),
     at_dec = (\<lambda>b. case b of [w] \<Rightarrow> Some (unat w) | _ \<Rightarrow> None)\<rparr>"

lemma byte_arg_laws: "arg_type_laws byte_arg"
  by (auto simp: arg_type_laws_def byte_arg_def unat_of_nat)

definition byte_registry :: "(nat, nat \<times> nat option, 't, 'p) registry" where
  "byte_registry = \<lparr>event_registry = [input_source byte_arg Pair], query_registry = []\<rparr>"

lemma byte_registry_ok: "registry_ok byte_registry"
  using serialize_arg_roundtrip [OF byte_arg_laws]
  by (auto simp: registry_ok_def byte_registry_def input_source_def)

definition one_item_bincode :: "ser_item \<Rightarrow> bincode" where
  "one_item_bincode x = \<lparr>enc_item = (\<lambda>y. if y = x then Some [1] else None),
     dec_item = (\<lambda>b. if b = [1] then Some x else None)\<rparr>"

lemma one_item_bincode_laws: "bincode_laws (one_item_bincode x)"
  by (auto simp: bincode_laws_def one_item_bincode_def)

text \<open>A schedulable identifier made from the index of a decorated method is looked up in the
  model's registry, an identifier registered by hand is used as it is, and the two can
  not be confused: every index that registration can hand out has the mask bit clear.\<close>

lemma source_id_resolves:
  assumes "unat i \<le> max_source_id"
  shows "source_id i reg = Some i \<and> source_id (from_decorated i) reg = vec_get reg (unat i)"
proof -
  have m: "i AND registry_mask = 0"
    by (rule mask_bits [OF assms])
  have "registry_mask \<noteq> 0"
    by (simp add: registry_mask_def)
  moreover have "(i OR registry_mask) AND registry_mask = registry_mask"
    by (simp add: bit.conj_disj_distrib2 m)
  moreover have "(i OR registry_mask) XOR registry_mask = i"
  proof (rule bit_word_eqI)
    fix n assume "n < LENGTH(64)"
    moreover have "\<not> (bit i n \<and> bit registry_mask n)"
      using m by (metis bit_and_iff bit_0_eq bot_apply bot_bool_def)
    ultimately show "bit ((i OR registry_mask) XOR registry_mask) n = bit i n"
      by (auto simp: bit_simps)
  qed
  ultimately show ?thesis
    using m by (simp add: source_id_def from_decorated_def model_registry_get_def)
qed

end
