(* ===== verification/Binary_Heap.thy ===== *)
theory Binary_Heap
  imports Heap_Array
begin

text \<open>
  The parts of the standard library's \<open>BinaryHeap\<close> that
  \<^verbatim>\<open>src/nexosim/src/util/priority_queue.rs\<close> calls: \<open>push\<close>, \<open>pop\<close>, \<open>peek\<close> and
  \<open>iter\<close>, on the array that backs the heap. The heap is a max-heap for the \<open>\<le>\<close> of
  the element type, the parameter \<open>le\<close>; \<open>pop\<close> moves the last element to the bottom of
  the heap first and then sifts it up, as the library does, so that the order in which
  \<open>iter\<close> walks the array is the library's.
\<close>

function bh_sift_up :: "('a \<Rightarrow> 'a \<Rightarrow> bool) \<Rightarrow> 'a list \<Rightarrow> nat \<Rightarrow> 'a \<Rightarrow> 'a list" where
  "bh_sift_up le xs pos x =
     (if 0 < pos then
        (let parent = (pos - 1) div 2 in
         if le x (xs ! parent) then xs[pos := x]
         else bh_sift_up le (xs[pos := xs ! parent]) parent x)
      else xs[pos := x])"
  by pat_completeness auto
termination
  by (relation "measure (\<lambda>(le, xs, pos, x). pos)") auto

declare bh_sift_up.simps [simp del]

lemma bh_sift_up_move:
  "0 < p \<Longrightarrow> \<not> le x (xs ! ((p - 1) div 2)) \<Longrightarrow>
     bh_sift_up le xs p x = bh_sift_up le (xs[p := xs ! ((p - 1) div 2)]) ((p - 1) div 2) x"
  by (subst bh_sift_up.simps) (simp add: Let_def)

lemma bh_sift_up_stop:
  "p = 0 \<or> le x (xs ! ((p - 1) div 2)) \<Longrightarrow> bh_sift_up le xs p x = xs[p := x]"
  by (subst bh_sift_up.simps) (auto simp: Let_def)

function bh_sift_to_bottom :: "('a \<Rightarrow> 'a \<Rightarrow> bool) \<Rightarrow> 'a list \<Rightarrow> nat \<Rightarrow> 'a list \<times> nat" where
  "bh_sift_to_bottom le xs pos =
     (let child = 2 * pos + 1; end = length xs in
      if child \<le> end - 2 then
        (let c = (if le (xs ! child) (xs ! (child + 1)) then child + 1 else child) in
         bh_sift_to_bottom le (xs[pos := xs ! c]) c)
      else if child = end - 1 then (xs[pos := xs ! child], child)
      else (xs, pos))"
  by pat_completeness auto
termination
  by (relation "measure (\<lambda>(le, xs, pos). length xs - pos)") auto

declare bh_sift_to_bottom.simps [simp del]

lemma bh_sift_to_bottom_move:
  "2 * p + 1 \<le> length xs - 2 \<Longrightarrow>
     c = (if le (xs ! (2 * p + 1)) (xs ! (2 * p + 2)) then 2 * p + 2 else 2 * p + 1) \<Longrightarrow>
     bh_sift_to_bottom le xs p = bh_sift_to_bottom le (xs[p := xs ! c]) c"
  by (subst bh_sift_to_bottom.simps) (simp add: Let_def)

lemma bh_sift_to_bottom_last:
  "\<not> 2 * p + 1 \<le> length xs - 2 \<Longrightarrow> 2 * p + 1 = length xs - 1 \<Longrightarrow>
     bh_sift_to_bottom le xs p = (xs[p := xs ! (2 * p + 1)], 2 * p + 1)"
  by (subst bh_sift_to_bottom.simps) (simp add: Let_def)

lemma bh_sift_to_bottom_stop:
  "\<not> 2 * p + 1 \<le> length xs - 2 \<Longrightarrow> 2 * p + 1 \<noteq> length xs - 1 \<Longrightarrow>
     bh_sift_to_bottom le xs p = (xs, p)"
  by (subst bh_sift_to_bottom.simps) (simp add: Let_def)

definition bh_push :: "('a \<Rightarrow> 'a \<Rightarrow> bool) \<Rightarrow> 'a \<Rightarrow> 'a list \<Rightarrow> 'a list" where
  "bh_push le x xs = bh_sift_up le (xs @ [x]) (length xs) x"

definition bh_pop :: "('a \<Rightarrow> 'a \<Rightarrow> bool) \<Rightarrow> 'a list \<Rightarrow> ('a \<times> 'a list) option" where
  "bh_pop le xs =
     (if xs = [] then None
      else
        (let item = last xs; d = butlast xs in
         if d = [] then Some (item, [])
         else (let (ys, pos) = bh_sift_to_bottom le d 0
               in Some (d ! 0, bh_sift_up le ys pos item))))"

definition bh_peek :: "'a list \<Rightarrow> 'a option" where
  "bh_peek xs = (if xs = [] then None else Some (xs ! 0))"

definition bh_iter :: "'a list \<Rightarrow> 'a list" where
  "bh_iter xs = xs"

context total_preorder
begin

lemma bh_sift_up_correct:
  assumes "heap_hole R xs p" "p < length xs" "below_hole R xs p x"
  shows "heap_on R (bh_sift_up (\<lambda>a b. R b a) xs p x)
       \<and> mset (bh_sift_up (\<lambda>a b. R b a) xs p x) = mset (xs[p := x])"
  using assms
proof (induction "\<lambda>a b. R b a" xs p x rule: bh_sift_up.induct)
  case (1 xs p x)
  let ?q = "(p - 1) div 2"
  show ?case
  proof (cases "0 < p \<and> \<not> R (xs ! ?q) x")
    case True
    then have p: "0 < p" and nx: "\<not> R (xs ! ?q) x" and x: "R x (xs ! ?q)"
      by (auto dest: R_not)
    note up = heap_hole_up [OF "1.prems"(1) p "1.prems"(2,3) x]
    have len: "?q < length (xs[p := xs ! ?q])"
      using p "1.prems"(2) by simp
    have "mset (xs[p := xs ! ?q, ?q := x]) = mset (xs[p := x])"
      by (rule mset_hole_move) (use p "1.prems"(2) in auto)
    with "1.hyps" [OF p refl nx up(1) len up(2)] show ?thesis
      by (simp only: bh_sift_up_move [OF p, of "\<lambda>a b. R b a", OF nx])
  next
    case False
    then have "above_hole R xs p x"
      by (auto simp: above_hole_def)
    then have "heap_on R (xs[p := x])"
      using "1.prems" by (intro heap_hole_fill)
    moreover have "bh_sift_up (\<lambda>a b. R b a) xs p x = xs[p := x]"
      by (rule bh_sift_up_stop) (use False in auto)
    ultimately show ?thesis
      by simp
  qed
qed

lemma bh_sift_to_bottom_correct:
  assumes "heap_hole R xs p" "p < length xs" "bh_sift_to_bottom (\<lambda>a b. R b a) xs p = (ys, q)"
  shows "heap_hole R ys q \<and> q < length ys \<and> length ys \<le> 2 * q + 1
       \<and> mset (ys[q := x]) = mset (xs[p := x])"
  using assms
proof (induction "\<lambda>a b. R b a" xs p rule: bh_sift_to_bottom.induct)
  case (1 xs p)
  let ?c = "2 * p + 1" and ?n = "length xs"
  show ?case
  proof (cases "?c \<le> ?n - 2")
    case True
    define c where "c = (if R (xs ! (2 * p + 2)) (xs ! ?c) then 2 * p + 2 else ?c)"
    have c: "c < length xs" "0 < c" "(c - 1) div 2 = p" "p \<noteq> c"
      using True by (auto simp: c_def)
    have best: "R (xs ! c) (xs ! i)" if "0 < i" "i < length xs" "(i - 1) div 2 = p" for i
      using that by (auto simp: child_of_iff c_def R_refl dest: R_not)
    have hole: "heap_hole R (xs[p := xs ! c]) c"
      by (rule heap_hole_down [OF "1.prems"(1) c(1-3) best])
    have run: "bh_sift_to_bottom (\<lambda>a b. R b a) (xs[p := xs ! c]) c = (ys, q)"
      using "1.prems"(3) bh_sift_to_bottom_move [OF True, of c "\<lambda>a b. R b a", OF c_def] by simp
    have "c = (if R (xs ! (?c + 1)) (xs ! ?c) then ?c + 1 else ?c)"
      by (simp add: c_def)
    note IH = "1.hyps" [OF refl refl True this hole _ run]
    have "heap_hole R ys q \<and> q < length ys \<and> length ys \<le> 2 * q + 1
        \<and> mset (ys[q := x]) = mset (xs[p := xs ! c, c := x])"
      by (rule IH) (use c(1) in simp)
    then show ?thesis
      using mset_hole_move [of p xs c x] "1.prems"(2) c by simp
  next
    case False
    show ?thesis
    proof (cases "?c = ?n - 1")
      case True
      then have c: "?c < length xs" "0 < ?c" "(?c - 1) div 2 = p"
        by auto
      have best: "R (xs ! ?c) (xs ! i)" if "0 < i" "i < length xs" "(i - 1) div 2 = p" for i
        using that True by (auto simp: child_of_iff R_refl)
      have "heap_hole R (xs[p := xs ! ?c]) ?c"
        by (rule heap_hole_down [OF "1.prems"(1) c best])
      moreover have "ys = xs[p := xs ! ?c]" "q = ?c"
        using "1.prems"(3) bh_sift_to_bottom_last [OF False True, of "\<lambda>a b. R b a"] by auto
      moreover have "mset (xs[p := xs ! ?c, ?c := x]) = mset (xs[p := x])"
        by (rule mset_hole_move) (use "1.prems"(2) c in auto)
      ultimately show ?thesis
        using True c by auto
    next
      case no: False
      then have "ys = xs" "q = p"
        using "1.prems"(3) bh_sift_to_bottom_stop [OF False no, of "\<lambda>a b. R b a"] by simp_all
      moreover have "?n \<le> 2 * p + 1"
        using no False by linarith
      ultimately show ?thesis
        using "1.prems" by auto
    qed
  qed
qed

lemma bh_push_correct:
  assumes "heap_on R xs"
  shows "heap_on R (bh_push (\<lambda>a b. R b a) x xs)"
    and "mset (bh_push (\<lambda>a b. R b a) x xs) = add_mset x (mset xs)"
proof -
  have "heap_hole R (xs @ [x]) (length xs)"
    using assms unfolding heap_hole_def heap_on_def by (auto simp: nth_append)
  moreover have "below_hole R (xs @ [x]) (length xs) x"
    by (rule below_hole_leaf) simp
  ultimately have "heap_on R (bh_push (\<lambda>a b. R b a) x xs) \<and>
      mset (bh_push (\<lambda>a b. R b a) x xs) = mset ((xs @ [x])[length xs := x])"
    unfolding bh_push_def by (intro bh_sift_up_correct) auto
  then show "heap_on R (bh_push (\<lambda>a b. R b a) x xs)"
    and "mset (bh_push (\<lambda>a b. R b a) x xs) = add_mset x (mset xs)"
    by auto
qed

lemma bh_pop_None_iff: "bh_pop (\<lambda>a b. R b a) xs = None \<longleftrightarrow> xs = []"
  by (auto simp: bh_pop_def Let_def split: prod.splits)

lemma bh_pop_correct:
  assumes "heap_on R xs" "bh_pop (\<lambda>a b. R b a) xs = Some (x, ys)"
  shows "heap_on R ys" and "mset xs = add_mset x (mset ys)" and "x = xs ! 0"
    and "\<And>y. y \<in> set xs \<Longrightarrow> R x y"
proof -
  have ne: "xs \<noteq> []"
    using assms(2) by (auto simp: bh_pop_def)
  have "heap_on R ys \<and> mset xs = add_mset x (mset ys) \<and> x = xs ! 0"
  proof (cases "butlast xs = []")
    case True
    then obtain z where z: "xs = [z]"
      using ne by (cases xs) (auto split: if_splits)
    with assms(2) have "x = z" "ys = []"
      by (simp_all add: bh_pop_def)
    with z show ?thesis
      by simp
  next
    case False
    let ?d = "butlast xs"
    have d0: "0 < length ?d"
      using False by blast
    obtain zs q where zs: "bh_sift_to_bottom (\<lambda>a b. R b a) ?d 0 = (zs, q)"
      by fastforce
    have x: "x = ?d ! 0" and ys: "ys = bh_sift_up (\<lambda>a b. R b a) zs q (last xs)"
      using assms(2) ne False zs by (auto simp: bh_pop_def Let_def)
    have "heap_hole R ?d 0"
      by (rule heap_on_hole [OF heap_on_butlast [OF assms(1)] d0])
    then have z: "heap_hole R zs q \<and> q < length zs \<and> length zs \<le> 2 * q + 1
        \<and> mset (zs[q := last xs]) = mset (?d[0 := last xs])"
      by (rule bh_sift_to_bottom_correct [OF _ d0 zs])
    then have "heap_on R ys \<and> mset ys = mset (?d[0 := last xs])"
      using bh_sift_up_correct [of zs q "last xs"] below_hole_leaf [of zs q R "last xs"] ys by simp
    moreover have "add_mset (?d ! 0) (mset (?d[0 := last xs])) = mset xs"
      using mset_update_add [OF d0, of "last xs"] mset_butlast_last [OF ne] by simp
    moreover have "?d ! 0 = xs ! 0"
      using d0 by (simp add: nth_butlast)
    ultimately show ?thesis
      by (simp add: x)
  qed
  then show "heap_on R ys" "mset xs = add_mset x (mset ys)" "x = xs ! 0"
    by simp_all
  show "\<And>y. y \<in> set xs \<Longrightarrow> R x y"
    using heap_root_extreme [OF assms(1)] \<open>x = xs ! 0\<close> by (auto simp: in_set_conv_nth)
qed

end

end
