(* ===== verification/Priority_Queue.thy ===== *)
theory Priority_Queue
  imports Binary_Heap
begin

text \<open>
  Model of \<^verbatim>\<open>src/nexosim/src/util/priority_queue.rs\<close>: a priority queue over the
  standard library's max-heap, whose items are ordered by key and then by an insertion
  epoch, both reversed.

  The abstract value \<open>pq_abs\<close> of a queue is the list of its key-value pairs in the order
  in which they will be pulled. The locale \<open>stable_queue\<close> is the contract of the queue on
  that list: insertion puts a pair behind all pairs with a key that is not greater
  (\<open>stable_insert\<close>), so that pairs with equal keys leave in insertion order.
\<close>

datatype ordering = Less | Equal | Greater

definition ord_cmp :: "'a::linorder \<Rightarrow> 'a \<Rightarrow> ordering" where
  "ord_cmp a b = (if a < b then Less else if a = b then Equal else Greater)"

fun ordering_then_with :: "ordering \<Rightarrow> ordering \<Rightarrow> ordering" where
  "ordering_then_with Equal o2 = o2"
| "ordering_then_with o1 _ = o1"

fun ordering_reverse :: "ordering \<Rightarrow> ordering" where
  "ordering_reverse Less = Greater"
| "ordering_reverse Equal = Equal"
| "ordering_reverse Greater = Less"

datatype ('k, 'v) item = Item (it_key: 'k) (it_value: 'v) (it_epoch: nat)

definition item_cmp :: "('k::linorder, 'v) item \<Rightarrow> ('k, 'v) item \<Rightarrow> ordering" where
  "item_cmp self other =
     ordering_reverse (ordering_then_with (ord_cmp (it_key self) (it_key other))
       (ord_cmp (it_epoch self) (it_epoch other)))"

definition item_eq :: "('k::linorder, 'v) item \<Rightarrow> ('k, 'v) item \<Rightarrow> bool" where
  "item_eq self other \<longleftrightarrow> it_key self = it_key other \<and> it_epoch self = it_epoch other"

definition item_le :: "('k::linorder, 'v) item \<Rightarrow> ('k, 'v) item \<Rightarrow> bool" where
  "item_le self other \<longleftrightarrow> item_cmp self other \<noteq> Greater"

record ('k, 'v) priority_queue =
  pq_heap :: "('k, 'v) item list"
  pq_next_epoch :: nat

definition pq_new :: "('k, 'v) priority_queue" where
  "pq_new = \<lparr>pq_heap = [], pq_next_epoch = 0\<rparr>"

definition pq_insert ::
    "'k::linorder \<Rightarrow> 'v \<Rightarrow> ('k, 'v) priority_queue \<Rightarrow> ('k, 'v) priority_queue exec" where
  "pq_insert key value q =
     (let epoch = pq_next_epoch q in
      if epoch = u64_max then None
      else Some (q\<lparr>pq_heap := bh_push item_le (Item key value epoch) (pq_heap q),
                   pq_next_epoch := epoch + 1\<rparr>))"

definition pq_pull ::
    "('k::linorder, 'v) priority_queue \<Rightarrow> ('k \<times> 'v) option \<times> ('k, 'v) priority_queue" where
  "pq_pull q =
     (case bh_pop item_le (pq_heap q) of
        None \<Rightarrow> (None, q)
      | Some (it, heap') \<Rightarrow> (Some (it_key it, it_value it), q\<lparr>pq_heap := heap'\<rparr>))"

definition pq_peek :: "('k, 'v) priority_queue \<Rightarrow> ('k \<times> 'v) option" where
  "pq_peek q = map_option (\<lambda>it. (it_key it, it_value it)) (bh_peek (pq_heap q))"

definition pq_iter :: "('k, 'v) priority_queue \<Rightarrow> ('k \<times> 'v) list" where
  "pq_iter q = map (\<lambda>it. (it_key it, it_value it)) (bh_iter (pq_heap q))"

definition pq_clear :: "('k, 'v) priority_queue \<Rightarrow> ('k, 'v) priority_queue" where
  "pq_clear q = q\<lparr>pq_heap := [], pq_next_epoch := 0\<rparr>"

subsection \<open>Abstraction and invariant\<close>

definition it_rank :: "('k, 'v) item \<Rightarrow> 'k \<times> nat" where
  "it_rank it = (it_key it, it_epoch it)"

definition pq_inv :: "('k::linorder, 'v) priority_queue \<Rightarrow> bool" where
  "pq_inv q \<longleftrightarrow>
     heap_on (\<lambda>a b. item_le b a) (pq_heap q) \<and>
     distinct (map it_epoch (pq_heap q)) \<and>
     (\<forall>it\<in>set (pq_heap q). it_epoch it < pq_next_epoch q) \<and>
     pq_next_epoch q \<le> u64_max"

definition pq_sorted :: "('k::linorder, 'v) priority_queue \<Rightarrow> ('k, 'v) item list" where
  "pq_sorted q = sort_key it_rank (pq_heap q)"

definition pq_abs :: "('k::linorder, 'v) priority_queue \<Rightarrow> ('k \<times> 'v) list" where
  "pq_abs q = map (\<lambda>it. (it_key it, it_value it)) (pq_sorted q)"

definition stable_insert :: "'k::linorder \<Rightarrow> 'v \<Rightarrow> ('k \<times> 'v) list \<Rightarrow> ('k \<times> 'v) list" where
  "stable_insert k v xs =
     takeWhile (\<lambda>kv. fst kv \<le> k) xs @ (k, v) # dropWhile (\<lambda>kv. fst kv \<le> k) xs"

lemma item_le_iff: "item_le a b \<longleftrightarrow> it_rank b \<le> it_rank a"
  by (cases a; cases b)
    (auto simp: item_le_def item_cmp_def it_rank_def ord_cmp_def less_le_not_le split: if_splits)

interpretation item_order: total_preorder "\<lambda>a b. item_le b a"
  by unfold_locales (auto simp: item_le_iff)

lemma inj_rank: "distinct (map it_epoch xs) \<Longrightarrow> inj_on it_rank (set xs)"
  by (auto simp: inj_on_def it_rank_def distinct_map)

lemma pq_inv_new [simp]: "pq_inv pq_new"
  by (simp add: pq_inv_def pq_new_def)

lemma pq_abs_new [simp]: "pq_abs pq_new = []"
  by (simp add: pq_abs_def pq_sorted_def pq_new_def)

lemma pq_abs_sorted: "sorted (map fst (pq_abs q))"
proof -
  have "sorted (map it_rank (pq_sorted q))"
    by (simp add: pq_sorted_def)
  then have "sorted (map fst (map it_rank (pq_sorted q)))"
    by (rule sorted_map_mono) (auto simp: mono_on_def less_eq_prod_def)
  then show ?thesis
    by (simp add: pq_abs_def it_rank_def comp_def)
qed

subsection \<open>Every operation on the abstract list\<close>

lemma pq_pull_Nil:
  assumes "pq_inv q" "pq_abs q = []"
  shows "pq_pull q = (None, q)" and "pq_heap q = []"
proof -
  show h: "pq_heap q = []"
    using assms(2) by (simp add: pq_abs_def pq_sorted_def) (metis set_empty set_sort)
  show "pq_pull q = (None, q)"
    by (simp add: pq_pull_def h bh_pop_def)
qed

lemma pq_pull_Cons:
  assumes inv: "pq_inv q" and abs: "pq_abs q = kv # rest"
  obtains q' where "pq_pull q = (Some kv, q')" "pq_inv q'" "pq_abs q' = rest"
    "pq_next_epoch q' = pq_next_epoch q"
proof -
  have ne: "pq_heap q \<noteq> []"
    using abs by (auto simp: pq_abs_def pq_sorted_def)
  then obtain it ys where pop: "bh_pop item_le (pq_heap q) = Some (it, ys)"
    using item_order.bh_pop_None_iff [of "pq_heap q"] by (cases "bh_pop item_le (pq_heap q)") auto
  have heap: "heap_on (\<lambda>a b. item_le b a) (pq_heap q)" and dist: "distinct (map it_epoch (pq_heap q))"
    using inv by (auto simp: pq_inv_def)
  note c = item_order.bh_pop_correct [OF heap pop]
  have sub: "set ys \<subseteq> set (pq_heap q)"
    using c(2) by (metis mset_subset_eq_add_right set_mset_mono set_mset_mset add_mset_add_single
        union_commute)
  have dys: "distinct (map it_epoch ys)"
  proof -
    have "mset (map it_epoch (pq_heap q)) = add_mset (it_epoch it) (mset (map it_epoch ys))"
      using c(2) by (metis image_mset_add_mset mset_map)
    with dist show ?thesis
      by (metis distinct.simps(2) mset.simps(2) mset_eq_imp_distinct_iff)
  qed
  let ?q' = "q\<lparr>pq_heap := ys\<rparr>"
  have "pq_inv ?q'"
    using inv c(1) dys sub by (auto simp: pq_inv_def)
  have "sort_key it_rank (pq_heap q) = it # sort_key it_rank ys"
  proof (rule sort_key_inj_key_eq)
    show "mset (pq_heap q) = mset (it # sort_key it_rank ys)"
      using c(2) by simp
    show "inj_on it_rank (set (pq_heap q))"
      by (rule inj_rank [OF dist])
    show "sorted (map it_rank (it # sort_key it_rank ys))"
      using c(4) sub by (auto simp: item_le_iff)
  qed
  then have "kv = (it_key it, it_value it)" "pq_abs ?q' = rest"
    using abs by (simp_all add: pq_abs_def pq_sorted_def)
  then show ?thesis
    using that [of ?q'] \<open>pq_inv ?q'\<close> pop by (simp add: pq_pull_def)
qed

lemma pq_peek_abs:
  assumes "pq_inv q"
  shows "pq_peek q = (case pq_abs q of [] \<Rightarrow> None | kv # _ \<Rightarrow> Some kv)"
proof (cases "pq_abs q")
  case Nil
  with assms show ?thesis
    by (simp add: pq_pull_Nil pq_peek_def bh_peek_def)
next
  case (Cons kv rest)
  then have ne: "pq_heap q \<noteq> []"
    by (auto simp: pq_abs_def pq_sorted_def)
  obtain q' where "pq_pull q = (Some kv, q')"
    using pq_pull_Cons [OF assms Cons] by metis
  then obtain it ys where pop: "bh_pop item_le (pq_heap q) = Some (it, ys)"
      and kv: "kv = (it_key it, it_value it)"
    by (auto simp: pq_pull_def split: option.splits)
  have "it = pq_heap q ! 0"
    using item_order.bh_pop_correct(3) [OF _ pop] assms by (simp add: pq_inv_def)
  with ne kv Cons show ?thesis
    by (simp add: pq_peek_def bh_peek_def)
qed

lemma takeWhile_dropWhile_sorted:
  assumes "sorted (map f xs)"
  shows "\<forall>x\<in>set (takeWhile (\<lambda>x. f x \<le> k) xs). f x \<le> k"
    and "\<forall>x\<in>set (dropWhile (\<lambda>x. f x \<le> k) xs). k < f x"
proof -
  show "\<forall>x\<in>set (takeWhile (\<lambda>x. f x \<le> k) xs). f x \<le> k"
    by (auto dest: set_takeWhileD)
  show "\<forall>x\<in>set (dropWhile (\<lambda>x. f x \<le> k) xs). k < f x"
    using assms
  proof (induction xs)
    case (Cons a xs)
    show ?case
    proof (cases "f a \<le> k")
      case True
      with Cons show ?thesis by simp
    next
      case False
      then have "k < f a" by simp
      with Cons.prems show ?thesis
        using False by (auto intro: less_le_trans)
    qed
  qed simp
qed

lemma pq_insert_abs:
  assumes inv: "pq_inv q" and ins: "pq_insert k v q = Some q'"
  shows "pq_inv q'" and "pq_abs q' = stable_insert k v (pq_abs q)"
    and "pq_next_epoch q' = Suc (pq_next_epoch q)"
proof -
  let ?e = "pq_next_epoch q" and ?new = "Item k v (pq_next_epoch q)"
  let ?h = "bh_push item_le ?new (pq_heap q)"
  have q': "q' = q\<lparr>pq_heap := ?h, pq_next_epoch := ?e + 1\<rparr>" and e: "?e \<noteq> u64_max"
    using ins by (auto simp: pq_insert_def Let_def split: if_splits)
  have heap: "heap_on (\<lambda>a b. item_le b a) (pq_heap q)" and dist: "distinct (map it_epoch (pq_heap q))"
      and old: "\<forall>it\<in>set (pq_heap q). it_epoch it < ?e"
    using inv by (auto simp: pq_inv_def)
  note c = item_order.bh_push_correct [OF heap, of ?new]
  have set: "set ?h = insert ?new (set (pq_heap q))"
    using c(2) by (metis set_mset_add_mset_insert set_mset_mset)
  have dh: "distinct (map it_epoch ?h)"
  proof -
    have "mset (map it_epoch ?h) = mset (map it_epoch (?new # pq_heap q))"
      using c(2) by (metis image_mset_add_mset mset_map mset.simps(2) list.map(2))
    moreover have "distinct (map it_epoch (?new # pq_heap q))"
      using dist old by auto
    ultimately show ?thesis
      by (metis mset_eq_imp_distinct_iff)
  qed
  show "pq_inv q'"
    using inv c(1) dh old set e by (auto simp: pq_inv_def q' less_Suc_eq)
  show "pq_next_epoch q' = Suc ?e"
    by (simp add: q')
  let ?S = "sort_key it_rank (pq_heap q)" and ?P = "\<lambda>it. it_key it \<le> k"
  have keys: "sorted (map it_key ?S)"
    using pq_abs_sorted [of q] by (simp add: pq_abs_def pq_sorted_def comp_def)
  note tw = takeWhile_dropWhile_sorted [OF keys, of k]
  have tset: "set (takeWhile ?P ?S) \<subseteq> set (pq_heap q)" "set (dropWhile ?P ?S) \<subseteq> set (pq_heap q)"
    by (auto dest: set_takeWhileD set_dropWhileD)
  have "sort_key it_rank ?h = takeWhile ?P ?S @ ?new # dropWhile ?P ?S"
  proof (rule sort_key_inj_key_eq)
    show "mset ?h = mset (takeWhile ?P ?S @ ?new # dropWhile ?P ?S)"
    proof -
      have "mset (takeWhile ?P ?S @ ?new # dropWhile ?P ?S)
          = add_mset ?new (mset (takeWhile ?P ?S @ dropWhile ?P ?S))"
        by (simp only: mset_append mset.simps(2)) simp
      then show ?thesis
        using c(2) by (simp only: takeWhile_dropWhile_id mset_sort)
    qed
    show "inj_on it_rank (set ?h)"
      by (rule inj_rank [OF dh])
    have "sorted (map it_rank (takeWhile ?P ?S @ dropWhile ?P ?S))"
      by simp
    then have "sorted (map it_rank (takeWhile ?P ?S))" "sorted (map it_rank (dropWhile ?P ?S))"
      by (simp_all only: map_append sorted_append)
    moreover have "\<forall>x\<in>set (takeWhile ?P ?S). it_rank x \<le> it_rank ?new"
      using tw(1) tset(1) old by (auto simp: it_rank_def less_eq_prod_def less_le)
    moreover have "\<forall>x\<in>set (dropWhile ?P ?S). it_rank ?new \<le> it_rank x"
      using tw(2) by (auto simp: it_rank_def less_eq_prod_def)
    ultimately show "sorted (map it_rank (takeWhile ?P ?S @ ?new # dropWhile ?P ?S))"
      by (auto simp: sorted_append intro: order_trans)
  qed
  then show "pq_abs q' = stable_insert k v (pq_abs q)"
    by (simp add: q' pq_abs_def pq_sorted_def stable_insert_def takeWhile_map dropWhile_map comp_def)
qed

lemma stable_insert_mset [simp]: "mset (stable_insert k v xs) = add_mset (k, v) (mset xs)"
proof -
  have "mset (stable_insert k v xs)
      = add_mset (k, v) (mset (takeWhile (\<lambda>kv. fst kv \<le> k) xs @ dropWhile (\<lambda>kv. fst kv \<le> k) xs))"
    by (simp only: stable_insert_def mset_append mset.simps(2)) simp
  then show ?thesis
    by (simp only: takeWhile_dropWhile_id)
qed

lemma stable_insert_sorted:
  assumes "sorted (map fst xs)"
  shows "sorted (map fst (stable_insert k v xs))"
proof -
  note tw = takeWhile_dropWhile_sorted [OF assms, of k]
  have "sorted (map fst (takeWhile (\<lambda>kv. fst kv \<le> k) xs @ dropWhile (\<lambda>kv. fst kv \<le> k) xs))"
    using assms by simp
  then have "sorted (map fst (takeWhile (\<lambda>kv. fst kv \<le> k) xs))"
      "sorted (map fst (dropWhile (\<lambda>kv. fst kv \<le> k) xs))"
    by (simp_all only: map_append sorted_append)
  with tw show ?thesis
    by (fastforce simp: stable_insert_def sorted_append)
qed

lemma stable_insert_filter:
  assumes "sorted (map fst xs)"
  shows "filter (\<lambda>kv. fst kv = j) (stable_insert k v xs) =
    filter (\<lambda>kv. fst kv = j) xs @ (if k = j then [(k, v)] else [])"
proof -
  note tw = takeWhile_dropWhile_sorted [OF assms, of k]
  have xs: "filter (\<lambda>kv. fst kv = j) xs = filter (\<lambda>kv. fst kv = j) (takeWhile (\<lambda>kv. fst kv \<le> k) xs)
      @ filter (\<lambda>kv. fst kv = j) (dropWhile (\<lambda>kv. fst kv \<le> k) xs)"
    by (metis filter_append takeWhile_dropWhile_id)
  show ?thesis
  proof (cases "k = j")
    case True
    then have "filter (\<lambda>kv. fst kv = j) (dropWhile (\<lambda>kv. fst kv \<le> k) xs) = []"
      using tw(2) by (auto simp: filter_empty_conv)
    with True xs show ?thesis
      by (simp add: stable_insert_def)
  next
    case False
    with xs show ?thesis
      by (simp add: stable_insert_def)
  qed
qed

text \<open>Inserting pair after pair is a stable sort by key.\<close>

lemma fold_stable_insert: "fold (\<lambda>(k, v). stable_insert k v) kvs [] = sort_key fst kvs"
proof (rule sym, rule properties_for_sort_key)
  have base: "sorted (map fst (fold (\<lambda>(k, v). stable_insert k v) kvs [])) \<and>
      mset (fold (\<lambda>(k, v). stable_insert k v) kvs []) = mset kvs \<and>
      (\<forall>j. filter (\<lambda>kv. fst kv = j) (fold (\<lambda>(k, v). stable_insert k v) kvs [])
         = filter (\<lambda>kv. fst kv = j) kvs)"
  proof (induction kvs rule: rev_induct)
    case (snoc kv kvs)
    then show ?case
      by (cases kv) (auto simp: stable_insert_sorted stable_insert_filter)
  qed simp
  then show "mset (fold (\<lambda>(k, v). stable_insert k v) kvs []) = mset kvs"
    and "sorted (map fst (fold (\<lambda>(k, v). stable_insert k v) kvs []))"
    by simp_all
  fix kv :: "'a \<times> 'b"
  have eq: "(\<lambda>x. fst kv = fst x) = (\<lambda>x :: 'a \<times> 'b. fst x = fst kv)"
    by auto
  from base show "filter (\<lambda>x. fst kv = fst x) (fold (\<lambda>(k, v). stable_insert k v) kvs [])
      = filter (\<lambda>x. fst kv = fst x) kvs"
    unfolding eq by blast
qed

lemma pq_insert_None_iff: "pq_insert k v q = None \<longleftrightarrow> pq_next_epoch q = u64_max"
  by (simp add: pq_insert_def Let_def)

lemma pq_insert_Some:
  assumes "pq_next_epoch q < u64_max"
  obtains q' where "pq_insert k v q = Some q'"
  using assms by (cases "pq_insert k v q") (auto simp: pq_insert_None_iff)

lemma pq_iter_perm:
  "mset (pq_iter q) = mset (pq_abs q)"
  by (simp add: pq_iter_def pq_abs_def pq_sorted_def bh_iter_def)

subsection \<open>The contract\<close>

text \<open>A sequence of pulls and a sequence of insertions, for any queue operations.\<close>

fun iter_pull :: "('q \<Rightarrow> 'r option \<times> 'q) \<Rightarrow> nat \<Rightarrow> 'q \<Rightarrow> 'r option list" where
  "iter_pull pull 0 q = []"
| "iter_pull pull (Suc n) q = (let (r, q') = pull q in r # iter_pull pull n q')"

fun iter_insert :: "('k \<Rightarrow> 'v \<Rightarrow> 'q \<Rightarrow> 'q exec) \<Rightarrow> ('k \<times> 'v) list \<Rightarrow> 'q \<Rightarrow> 'q exec" where
  "iter_insert ins [] q = Some q"
| "iter_insert ins ((k, v) # kvs) q =
     (case ins k v q of None \<Rightarrow> None | Some q' \<Rightarrow> iter_insert ins kvs q')"

locale stable_queue =
  fixes inv :: "'q \<Rightarrow> bool"
    and abs :: "'q \<Rightarrow> ('k::linorder \<times> 'v) list"
    and room :: "'q \<Rightarrow> nat"
    and insert :: "'k \<Rightarrow> 'v \<Rightarrow> 'q \<Rightarrow> 'q option"
    and pull :: "'q \<Rightarrow> ('k \<times> 'v) option \<times> 'q"
    and peek :: "'q \<Rightarrow> ('k \<times> 'v) option"
    and clear :: "'q \<Rightarrow> 'q"
  assumes abs_sorted: "inv q \<Longrightarrow> sorted (map fst (abs q))"
    and insert_ok: "inv q \<Longrightarrow> insert k v q = Some q' \<Longrightarrow>
        inv q' \<and> abs q' = stable_insert k v (abs q) \<and> room q = Suc (room q')"
    and insert_room: "inv q \<Longrightarrow> 0 < room q \<Longrightarrow> insert k v q \<noteq> None"
    and pull_empty: "inv q \<Longrightarrow> abs q = [] \<Longrightarrow> pull q = (None, q)"
    and pull_some: "inv q \<Longrightarrow> abs q = kv # rest \<Longrightarrow>
        \<exists>q'. pull q = (Some kv, q') \<and> inv q' \<and> abs q' = rest \<and> room q' = room q"
    and peek_abs: "inv q \<Longrightarrow> peek q = (case abs q of [] \<Rightarrow> None | kv # _ \<Rightarrow> Some kv)"
    and clear_ok: "inv (clear q) \<and> abs (clear q) = []"
begin

lemma iter_pull_abs: "inv q \<Longrightarrow> n \<le> length (abs q) \<Longrightarrow> iter_pull pull n q = map Some (take n (abs q))"
proof (induction n arbitrary: q)
  case (Suc n)
  then obtain kv rest where a: "abs q = kv # rest"
    by (cases "abs q") auto
  then obtain q' where "pull q = (Some kv, q')" "inv q'" "abs q' = rest"
    using pull_some Suc.prems(1) by metis
  with Suc a show ?case by simp
qed simp

lemma iter_insert_ok:
  "inv q \<Longrightarrow> iter_insert insert kvs q = Some q' \<Longrightarrow>
     inv q' \<and> abs q' = fold (\<lambda>(k, v). stable_insert k v) kvs (abs q)"
proof (induction kvs arbitrary: q)
  case (Cons kv kvs)
  obtain k v where kv: "kv = (k, v)" by fastforce
  then obtain q1 where q1: "insert k v q = Some q1" "iter_insert insert kvs q1 = Some q'"
    using Cons.prems(2) by (auto split: option.splits)
  with Cons.IH [of q1] insert_ok [OF Cons.prems(1) q1(1)] kv show ?case
    by simp
qed simp

lemma iter_insert_room: "inv q \<Longrightarrow> length kvs \<le> room q \<Longrightarrow> iter_insert insert kvs q \<noteq> None"
proof (induction kvs arbitrary: q)
  case (Cons kv kvs)
  obtain k v where kv: "kv = (k, v)" by fastforce
  obtain q1 where q1: "insert k v q = Some q1"
    using insert_room [OF Cons.prems(1), of k v] Cons.prems(2) by auto
  then have "inv q1" "length kvs \<le> room q1"
    using insert_ok [OF Cons.prems(1) q1] Cons.prems(2) by auto
  with Cons.IH q1 kv show ?case by simp
qed simp

end

interpretation pq: stable_queue pq_inv pq_abs "\<lambda>q. u64_max - pq_next_epoch q"
    pq_insert pq_pull pq_peek pq_clear
proof (unfold_locales, goal_cases)
  case (1 q)
  then show ?case by (simp add: pq_abs_sorted)
next
  case (2 q k v q')
  have "pq_next_epoch q' \<le> u64_max"
    using pq_insert_abs(1) [OF 2] by (simp add: pq_inv_def)
  with pq_insert_abs [OF 2] show ?case by auto
next
  case (3 q k v)
  then show ?case by (simp add: pq_insert_None_iff)
next
  case (4 q)
  then show ?case by (rule pq_pull_Nil)
next
  case (5 q kv rest)
  then show ?case by (metis pq_pull_Cons)
next
  case (6 q)
  then show ?case by (rule pq_peek_abs)
next
  case (7 q)
  then show ?case by (simp add: pq_inv_def pq_clear_def pq_abs_def pq_sorted_def)
qed

subsection \<open>Properties\<close>

text \<open>C13: Insert any sequence of at most \<open>u64_max\<close> key-value pairs into a new queue, then
  pull as many times: no insertion panics, and the pairs come out as the stable sort of
  the sequence by key, so pairs with equal keys leave in the order of their insertion.\<close>

theorem pq_drain_stable_sort:
  assumes "length kvs \<le> u64_max"
  shows "\<exists>q. iter_insert pq_insert kvs pq_new = Some q \<and>
    iter_pull pq_pull (length kvs) q = map Some (sort_key fst kvs)"
proof -
  have "iter_insert pq_insert kvs pq_new \<noteq> None"
    by (rule pq.iter_insert_room) (use assms in \<open>auto simp: pq_new_def pq_inv_def\<close>)
  then obtain q where q: "iter_insert pq_insert kvs pq_new = Some q"
    by blast
  with pq.iter_insert_ok [OF pq_inv_new q] have "pq_inv q" "pq_abs q = sort_key fst kvs"
    by (simp_all add: fold_stable_insert)
  with q pq.iter_pull_abs [of q "length kvs"] show ?thesis
    by simp
qed

theorem pq_drain_stable_sort_witness:
  "length [(2 :: nat, ''y''), (1, ''a''), (3, ''c''), (2, ''z'')] \<le> u64_max \<and>
   (\<exists>q. iter_insert pq_insert [(2, ''y''), (1, ''a''), (3, ''c''), (2, ''z'')] pq_new = Some q \<and>
      iter_pull pq_pull (length [(2 :: nat, ''y''), (1, ''a''), (3, ''c''), (2, ''z'')]) q
        = [Some (1 :: nat, ''a''), Some (2, ''y''), Some (2, ''z''), Some (3, ''c'')])"
  using pq_drain_stable_sort [of "[(2 :: nat, ''y''), (1, ''a''), (3, ''c''), (2, ''z'')]"]
  by (simp add: u64_max_def del: iter_pull.simps iter_insert.simps)

text \<open>An insertion refines stable insertion into the list of pairs in pull order: the
  invariant (heap order, distinct epochs below the next one) is kept and the new pair is
  placed right behind the pairs whose key is not greater.\<close>

lemma pq_insert_refines:
  assumes "pq_inv q" "pq_insert k v q = Some q'"
  shows "pq_inv q' \<and> pq_abs q' = stable_insert k v (pq_abs q)"
  using pq_insert_abs [OF assms] by simp

text \<open>A pull refines taking the head of that list: nothing when the queue is empty,
  otherwise the first pair, leaving the rest; \<open>peek\<close> shows the pair that \<open>pull\<close> returns.\<close>

lemma pq_pull_refines:
  assumes "pq_inv q"
  shows "pq_peek q = fst (pq_pull q) \<and>
    (case pq_abs q of
       [] \<Rightarrow> pq_pull q = (None, q)
     | kv # rest \<Rightarrow> \<exists>q'. pq_pull q = (Some kv, q') \<and> pq_inv q' \<and> pq_abs q' = rest)"
proof (cases "pq_abs q")
  case Nil
  with assms show ?thesis
    by (simp add: pq_peek_abs pq_pull_Nil)
next
  case (Cons kv rest)
  with assms show ?thesis
    by (auto simp: pq_peek_abs elim: pq_pull_Cons)
qed

end
