(* ===== verification/Scheduler.thy ===== *)
theory Scheduler
  imports Queue_Items Priority_Queue
begin

text \<open>
  Model of \<^verbatim>\<open>src/nexosim/src/simulation/scheduler.rs\<close> and of the scheduling methods of
  \<^verbatim>\<open>src/nexosim/src/model/context.rs\<close>.

  The state that all handles share behind \<open>Arc\<close>s (the locked queue, the simulation time,
  the halt and termination flags) is the record \<open>sched\<close>, together with the flags of the
  event keys and the counter that names fresh reply channels. Every method locks the
  queue before it reads the time, so a method is one atomic step on this state. The
  invariant \<open>sched_inv\<close> says that the queue is well formed and that everything in it lies
  in the strict future, refers to an existing key and has no null period.
\<close>

record ('t, 'a) sched =
  sd_queue :: "('t \<times> nat, 'a queue_item) priority_queue"
  sd_time :: 't
  sd_flags :: key_flags
  sd_replies :: nat
  sd_halted :: bool
  sd_terminated :: bool

datatype scheduling_error = InvalidScheduledTime | NullRepetitionPeriod

type_synonym ('t, 'a, 'x) sched_op = "('t, 'a) sched \<Rightarrow> ((scheduling_error + 'x) \<times> ('t, 'a) sched) exec"

definition global_origin_id :: nat where
  "global_origin_id = usize_max - 1"

definition schedule_from ::
    "('t::linorder) tai \<Rightarrow> 't deadline \<Rightarrow> 'a queue_item \<Rightarrow> nat \<Rightarrow> ('t, 'a, unit) sched_op" where
  "schedule_from T deadline item origin_id s = do {
     time \<leftarrow> into_time T deadline (sd_time s);
     if time \<le> sd_time s then Some (Inl InvalidScheduledTime, s)
     else do {
       q \<leftarrow> pq_insert (time, origin_id) item (sd_queue s);
       Some (Inr (), s\<lparr>sd_queue := q\<rparr>)
     }
   }"

definition schedule_event_from ::
    "('t::linorder) tai \<Rightarrow> 't deadline \<Rightarrow> nat \<Rightarrow> 'a \<Rightarrow> nat \<Rightarrow> ('t, 'a, unit) sched_op" where
  "schedule_event_from T deadline event_id arg origin_id s = do {
     time \<leftarrow> into_time T deadline (sd_time s);
     if time \<le> sd_time s then Some (Inl InvalidScheduledTime, s)
     else do {
       q \<leftarrow> pq_insert (time, origin_id) (QEvent (event_new event_id arg)) (sd_queue s);
       Some (Inr (), s\<lparr>sd_queue := q\<rparr>)
     }
   }"

definition schedule_keyed_event_from ::
    "('t::linorder) tai \<Rightarrow> 't deadline \<Rightarrow> nat \<Rightarrow> 'a \<Rightarrow> nat \<Rightarrow> ('t, 'a, nat) sched_op" where
  "schedule_keyed_event_from T deadline event_id arg origin_id s =
     (let (event_key, flags) = event_key_new (sd_flags s); s = s\<lparr>sd_flags := flags\<rparr> in do {
        time \<leftarrow> into_time T deadline (sd_time s);
        if time \<le> sd_time s then Some (Inl InvalidScheduledTime, s)
        else do {
          q \<leftarrow> pq_insert (time, origin_id) (QEvent (with_key event_key (event_new event_id arg)))
            (sd_queue s);
          Some (Inr event_key, s\<lparr>sd_queue := q\<rparr>)
        }
      })"

definition schedule_periodic_event_from ::
    "('t::linorder) tai \<Rightarrow> 't deadline \<Rightarrow> duration \<Rightarrow> nat \<Rightarrow> 'a \<Rightarrow> nat \<Rightarrow> ('t, 'a, unit) sched_op" where
  "schedule_periodic_event_from T deadline period event_id arg origin_id s =
     (if period = 0 then Some (Inl NullRepetitionPeriod, s)
      else do {
        time \<leftarrow> into_time T deadline (sd_time s);
        if time \<le> sd_time s then Some (Inl InvalidScheduledTime, s)
        else do {
          q \<leftarrow> pq_insert (time, origin_id) (QEvent (with_period period (event_new event_id arg)))
            (sd_queue s);
          Some (Inr (), s\<lparr>sd_queue := q\<rparr>)
        }
      })"

definition schedule_keyed_periodic_event_from ::
    "('t::linorder) tai \<Rightarrow> 't deadline \<Rightarrow> duration \<Rightarrow> nat \<Rightarrow> 'a \<Rightarrow> nat \<Rightarrow> ('t, 'a, nat) sched_op" where
  "schedule_keyed_periodic_event_from T deadline period event_id arg origin_id s =
     (if period = 0 then Some (Inl NullRepetitionPeriod, s)
      else (let (event_key, flags) = event_key_new (sd_flags s); s = s\<lparr>sd_flags := flags\<rparr> in do {
        time \<leftarrow> into_time T deadline (sd_time s);
        if time \<le> sd_time s then Some (Inl InvalidScheduledTime, s)
        else do {
          q \<leftarrow> pq_insert (time, origin_id)
            (QEvent (with_key event_key (with_period period (event_new event_id arg)))) (sd_queue s);
          Some (Inr event_key, s\<lparr>sd_queue := q\<rparr>)
        }
      }))"

definition schedule_query_from ::
    "('t::linorder) tai \<Rightarrow> 't deadline \<Rightarrow> nat \<Rightarrow> 'a \<Rightarrow> nat \<Rightarrow> ('t, 'a, nat) sched_op" where
  "schedule_query_from T deadline query_id arg origin_id s = do {
     time \<leftarrow> into_time T deadline (sd_time s);
     if time \<le> sd_time s then Some (Inl InvalidScheduledTime, s)
     else (let (query, rx) = query_new query_id arg (sd_replies s) in do {
       q \<leftarrow> pq_insert (time, origin_id) (QQuery query) (sd_queue s);
       Some (Inr rx, s\<lparr>sd_queue := q, sd_replies := sd_replies s + 1\<rparr>)
     })
   }"

definition halt :: "('t, 'a) sched \<Rightarrow> ('t, 'a) sched" where
  "halt s = s\<lparr>sd_halted := True\<rparr>"

definition tear_down :: "('t, 'a) sched \<Rightarrow> ('t, 'a) sched" where
  "tear_down s = s\<lparr>sd_terminated := True\<rparr>"

text \<open>The public \<open>Scheduler\<close> handle schedules with the global origin.\<close>

definition scheduler_schedule ::
    "('t::linorder) tai \<Rightarrow> 't deadline \<Rightarrow> 'a queue_item \<Rightarrow> ('t, 'a, unit) sched_op" where
  "scheduler_schedule T deadline item = schedule_from T deadline item global_origin_id"

definition scheduler_schedule_event ::
    "('t::linorder) tai \<Rightarrow> 't deadline \<Rightarrow> nat \<Rightarrow> 'a \<Rightarrow> ('t, 'a, unit) sched_op" where
  "scheduler_schedule_event T deadline event_id arg =
     schedule_event_from T deadline event_id arg global_origin_id"

definition scheduler_schedule_keyed_event ::
    "('t::linorder) tai \<Rightarrow> 't deadline \<Rightarrow> nat \<Rightarrow> 'a \<Rightarrow> ('t, 'a, nat) sched_op" where
  "scheduler_schedule_keyed_event T deadline event_id arg =
     schedule_keyed_event_from T deadline event_id arg global_origin_id"

definition scheduler_schedule_periodic_event ::
    "('t::linorder) tai \<Rightarrow> 't deadline \<Rightarrow> duration \<Rightarrow> nat \<Rightarrow> 'a \<Rightarrow> ('t, 'a, unit) sched_op" where
  "scheduler_schedule_periodic_event T deadline period event_id arg =
     schedule_periodic_event_from T deadline period event_id arg global_origin_id"

definition scheduler_schedule_keyed_periodic_event ::
    "('t::linorder) tai \<Rightarrow> 't deadline \<Rightarrow> duration \<Rightarrow> nat \<Rightarrow> 'a \<Rightarrow> ('t, 'a, nat) sched_op" where
  "scheduler_schedule_keyed_periodic_event T deadline period event_id arg =
     schedule_keyed_periodic_event_from T deadline period event_id arg global_origin_id"

definition scheduler_schedule_query ::
    "('t::linorder) tai \<Rightarrow> 't deadline \<Rightarrow> nat \<Rightarrow> 'a \<Rightarrow> ('t, 'a, nat) sched_op" where
  "scheduler_schedule_query T deadline query_id arg =
     schedule_query_from T deadline query_id arg global_origin_id"

text \<open>A model's \<open>Context\<close> resolves the schedulable identifier and schedules with its own origin.\<close>

record model_context =
  cx_origin_id :: nat
  cx_model_registry :: "64 word list"

definition context_schedule_event ::
    "('t::linorder) tai \<Rightarrow> model_context \<Rightarrow> 't deadline \<Rightarrow> 64 word \<Rightarrow> 'a \<Rightarrow> ('t, 'a, unit) sched_op" where
  "context_schedule_event T cx deadline sid arg s = do {
     i \<leftarrow> source_id sid (cx_model_registry cx);
     schedule_event_from T deadline (unat i) arg (cx_origin_id cx) s
   }"

definition context_schedule_keyed_event ::
    "('t::linorder) tai \<Rightarrow> model_context \<Rightarrow> 't deadline \<Rightarrow> 64 word \<Rightarrow> 'a \<Rightarrow> ('t, 'a, nat) sched_op" where
  "context_schedule_keyed_event T cx deadline sid arg s = do {
     i \<leftarrow> source_id sid (cx_model_registry cx);
     schedule_keyed_event_from T deadline (unat i) arg (cx_origin_id cx) s
   }"

definition context_schedule_periodic_event ::
    "('t::linorder) tai \<Rightarrow> model_context \<Rightarrow> 't deadline \<Rightarrow> duration \<Rightarrow> 64 word \<Rightarrow> 'a \<Rightarrow> ('t, 'a, unit) sched_op" where
  "context_schedule_periodic_event T cx deadline period sid arg s = do {
     i \<leftarrow> source_id sid (cx_model_registry cx);
     schedule_periodic_event_from T deadline period (unat i) arg (cx_origin_id cx) s
   }"

definition context_schedule_keyed_periodic_event ::
    "('t::linorder) tai \<Rightarrow> model_context \<Rightarrow> 't deadline \<Rightarrow> duration \<Rightarrow> 64 word \<Rightarrow> 'a \<Rightarrow> ('t, 'a, nat) sched_op" where
  "context_schedule_keyed_periodic_event T cx deadline period sid arg s = do {
     i \<leftarrow> source_id sid (cx_model_registry cx);
     schedule_keyed_periodic_event_from T deadline period (unat i) arg (cx_origin_id cx) s
   }"

subsection \<open>Invariant\<close>

fun queue_item_ok :: "key_flags \<Rightarrow> 'a queue_item \<Rightarrow> bool" where
  "queue_item_ok flags (QEvent ev) \<longleftrightarrow>
     (case ev_key ev of None \<Rightarrow> True | Some k \<Rightarrow> k < length flags) \<and> ev_period ev \<noteq> Some 0"
| "queue_item_ok flags (QQuery q) \<longleftrightarrow> True"

definition entries_ok :: "'t::linorder \<Rightarrow> key_flags \<Rightarrow> (('t \<times> nat) \<times> 'a queue_item) list \<Rightarrow> bool" where
  "entries_ok now flags xs \<longleftrightarrow> (\<forall>((t, origin_id), item) \<in> set xs. now < t \<and> queue_item_ok flags item)"

definition sched_inv :: "('t::linorder, 'a) sched \<Rightarrow> bool" where
  "sched_inv s \<longleftrightarrow> pq_inv (sd_queue s) \<and> entries_ok (sd_time s) (sd_flags s) (pq_abs (sd_queue s))"

lemma queue_item_ok_grow:
  "queue_item_ok flags item \<Longrightarrow> length flags \<le> length flags' \<Longrightarrow> queue_item_ok flags' item"
  by (cases item) (auto split: option.splits)

lemma entries_ok_grow:
  "entries_ok now flags xs \<Longrightarrow> length flags \<le> length flags' \<Longrightarrow> entries_ok now flags' xs"
  by (fastforce simp: entries_ok_def intro: queue_item_ok_grow)

lemma entries_ok_mset: "mset xs = mset ys \<Longrightarrow> entries_ok now flags xs = entries_ok now flags ys"
  unfolding entries_ok_def by (drule mset_eq_setD) (simp only:)

lemma entries_ok_insert [simp]:
  "entries_ok now flags (stable_insert (t, origin_id) item xs) \<longleftrightarrow>
     now < t \<and> queue_item_ok flags item \<and> entries_ok now flags xs"
proof -
  have "set (stable_insert (t, origin_id) item xs) = insert ((t, origin_id), item) (set xs)"
    using stable_insert_mset [of "(t, origin_id)" item xs]
    by (metis set_mset_add_mset_insert set_mset_mset)
  then show ?thesis by (auto simp: entries_ok_def)
qed

text \<open>What a call of \<open>schedule_from\<close> does on every branch.\<close>

definition scheduled ::
    "'t \<Rightarrow> nat \<Rightarrow> 'a queue_item \<Rightarrow> ('t::linorder, 'a) sched \<Rightarrow> ('t, 'a) sched \<Rightarrow> bool" where
  "scheduled t origin_id item s s' \<longleftrightarrow>
     pq_inv (sd_queue s') \<and> s' = s\<lparr>sd_queue := sd_queue s'\<rparr> \<and>
     pq_abs (sd_queue s') = stable_insert (t, origin_id) item (pq_abs (sd_queue s))"

lemma schedule_from_cases:
  assumes "pq_inv (sd_queue s)"
  shows "(into_time T deadline (sd_time s) = None \<and> schedule_from T deadline item origin_id s = None) \<or>
    (\<exists>t. into_time T deadline (sd_time s) = Some t \<and> t \<le> sd_time s \<and>
       schedule_from T deadline item origin_id s = Some (Inl InvalidScheduledTime, s)) \<or>
    (\<exists>t. into_time T deadline (sd_time s) = Some t \<and> sd_time s < t \<and>
       pq_next_epoch (sd_queue s) = u64_max \<and> schedule_from T deadline item origin_id s = None) \<or>
    (\<exists>t s'. into_time T deadline (sd_time s) = Some t \<and> sd_time s < t \<and>
       pq_next_epoch (sd_queue s) < u64_max \<and>
       schedule_from T deadline item origin_id s = Some (Inr (), s') \<and> scheduled t origin_id item s s')"
proof (cases "into_time T deadline (sd_time s)")
  case None
  then show ?thesis by (simp add: schedule_from_def)
next
  case (Some t)
  show ?thesis
  proof (cases "t \<le> sd_time s")
    case True
    with Some show ?thesis by (simp add: schedule_from_def)
  next
    case False
    show ?thesis
    proof (cases "pq_insert (t, origin_id) item (sd_queue s)")
      case None
      then have "pq_next_epoch (sd_queue s) = u64_max"
        by (simp add: pq_insert_None_iff)
      with None Some False show ?thesis
        by (simp add: schedule_from_def)
    next
      case (Some q)
      have "pq_next_epoch (sd_queue s) < u64_max"
        using assms pq_insert_None_iff [of "(t, origin_id)" item "sd_queue s"] Some
        by (auto simp: pq_inv_def)
      with pq_insert_abs [OF assms Some] Some False \<open>into_time T deadline (sd_time s) = _\<close>
      show ?thesis
        by (simp add: schedule_from_def scheduled_def)
    qed
  qed
qed

lemma schedule_from_Inr:
  assumes "pq_inv (sd_queue s)" "schedule_from T deadline item origin_id s = Some (Inr (), s')"
  obtains t where "into_time T deadline (sd_time s) = Some t" "sd_time s < t"
    "scheduled t origin_id item s s'"
  using schedule_from_cases [OF assms(1), of T deadline item origin_id] assms(2) by auto

lemma schedule_from_Inl:
  assumes "schedule_from T deadline item origin_id s = Some (Inl e, s')"
  shows "s' = s \<and> e = InvalidScheduledTime"
  using assms by (auto simp: schedule_from_def bind_eq_Some_conv split: if_splits)

lemma scheduled_inv:
  assumes "sched_inv s" "scheduled t origin_id item s s'" "sd_time s < t" "queue_item_ok (sd_flags s) item"
  shows "sched_inv s'" "sd_time s' = sd_time s" "sd_flags s' = sd_flags s"
proof -
  have eq: "s' = s\<lparr>sd_queue := sd_queue s'\<rparr>"
    using assms(2) by (simp add: scheduled_def)
  show t: "sd_time s' = sd_time s" and f: "sd_flags s' = sd_flags s"
    by (subst eq, simp)+
  show "sched_inv s'"
    using assms by (simp add: sched_inv_def scheduled_def t f)
qed

lemma schedule_from_inv:
  assumes "sched_inv s" "queue_item_ok (sd_flags s) item"
    and "schedule_from T deadline item origin_id s = Some (r, s')"
  shows "sched_inv s' \<and> sd_time s' = sd_time s \<and> sd_flags s' = sd_flags s"
proof (cases r)
  case (Inl e)
  with assms schedule_from_Inl show ?thesis by blast
next
  case (Inr u)
  have "pq_inv (sd_queue s)"
    using assms(1) by (simp add: sched_inv_def)
  with assms(3) Inr obtain t where "sd_time s < t" "scheduled t origin_id item s s'"
    by (auto elim: schedule_from_Inr)
  with assms(1,2) scheduled_inv show ?thesis by blast
qed

text \<open>All other methods are \<open>schedule_from\<close> with a specific item.\<close>

lemma map_sum_eq_Inr: "map_sum f g r = Inr y \<longleftrightarrow> (\<exists>x. r = Inr x \<and> g x = y)"
  by (cases r) auto

lemma schedule_event_from_eq:
  "schedule_event_from T deadline event_id arg origin_id =
     schedule_from T deadline (QEvent (event_new event_id arg)) origin_id"
  by (simp add: fun_eq_iff schedule_event_from_def schedule_from_def)

lemma schedule_keyed_event_from_eq:
  "schedule_keyed_event_from T deadline event_id arg origin_id s =
     map_option (\<lambda>(r, s'). (map_sum id (\<lambda>_. length (sd_flags s)) r, s'))
       (schedule_from T deadline (QEvent (with_key (length (sd_flags s)) (event_new event_id arg))) origin_id
         (s\<lparr>sd_flags := sd_flags s @ [False]\<rparr>))"
  unfolding schedule_keyed_event_from_def schedule_from_def
  by (cases "into_time T deadline (sd_time s)"; cases "the (into_time T deadline (sd_time s)) \<le> sd_time s";
      cases "pq_insert (the (into_time T deadline (sd_time s)), origin_id)
        (QEvent (with_key (length (sd_flags s)) (event_new event_id arg))) (sd_queue s)")
    (simp_all add: event_key_new_def)

lemma schedule_periodic_event_from_eq:
  "schedule_periodic_event_from T deadline period event_id arg origin_id s =
     (if period = 0 then Some (Inl NullRepetitionPeriod, s)
      else schedule_from T deadline (QEvent (with_period period (event_new event_id arg))) origin_id s)"
  by (simp add: schedule_periodic_event_from_def schedule_from_def)

lemma schedule_keyed_periodic_event_from_eq:
  "schedule_keyed_periodic_event_from T deadline period event_id arg origin_id s =
     (if period = 0 then Some (Inl NullRepetitionPeriod, s)
      else map_option (\<lambda>(r, s'). (map_sum id (\<lambda>_. length (sd_flags s)) r, s'))
        (schedule_from T deadline
          (QEvent (with_key (length (sd_flags s)) (with_period period (event_new event_id arg)))) origin_id
          (s\<lparr>sd_flags := sd_flags s @ [False]\<rparr>)))"
  unfolding schedule_keyed_periodic_event_from_def schedule_from_def
  by (cases "into_time T deadline (sd_time s)"; cases "the (into_time T deadline (sd_time s)) \<le> sd_time s";
      cases "pq_insert (the (into_time T deadline (sd_time s)), origin_id)
        (QEvent (with_key (length (sd_flags s)) (with_period period (event_new event_id arg)))) (sd_queue s)")
    (simp_all add: event_key_new_def)

lemma schedule_query_from_eq:
  "schedule_query_from T deadline query_id arg origin_id s =
     map_option (\<lambda>(r, s'). (map_sum id (\<lambda>_. sd_replies s) r,
         if isl r then s' else s'\<lparr>sd_replies := sd_replies s + 1\<rparr>))
       (schedule_from T deadline (QQuery (fst (query_new query_id arg (sd_replies s)))) origin_id s)"
  unfolding schedule_query_from_def schedule_from_def
  by (cases "into_time T deadline (sd_time s)"; cases "the (into_time T deadline (sd_time s)) \<le> sd_time s";
      cases "pq_insert (the (into_time T deadline (sd_time s)), origin_id)
        (QQuery (fst (query_new query_id arg (sd_replies s)))) (sd_queue s)")
    (simp_all add: query_new_def)

lemmas schedule_eqs =
  schedule_event_from_eq schedule_keyed_event_from_eq schedule_periodic_event_from_eq
  schedule_keyed_periodic_event_from_eq schedule_query_from_eq

subsection \<open>Calls made by models and by other holders of a handle\<close>

datatype ('t, 'a) api_call =
    ApiEvent "'t deadline" nat 'a nat
  | ApiKeyedEvent "'t deadline" nat 'a nat
  | ApiPeriodicEvent "'t deadline" duration nat 'a nat
  | ApiKeyedPeriodicEvent "'t deadline" duration nat 'a nat
  | ApiQuery "'t deadline" nat 'a nat
  | ApiCancel nat
  | ApiHalt
  | ApiTearDown

fun api_exec :: "('t::linorder) tai \<Rightarrow> ('t, 'a) api_call \<Rightarrow> ('t, 'a) sched \<Rightarrow> ('t, 'a) sched exec" where
  "api_exec T (ApiEvent d i a origin_id) s = map_option snd (schedule_event_from T d i a origin_id s)"
| "api_exec T (ApiKeyedEvent d i a origin_id) s =
     map_option snd (schedule_keyed_event_from T d i a origin_id s)"
| "api_exec T (ApiPeriodicEvent d p i a origin_id) s =
     map_option snd (schedule_periodic_event_from T d p i a origin_id s)"
| "api_exec T (ApiKeyedPeriodicEvent d p i a origin_id) s =
     map_option snd (schedule_keyed_periodic_event_from T d p i a origin_id s)"
| "api_exec T (ApiQuery d i a origin_id) s = map_option snd (schedule_query_from T d i a origin_id s)"
| "api_exec T (ApiCancel k) s = Some (s\<lparr>sd_flags := key_cancel k (sd_flags s)\<rparr>)"
| "api_exec T ApiHalt s = Some (halt s)"
| "api_exec T ApiTearDown s = Some (tear_down s)"

fun api_run :: "('t::linorder) tai \<Rightarrow> ('t, 'a) api_call list \<Rightarrow> ('t, 'a) sched \<Rightarrow> ('t, 'a) sched exec" where
  "api_run T [] s = Some s"
| "api_run T (c # cs) s = do { s' \<leftarrow> api_exec T c s; api_run T cs s' }"

lemma sched_inv_flags:
  "sched_inv s \<Longrightarrow> length (sd_flags s) \<le> length flags \<Longrightarrow> sched_inv (s\<lparr>sd_flags := flags\<rparr>)"
  by (auto simp: sched_inv_def intro: entries_ok_grow)

lemma api_exec_inv:
  assumes "sched_inv s" "api_exec T c s = Some s'"
  shows "sched_inv s' \<and> sd_time s' = sd_time s \<and> length (sd_flags s) \<le> length (sd_flags s')"
proof -
  let ?s1 = "s\<lparr>sd_flags := sd_flags s @ [False]\<rparr>"
  have inv1: "sched_inv ?s1"
    using assms(1) by (simp add: sched_inv_flags)
  have key: "queue_item_ok (sd_flags ?s1) (QEvent (with_key (length (sd_flags s)) (event_new i a)))" for i and a :: 'b
    by (simp add: with_key_def event_new_def)
  have kper: "p \<noteq> 0 \<Longrightarrow> queue_item_ok (sd_flags ?s1)
      (QEvent (with_key (length (sd_flags s)) (with_period p (event_new i a))))" for i p and a :: 'b
    by (simp add: with_key_def with_period_def event_new_def)
  show ?thesis
  proof (cases c)
    case (ApiEvent d i a oid)
    then obtain r where "schedule_from T d (QEvent (event_new i a)) oid s = Some (r, s')"
      using assms(2) by (auto simp: schedule_event_from_eq)
    from schedule_from_inv [OF assms(1) _ this] show ?thesis
      by (simp add: event_new_def)
  next
    case (ApiKeyedEvent d i a oid)
    then obtain r where
      "schedule_from T d (QEvent (with_key (length (sd_flags s)) (event_new i a))) oid ?s1 = Some (r, s')"
      using assms(2) by (auto simp: schedule_keyed_event_from_eq)
    from schedule_from_inv [OF inv1 key this] show ?thesis by simp
  next
    case (ApiPeriodicEvent d p i a oid)
    show ?thesis
    proof (cases "p = 0")
      case True
      with ApiPeriodicEvent assms show ?thesis by (simp add: schedule_periodic_event_from_eq)
    next
      case False
      with ApiPeriodicEvent obtain r where
        "schedule_from T d (QEvent (with_period p (event_new i a))) oid s = Some (r, s')"
        using assms(2) by (auto simp: schedule_periodic_event_from_eq)
      from schedule_from_inv [OF assms(1) _ this] False show ?thesis
        by (simp add: event_new_def with_period_def)
    qed
  next
    case (ApiKeyedPeriodicEvent d p i a oid)
    show ?thesis
    proof (cases "p = 0")
      case True
      with ApiKeyedPeriodicEvent assms show ?thesis by (simp add: schedule_keyed_periodic_event_from_eq)
    next
      case False
      with ApiKeyedPeriodicEvent obtain r where
        "schedule_from T d (QEvent (with_key (length (sd_flags s)) (with_period p (event_new i a)))) oid ?s1
          = Some (r, s')"
        using assms(2) by (auto simp: schedule_keyed_periodic_event_from_eq)
      from schedule_from_inv [OF inv1 kper [OF False] this] show ?thesis by simp
    qed
  next
    case (ApiQuery d i a oid)
    then obtain r s2 where
      r: "schedule_from T d (QQuery (fst (query_new i a (sd_replies s)))) oid s = Some (r, s2)"
      and s': "s' = (if isl r then s2 else s2\<lparr>sd_replies := sd_replies s + 1\<rparr>)"
      using assms(2) by (auto simp: schedule_query_from_eq)
    have "sched_inv s2 \<and> sd_time s2 = sd_time s \<and> sd_flags s2 = sd_flags s"
      by (rule schedule_from_inv [OF assms(1) _ r]) simp
    then show ?thesis
      by (auto simp: s' sched_inv_def)
  next
    case (ApiCancel k)
    then have s': "s' = s\<lparr>sd_flags := key_cancel k (sd_flags s)\<rparr>"
      using assms(2) by simp
    show ?thesis
      unfolding s' using sched_inv_flags [OF assms(1), of "key_cancel k (sd_flags s)"]
      by (simp add: key_cancel_def)
  next
    case ApiHalt
    then have s': "s' = halt s"
      using assms(2) by simp
    show ?thesis
      unfolding s' using assms(1) by (simp add: halt_def sched_inv_def)
  next
    case ApiTearDown
    then have s': "s' = tear_down s"
      using assms(2) by simp
    show ?thesis
      unfolding s' using assms(1) by (simp add: tear_down_def sched_inv_def)
  qed
qed

lemma api_run_inv:
  "sched_inv s \<Longrightarrow> api_run T cs s = Some s' \<Longrightarrow>
     sched_inv s' \<and> sd_time s' = sd_time s \<and> length (sd_flags s) \<le> length (sd_flags s')"
proof (induction cs arbitrary: s)
  case (Cons c cs)
  then obtain s1 where "api_exec T c s = Some s1" "api_run T cs s1 = Some s'"
    by (auto simp: bind_eq_Some_conv)
  with Cons api_exec_inv [OF Cons.prems(1)] show ?case by fastforce
qed simp

lemma item_cancelled_grow:
  assumes "queue_item_ok flags item" "k = length flags"
  shows "item_cancelled (key_cancel k (flags @ [False])) item = item_cancelled flags item"
  using assms
  by (cases item)
    (auto simp: event_is_cancelled_def key_is_cancelled_def key_cancel_def nth_append list_update_append
      split: option.splits)

subsection \<open>Properties\<close>

text \<open>Scheduling an event on every branch: it is refused, with nothing changed, when the
  deadline is not in the strict future; otherwise it enters the queue behind all entries
  with the same or an earlier time and an origin not above its own. The call panics only
  when the deadline overflows the time type or after \<open>u64_max\<close> insertions.\<close>

lemma schedule_event_spec:
  assumes "pq_inv (sd_queue s)"
  shows "case into_time T deadline (sd_time s) of
      None \<Rightarrow> schedule_event_from T deadline event_id arg origin_id s = None
    | Some t \<Rightarrow>
        if t \<le> sd_time s
        then schedule_event_from T deadline event_id arg origin_id s = Some (Inl InvalidScheduledTime, s)
        else if pq_next_epoch (sd_queue s) = u64_max
        then schedule_event_from T deadline event_id arg origin_id s = None
        else (\<exists>s'. schedule_event_from T deadline event_id arg origin_id s = Some (Inr (), s') \<and>
          pq_inv (sd_queue s') \<and> s' = s\<lparr>sd_queue := sd_queue s'\<rparr> \<and>
          pq_abs (sd_queue s') =
            stable_insert (t, origin_id) (QEvent (event_new event_id arg)) (pq_abs (sd_queue s)))"
proof (cases "into_time T deadline (sd_time s)")
  case None
  then show ?thesis
    by (simp add: schedule_event_from_def)
next
  case (Some t)
  show ?thesis
    using schedule_from_cases [OF assms, of T deadline "QEvent (event_new event_id arg)" origin_id]
    unfolding schedule_event_from_eq scheduled_def Some option.case
    by (elim disjE exE conjE) (simp, simp, simp, metis less_irrefl not_le option.inject)
qed

text \<open>C17: Whatever calls the holders of scheduler handles make, in whatever order, with whatever
  results, the queue stays well formed and everything in it stays in the strict future of
  the current time, with a non-null period if any.\<close>

theorem api_calls_keep_inv:
  assumes "sched_inv s" "api_run T calls s = Some s'"
  shows "sched_inv s' \<and> sd_time s' = sd_time s"
  using api_run_inv [OF assms] by simp

theorem api_calls_keep_inv_witness:
  "\<exists>s' :: (int, string) sched.
     api_run (ns_tai 100) [ApiEvent (DlTime 4) 0 ''past'' 7, ApiKeyedEvent (DlDuration 3) 0 ''x'' 7,
        ApiCancel 0, ApiHalt]
       \<lparr>sd_queue = pq_new, sd_time = 5, sd_flags = [], sd_replies = 0, sd_halted = False,
        sd_terminated = False\<rparr> = Some s' \<and> sched_inv s' \<and> sd_time s' = 5 \<and> sd_halted s'"
proof -
  let ?s = "\<lparr>sd_queue = pq_new, sd_time = 5, sd_flags = [], sd_replies = 0, sd_halted = False,
     sd_terminated = False\<rparr> :: (int, string) sched"
  let ?c = "[ApiEvent (DlTime 4) 0 ''past'' 7, ApiKeyedEvent (DlDuration 3) 0 ''x'' 7, ApiCancel 0, ApiHalt]"
  have inv: "sched_inv ?s"
    by (simp add: sched_inv_def entries_ok_def)
  obtain s' where r: "api_run (ns_tai 100) ?c ?s = Some s'" "sd_halted s'"
    by (auto simp: schedule_event_from_def schedule_keyed_event_from_def ns_tai_def event_key_new_def
        pq_insert_def pq_new_def u64_max_def halt_def Let_def)
  from api_calls_keep_inv [OF inv r(1)] r show ?thesis by auto
qed

text \<open>C18: A keyed event gets a fresh key: its own entry is live, cancelling the key cancels it, and
  no other entry of the queue is affected.\<close>

theorem keyed_event_cancel_exact:
  assumes "sched_inv s" "schedule_keyed_event_from T deadline event_id arg origin_id s = Some (Inr k, s')"
  shows "\<exists>t. pq_abs (sd_queue s') =
        stable_insert (t, origin_id) (QEvent (with_key k (event_new event_id arg))) (pq_abs (sd_queue s)) \<and>
      \<not> item_cancelled (sd_flags s') (QEvent (with_key k (event_new event_id arg))) \<and>
      item_cancelled (key_cancel k (sd_flags s')) (QEvent (with_key k (event_new event_id arg))) \<and>
      (\<forall>(key, item) \<in> set (pq_abs (sd_queue s)).
         item_cancelled (key_cancel k (sd_flags s')) item = item_cancelled (sd_flags s) item)"
proof -
  let ?s1 = "s\<lparr>sd_flags := sd_flags s @ [False]\<rparr>"
  obtain r where k: "k = length (sd_flags s)" and
    r: "schedule_from T deadline (QEvent (with_key k (event_new event_id arg))) origin_id ?s1 = Some (r, s')"
      "r = Inr ()"
    using assms(2) by (auto simp: schedule_keyed_event_from_eq map_sum_eq_Inr)
  have "pq_inv (sd_queue ?s1)" and e: "entries_ok (sd_time s) (sd_flags s) (pq_abs (sd_queue s))"
    using assms(1) by (simp_all add: sched_inv_def)
  from schedule_from_Inr [OF this(1) r(1) [unfolded r(2)]] obtain t where
    s: "scheduled t origin_id (QEvent (with_key k (event_new event_id arg))) ?s1 s'"
    by blast
  then have abs: "pq_abs (sd_queue s') =
      stable_insert (t, origin_id) (QEvent (with_key k (event_new event_id arg))) (pq_abs (sd_queue s))"
    by (simp add: scheduled_def)
  have "s' = ?s1\<lparr>sd_queue := sd_queue s'\<rparr>"
    using s unfolding scheduled_def by blast
  from arg_cong [OF this, of sd_flags] have flags: "sd_flags s' = sd_flags s @ [False]"
    by simp
  have "item_cancelled (key_cancel k (sd_flags s')) item = item_cancelled (sd_flags s) item"
    if "(key, item) \<in> set (pq_abs (sd_queue s))" for key item
    using that e item_cancelled_grow [OF _ k] by (cases key) (auto simp: entries_ok_def flags)
  moreover have "\<not> item_cancelled (sd_flags s') (QEvent (with_key k (event_new event_id arg)))"
    by (simp add: flags k event_is_cancelled_def with_key_def event_new_def key_is_cancelled_def)
  moreover have "item_cancelled (key_cancel k (sd_flags s')) (QEvent (with_key k (event_new event_id arg)))"
    by (simp add: flags k event_is_cancelled_def with_key_def event_new_def key_is_cancelled_def key_cancel_def)
  ultimately show ?thesis
    using abs by blast
qed

theorem keyed_event_cancel_exact_witness:
  "\<exists>s' :: (int, string) sched.
     schedule_keyed_event_from (ns_tai 100) (DlDuration 3) 0 ''x'' 7
       \<lparr>sd_queue = pq_new, sd_time = 5, sd_flags = [True], sd_replies = 0, sd_halted = False,
        sd_terminated = False\<rparr> = Some (Inr 1, s') \<and>
     item_cancelled (key_cancel 1 (sd_flags s')) (QEvent (with_key 1 (event_new 0 ''x'')))"
proof -
  let ?s = "\<lparr>sd_queue = pq_new, sd_time = 5, sd_flags = [True], sd_replies = 0, sd_halted = False,
     sd_terminated = False\<rparr> :: (int, string) sched"
  have inv: "sched_inv ?s"
    by (simp add: sched_inv_def entries_ok_def)
  obtain s' where r: "schedule_keyed_event_from (ns_tai 100) (DlDuration 3) 0 ''x'' 7 ?s = Some (Inr 1, s')"
    by (auto simp: schedule_keyed_event_from_def ns_tai_def event_key_new_def pq_insert_def pq_new_def
        u64_max_def Let_def)
  from keyed_event_cancel_exact [OF inv r] r show ?thesis by auto
qed

end
