(* ===== verification/Injector.thy ===== *)
theory Injector
  imports Scheduler
begin

text \<open>
  Model of \<^verbatim>\<open>src/nexosim/src/simulation/injector.rs\<close>: the queue of items injected from
  outside, ordered by origin only and, within one origin, by insertion. The generator of
  an \<open>EventInjector\<close> is the function from an argument to the future that sends it.
\<close>

datatype ('a, 'f) injector_item = IEvent "'a event" | IQuery "'a query" | IFuture 'f

type_synonym ('a, 'f) injector_queue = "(nat, ('a, 'f) injector_item) priority_queue"

record ('b, 'f) event_injector =
  ei_origin_id :: nat
  ei_future :: "'b \<Rightarrow> 'f"

definition into_mapped :: "('u \<Rightarrow> 'b) \<Rightarrow> ('b, 'f) event_injector \<Rightarrow> ('u, 'f) event_injector" where
  "into_mapped map_fn ij = \<lparr>ei_origin_id = ei_origin_id ij, ei_future = (\<lambda>arg. ei_future ij (map_fn arg))\<rparr>"

definition event_injector_inject ::
    "('b, 'f) event_injector \<Rightarrow> 'b \<Rightarrow> ('a, 'f) injector_queue \<Rightarrow> ('a, 'f) injector_queue exec" where
  "event_injector_inject ij arg q = pq_insert (ei_origin_id ij) (IFuture (ei_future ij arg)) q"

definition model_injector_inject_event ::
    "model_context \<Rightarrow> 64 word \<Rightarrow> 'a \<Rightarrow> ('a, 'f) injector_queue \<Rightarrow> ('a, 'f) injector_queue exec" where
  "model_injector_inject_event cx sid arg q = do {
     i \<leftarrow> source_id sid (cx_model_registry cx);
     pq_insert (cx_origin_id cx) (IEvent (event_new (unat i) arg)) q
   }"

definition inject_built_event :: "'a event \<Rightarrow> ('a, 'f) injector_queue \<Rightarrow> ('a, 'f) injector_queue exec" where
  "inject_built_event ev q = pq_insert global_origin_id (IEvent ev) q"

definition injector_inject_event ::
    "nat \<Rightarrow> 'a \<Rightarrow> ('a, 'f) injector_queue \<Rightarrow> ('a, 'f) injector_queue exec" where
  "injector_inject_event event_id arg q = inject_built_event (event_new event_id arg) q"

definition inject_query ::
    "nat \<Rightarrow> 'a \<Rightarrow> nat \<times> ('a, 'f) injector_queue \<Rightarrow> (nat \<times> nat \<times> ('a, 'f) injector_queue) exec" where
  "inject_query query_id arg st =
     (let (replies, q) = st; (query, rx) = query_new query_id arg replies in
      do { q' \<leftarrow> pq_insert global_origin_id (IQuery query) q; Some (rx, replies + 1, q') })"

lemma into_mapped_inject:
  "event_injector_inject (into_mapped g (into_mapped f ij)) arg q =
     event_injector_inject ij (f (g arg)) q"
  by (simp add: event_injector_inject_def into_mapped_def)

end
