(* ===== verification/Simulation_Step.thy ===== *)
theory Simulation_Step
  imports Injector
begin

text \<open>
  Model of the helper functions of \<^verbatim>\<open>src/nexosim/src/simulation.rs\<close> that turn queue items
  into futures: \<open>peek_next_key\<close>, \<open>handle_scheduler_step\<close> and \<open>handle_injector_step\<close>. A
  \<open>SeqFuture\<close> is the list of its futures and \<open>spawn_and_forget\<close> appends such a list to the
  list of spawned tasks. The loops of \<open>handle_scheduler_step\<close> run for ever on a null
  period, so they are partial functions whose value \<open>None\<close> covers a panic and divergence;
  the lemmas show that they return.

  The lemmas describe both functions on the abstract value of the queue, the list of
  entries in pull order: \<open>batch\<close> is the list of live entries at a time, \<open>runs\<close> groups it by
  origin, \<open>reinserts\<close> puts the periodic ones back.
\<close>

type_synonym ('t, 'a) squeue = "('t \<times> nat, 'a queue_item) priority_queue"
type_synonym ('t, 'a) entry = "('t \<times> nat) \<times> 'a queue_item"

subsection \<open>Pulling shortens the queue\<close>

lemma bh_sift_up_length [simp]: "length (bh_sift_up le xs p x) = length xs"
proof (induction p arbitrary: xs rule: less_induct)
  case (less p)
  show ?case
  proof (cases "0 < p \<and> \<not> le x (xs ! ((p - 1) div 2))")
    case True
    have "length (bh_sift_up le (xs[p := xs ! ((p - 1) div 2)]) ((p - 1) div 2) x) =
        length (xs[p := xs ! ((p - 1) div 2)])"
      by (rule less.IH) (use True in simp)
    with True show ?thesis
      using bh_sift_up_move [of p le x xs] by simp
  next
    case False
    then show ?thesis
      using bh_sift_up_stop [of p le x xs] by auto
  qed
qed

lemma bh_sift_to_bottom_length: "length (fst (bh_sift_to_bottom le xs p)) = length xs"
proof (induction le xs p rule: bh_sift_to_bottom.induct)
  case (1 le xs p)
  then show ?case
    by (subst bh_sift_to_bottom.simps) (simp add: Let_def)
qed

lemma bh_pop_length: "bh_pop le xs = Some (x, ys) \<Longrightarrow> length ys < length xs"
  using bh_sift_to_bottom_length [of le "butlast xs" 0]
  by (auto simp: bh_pop_def Let_def split: if_splits prod.splits)

lemma pq_pull_length: "pq_pull q = (Some kv, q') \<Longrightarrow> length (pq_heap q') < length (pq_heap q)"
  by (auto simp: pq_pull_def dest: bh_pop_length split: option.splits)

lemma pq_peek_pull_length:
  "pq_peek q = Some kv \<Longrightarrow> length (pq_heap (snd (pq_pull q))) < length (pq_heap q)"
proof -
  assume "pq_peek q = Some kv"
  then have "pq_heap q \<noteq> []"
    by (auto simp: pq_peek_def bh_peek_def)
  then have "bh_pop item_le (pq_heap q) \<noteq> None"
    by (auto simp: bh_pop_def Let_def split: prod.splits)
  then obtain it h where "bh_pop item_le (pq_heap q) = Some (it, h)"
    by auto
  then show ?thesis
    using bh_pop_length [of item_le "pq_heap q" it h] by (simp add: pq_pull_def)
qed

subsection \<open>The functions\<close>

function peek_next_key ::
    "key_flags \<Rightarrow> ('t::linorder, 'a) squeue \<Rightarrow> 't \<Rightarrow> ('t \<times> nat) option \<times> ('t, 'a) squeue" where
  "peek_next_key flags q bound =
     (case pq_peek q of
        Some (key, item) \<Rightarrow>
          if fst key \<le> bound then
            (if (case item of QEvent ev \<Rightarrow> event_is_cancelled flags ev | QQuery _ \<Rightarrow> False)
             then peek_next_key flags (snd (pq_pull q)) bound
             else (Some key, q))
          else (None, q)
      | None \<Rightarrow> (None, q))"
  by pat_completeness auto
termination
  by (relation "measure (\<lambda>(flags, q, bound). length (pq_heap q))") (auto dest: pq_peek_pull_length)

declare peek_next_key.simps [simp del]

text \<open>The future of one item pulled at \<open>(time, origin_id)\<close>, a periodic event being scheduled anew.\<close>

definition item_fire ::
    "('t::linorder) tai \<Rightarrow> ('a, 'f, 't, 'p) registry \<Rightarrow> 't \<times> nat \<Rightarrow> 'a queue_item \<Rightarrow> ('t, 'a) squeue
      \<Rightarrow> ((('t, 'p) execution_error + 'f) \<times> ('t, 'a) squeue) exec" where
  "item_fire T r key item q =
     (case item of
        QEvent ev \<Rightarrow>
          (case get_event_source (ev_id ev) r of
             None \<Rightarrow> Some (Inl (InvalidEventId (ev_id ev)), q)
           | Some source \<Rightarrow>
               (case ev_period ev of
                  Some period \<Rightarrow>
                    (case es_future_borrowed source (ev_arg ev) (ev_key ev) of
                       Inl e \<Rightarrow> Some (Inl e, q)
                     | Inr fut \<Rightarrow> do {
                         time \<leftarrow> tai_add T (fst key) period;
                         q' \<leftarrow> pq_insert (time, snd key) (QEvent ev) q;
                         Some (Inr fut, q')
                       })
                | None \<Rightarrow> Some (es_future_owned source (ev_arg ev) (ev_key ev), q)))
      | QQuery query \<Rightarrow>
          (case get_query_source (qu_id query) r of
             None \<Rightarrow> Some (Inl (InvalidQueryId (qu_id query)), q)
           | Some source \<Rightarrow> Some (qs_future source (qu_arg query) (qu_replier query), q)))"

text \<open>The inner loop collects the futures of one origin and returns the key it stopped at.\<close>

partial_function (option) same_origin_loop ::
    "('t::linorder) tai \<Rightarrow> ('a, 'f, 't, 'p) registry \<Rightarrow> key_flags \<Rightarrow> ('t \<times> nat) option \<Rightarrow> 'f list
      \<Rightarrow> ('t, 'a) squeue
      \<Rightarrow> ((('t, 'p) execution_error + ('t \<times> nat) option \<times> 'f list) \<times> ('t, 'a) squeue) exec" where
  "same_origin_loop T r flags next_key event_seq q =
     (case pq_pull q of
        (None, _) \<Rightarrow> None
      | (Some (key, item), q1) \<Rightarrow>
          Option.bind (item_fire T r key item q1) (\<lambda>(res, q2).
            case res of
              Inl e \<Rightarrow> Some (Inl e, q2)
            | Inr fut \<Rightarrow>
                (let (key', q3) = peek_next_key flags q2 (fst key) in
                 if key' \<noteq> next_key then Some (Inr (key', event_seq @ [fut]), q3)
                 else same_origin_loop T r flags next_key (event_seq @ [fut]) q3)))"

partial_function (option) origins_loop ::
    "('t::linorder) tai \<Rightarrow> ('a, 'f, 't, 'p) registry \<Rightarrow> key_flags \<Rightarrow> ('t \<times> nat) option \<Rightarrow> 'f list list
      \<Rightarrow> ('t, 'a) squeue
      \<Rightarrow> ((('t, 'p) execution_error + bool) \<times> 'f list list \<times> ('t, 'a) squeue) exec" where
  "origins_loop T r flags next_key spawned q =
     (if next_key = None then Some (Inr True, spawned, q)
      else Option.bind (same_origin_loop T r flags next_key [] q) (\<lambda>(res, q').
        case res of
          Inl e \<Rightarrow> Some (Inl e, spawned, q')
        | Inr (key, event_seq) \<Rightarrow> origins_loop T r flags key (spawned @ [event_seq]) q'))"

definition handle_scheduler_step ::
    "('t::linorder) tai \<Rightarrow> ('a, 'f, 't, 'p) registry \<Rightarrow> key_flags \<Rightarrow> ('t \<times> nat) option \<Rightarrow> 't \<Rightarrow> 'f list list
      \<Rightarrow> ('t, 'a) squeue
      \<Rightarrow> ((('t, 'p) execution_error + bool) \<times> 'f list list \<times> ('t, 'a) squeue) exec" where
  "handle_scheduler_step T r flags next_key time spawned q =
     (if (case next_key of Some (t, _) \<Rightarrow> t = time | None \<Rightarrow> False)
      then origins_loop T r flags next_key spawned q
      else Some (Inr False, spawned, q))"

definition injector_fire ::
    "('a, 'f, 't, 'p) registry \<Rightarrow> ('a, 'f) injector_item \<Rightarrow> ('t, 'p) execution_error + 'f" where
  "injector_fire r item =
     (case item of
        IEvent ev \<Rightarrow> (case get_event_source (ev_id ev) r of
            None \<Rightarrow> Inl (InvalidEventId (ev_id ev))
          | Some source \<Rightarrow> es_future_owned source (ev_arg ev) (ev_key ev))
      | IQuery query \<Rightarrow> (case get_query_source (qu_id query) r of
            None \<Rightarrow> Inl (InvalidQueryId (qu_id query))
          | Some source \<Rightarrow> qs_future source (qu_arg query) (qu_replier query))
      | IFuture fut \<Rightarrow> Inr fut)"

function injector_loop ::
    "('a, 'f, 't, 'p) registry \<Rightarrow> nat \<Rightarrow> 'f list \<Rightarrow> 'f list list \<Rightarrow> ('a, 'f) injector_queue
      \<Rightarrow> (('t, 'p) execution_error + 'f list) \<times> 'f list list \<times> ('a, 'f) injector_queue" where
  "injector_loop r origin_id event_seq spawned q =
     (case pq_pull q of
        (None, q') \<Rightarrow> (Inr event_seq, spawned, q')
      | (Some (i, item), q') \<Rightarrow>
          (case injector_fire r item of
             Inl e \<Rightarrow> (Inl e, spawned, q')
           | Inr fut \<Rightarrow>
               if i \<noteq> origin_id then injector_loop r i [fut] (spawned @ [event_seq]) q'
               else injector_loop r origin_id (event_seq @ [fut]) spawned q'))"
  by pat_completeness auto
termination
  by (relation "measure (\<lambda>(r, origin_id, event_seq, spawned, q). length (pq_heap q))")
    (auto dest!: sym [of _ "pq_pull _"] dest: pq_pull_length)

declare injector_loop.simps [simp del]

definition handle_injector_step ::
    "('a, 'f, 't, 'p) registry \<Rightarrow> 'f list list \<Rightarrow> ('a, 'f) injector_queue
      \<Rightarrow> (('t, 'p) execution_error + bool) \<times> 'f list list \<times> ('a, 'f) injector_queue" where
  "handle_injector_step r spawned q =
     (case pq_peek q of
        None \<Rightarrow> (Inr False, spawned, q)
      | Some (origin_id, _) \<Rightarrow>
          (case injector_loop r origin_id [] spawned q of
             (Inl e, spawned', q') \<Rightarrow> (Inl e, spawned', q')
           | (Inr event_seq, spawned', q') \<Rightarrow> (Inr True, spawned' @ [event_seq], q')))"

subsection \<open>Entries of a time\<close>

definition batch :: "key_flags \<Rightarrow> 't \<Rightarrow> ('t, 'a) entry list \<Rightarrow> ('t, 'a) entry list" where
  "batch flags t xs = filter (\<lambda>(key, item). fst key = t \<and> \<not> item_cancelled flags item) xs"

definition later :: "'t::linorder \<Rightarrow> ('t, 'a) entry list \<Rightarrow> ('t, 'a) entry list" where
  "later t xs = filter (\<lambda>(key, item). t < fst key) xs"

definition fut_of :: "('a, 'f, 't, 'p) registry \<Rightarrow> 'a queue_item \<Rightarrow> ('t, 'p) execution_error + 'f" where
  "fut_of r item =
     (case item of
        QEvent ev \<Rightarrow> (case get_event_source (ev_id ev) r of
            None \<Rightarrow> Inl (InvalidEventId (ev_id ev))
          | Some source \<Rightarrow> (if ev_period ev = None then es_future_owned source else es_future_borrowed source)
              (ev_arg ev) (ev_key ev))
      | QQuery query \<Rightarrow> (case get_query_source (qu_id query) r of
            None \<Rightarrow> Inl (InvalidQueryId (qu_id query))
          | Some source \<Rightarrow> qs_future source (qu_arg query) (qu_replier query)))"

fun item_period :: "'a queue_item \<Rightarrow> duration option" where
  "item_period (QEvent ev) = ev_period ev"
| "item_period (QQuery q) = None"

definition reinsert ::
    "('t::linorder) tai \<Rightarrow> ('t, 'a) entry \<Rightarrow> ('t, 'a) entry list \<Rightarrow> ('t, 'a) entry list" where
  "reinsert T e xs =
     (case item_period (snd e) of
        None \<Rightarrow> xs
      | Some p \<Rightarrow> stable_insert (the (tai_add T (fst (fst e)) p), snd (fst e)) (snd e) xs)"

text \<open>An entry can fire: its source builds a future, and a period leads to a later time.\<close>

definition can_fire :: "('t::linorder) tai \<Rightarrow> ('a, 'f, 't, 'p) registry \<Rightarrow> ('t, 'a) entry \<Rightarrow> bool" where
  "can_fire T r e \<longleftrightarrow>
     \<not> isl (fut_of r (snd e)) \<and>
     (case item_period (snd e) of
        None \<Rightarrow> True
      | Some p \<Rightarrow> (case tai_add T (fst (fst e)) p of None \<Rightarrow> False | Some t' \<Rightarrow> fst (fst e) < t'))"

abbreviation entry_fut :: "('a, 'f, 't, 'p) registry \<Rightarrow> ('t, 'a) entry \<Rightarrow> 'f" where
  "entry_fut r e \<equiv> projr (fut_of r (snd e))"

text \<open>Grouping neighbours with the same key.\<close>

function runs_by :: "('e \<Rightarrow> 'k) \<Rightarrow> 'e list \<Rightarrow> 'e list list" where
  "runs_by g [] = []"
| "runs_by g (e # es) =
     (e # takeWhile (\<lambda>e'. g e' = g e) es) # runs_by g (dropWhile (\<lambda>e'. g e' = g e) es)"
  by pat_completeness auto
termination
  by (relation "measure (\<lambda>(g, es). length es)") (auto simp: le_imp_less_Suc length_dropWhile_le)

abbreviation runs :: "('t, 'a) entry list \<Rightarrow> ('t, 'a) entry list list" where
  "runs \<equiv> runs_by (\<lambda>e. snd (fst e))"

lemma concat_runs [simp]: "concat (runs_by g es) = es"
  by (induction g es rule: runs_by.induct) simp_all

lemma runs_by_same: "xs \<in> set (runs_by g es) \<Longrightarrow> xs \<noteq> [] \<and> (\<forall>x \<in> set xs. g x = g (hd xs))"
proof (induction g es rule: runs_by.induct)
  case (2 g e es)
  have same: "g x = g e" if "x \<in> set (takeWhile (\<lambda>e'. g e' = g e) es)" for x
    using set_takeWhileD [OF that] by (rule conjunct2)
  have "xs = e # takeWhile (\<lambda>e'. g e' = g e) es \<or> xs \<in> set (runs_by g (dropWhile (\<lambda>e'. g e' = g e) es))"
    using "2.prems" by (simp only: runs_by.simps list.set insert_iff)
  then show ?case
  proof
    assume xs: "xs = e # takeWhile (\<lambda>e'. g e' = g e) es"
    show ?thesis
      unfolding xs list.sel list.set by (intro conjI list.distinct(2)) (blast dest: same)
  qed (rule "2.IH")
qed simp

lemma remdups_adj_dropWhile: "remdups_adj (k # ks) = k # remdups_adj (dropWhile (\<lambda>x. x = k) ks)"
  by (induction ks) auto

lemma runs_by_keys: "map (g \<circ> hd) (runs_by g es) = remdups_adj (map g es)"
proof (induction g es rule: runs_by.induct)
  case (2 g e es)
  show ?case
    using 2 unfolding list.map remdups_adj_dropWhile runs_by.simps
    by (simp only: dropWhile_map comp_def list.sel list.map)
qed simp

lemma distinct_remdups_adj: "sorted xs \<Longrightarrow> distinct (remdups_adj (xs :: 'k::linorder list))"
proof (induction xs rule: remdups_adj.induct)
  case (3 x y xs)
  show ?case
  proof (cases "x = y")
    case False
    then have "x < y" "\<forall>z \<in> set xs. y \<le> z"
      using 3(3) by (simp_all add: order.strict_iff_order)
    then have "x \<notin> set (y # xs)"
      by fastforce
    with False 3 show ?thesis
      by simp
  qed (use 3 in simp)
qed simp_all

lemma runs_by_distinct:
  "sorted (map g es) \<Longrightarrow> distinct (map (g \<circ> hd) (runs_by (g :: 'e \<Rightarrow> 'k::linorder) es))"
  unfolding runs_by_keys by (rule distinct_remdups_adj)

subsection \<open>Insertion and filters\<close>

lemma stable_insert_sorted_form:
  assumes "sorted (map fst xs)"
  shows "stable_insert k v xs = filter (\<lambda>x. fst x \<le> k) xs @ (k, v) # filter (\<lambda>x. \<not> fst x \<le> k) xs"
proof -
  let ?P = "\<lambda>x. fst x \<le> k"
  note s = takeWhile_dropWhile_sorted [OF assms, of k]
  have "filter ?P (takeWhile ?P xs) = takeWhile ?P xs" "filter ?P (dropWhile ?P xs) = []"
    "filter (\<lambda>x. \<not> ?P x) (takeWhile ?P xs) = []" "filter (\<lambda>x. \<not> ?P x) (dropWhile ?P xs) = dropWhile ?P xs"
    using s by (auto simp: filter_id_conv filter_empty_conv not_le)
  then have "filter ?P (takeWhile ?P xs @ dropWhile ?P xs) = takeWhile ?P xs"
    "filter (\<lambda>x. \<not> ?P x) (takeWhile ?P xs @ dropWhile ?P xs) = dropWhile ?P xs"
    by (simp_all only: filter_append append_Nil append_Nil2)
  then show ?thesis
    by (simp add: stable_insert_def)
qed

lemma filter_stable_insert_out:
  "\<not> P (k, v) \<Longrightarrow> filter P (stable_insert k v xs) = filter P xs"
proof -
  assume "\<not> P (k, v)"
  then have "filter P (stable_insert k v xs) =
      filter P (takeWhile (\<lambda>kv. fst kv \<le> k) xs) @ filter P (dropWhile (\<lambda>kv. fst kv \<le> k) xs)"
    by (simp add: stable_insert_def)
  also have "\<dots> = filter P (takeWhile (\<lambda>kv. fst kv \<le> k) xs @ dropWhile (\<lambda>kv. fst kv \<le> k) xs)"
    by (rule filter_append [symmetric])
  finally show ?thesis
    by (simp only: takeWhile_dropWhile_id)
qed

lemma filter_stable_insert_in:
  assumes "sorted (map fst xs)" "P (k, v)"
  shows "filter P (stable_insert k v xs) = stable_insert k v (filter P xs)"
proof -
  have "sorted (map fst (filter P xs))"
    using assms(1) by (rule sorted_filter)
  then show ?thesis
    using assms by (simp add: stable_insert_sorted_form conj_commute)
qed

lemma batch_reinsert [simp]:
  assumes "can_fire T r e" "fst (fst e) = t"
  shows "batch flags t (reinsert T e xs) = batch flags t xs"
proof (cases "item_period (snd e)")
  case (Some p)
  with assms obtain t' where "tai_add T t p = Some t'" "t < t'"
    by (auto simp: can_fire_def split: option.splits)
  moreover from this have "t' \<noteq> t" by simp
  ultimately show ?thesis
    unfolding batch_def reinsert_def using Some assms(2) by (simp add: filter_stable_insert_out)
qed (simp add: reinsert_def)

lemma later_reinsert:
  assumes "can_fire T r e" "fst (fst e) = t" "sorted (map fst xs)"
  shows "later t (reinsert T e xs) = reinsert T e (later t xs)"
proof (cases "item_period (snd e)")
  case (Some p)
  with assms obtain t' where "tai_add T t p = Some t'" "t < t'"
    by (auto simp: can_fire_def split: option.splits)
  with Some assms(2,3) show ?thesis
    unfolding later_def reinsert_def by (simp add: filter_stable_insert_in)
qed (simp add: reinsert_def)

lemma reinsert_set:
  assumes "can_fire T r e" "fst (fst e) = t" "x \<in> set (reinsert T e xs)"
  shows "x \<in> set xs \<or> x = (fst x, snd e) \<and> t < fst (fst x)"
proof (cases "item_period (snd e)")
  case None
  with assms show ?thesis by (simp add: reinsert_def)
next
  case (Some p)
  with assms(1,2) obtain t' where t': "tai_add T t p = Some t'" "t < t'"
    by (auto simp: can_fire_def split: option.splits)
  have "set (stable_insert (t', snd (fst e)) (snd e) xs) = insert ((t', snd (fst e)), snd e) (set xs)"
    using stable_insert_mset [of "(t', snd (fst e))" "snd e" xs]
    by (metis set_mset_add_mset_insert set_mset_mset)
  with assms(2,3) Some t' show ?thesis
    by (auto simp: reinsert_def)
qed

subsection \<open>Discarding cancelled entries\<close>

abbreviation stale :: "key_flags \<Rightarrow> 't::linorder \<Rightarrow> ('t, 'a) entry \<Rightarrow> bool" where
  "stale flags b e \<equiv> fst (fst e) \<le> b \<and> item_cancelled flags (snd e)"

lemma cancelled_case:
  "(case item of QEvent ev \<Rightarrow> event_is_cancelled flags ev | QQuery _ \<Rightarrow> False) = item_cancelled flags item"
  by (cases item) auto

lemma peek_next_key_abs:
  assumes "pq_inv q" "peek_next_key flags q b = (k, q')"
  shows "pq_inv q' \<and> pq_next_epoch q' = pq_next_epoch q \<and>
    pq_abs q' = dropWhile (stale flags b) (pq_abs q) \<and>
    k = (case pq_abs q' of [] \<Rightarrow> None | e # _ \<Rightarrow> if fst (fst e) \<le> b then Some (fst e) else None)"
  using assms
proof (induction flags q b arbitrary: k q' rule: peek_next_key.induct)
  case (1 flags q b)
  show ?case
  proof (cases "pq_abs q")
    case Nil
    then have "pq_peek q = None"
      using pq_peek_abs [OF "1.prems"(1)] by simp
    with Nil "1.prems" show ?thesis
      by (simp add: peek_next_key.simps [of flags q b])
  next
    case (Cons e rest)
    obtain key item where e: "e = (key, item)" by fastforce
    have peek: "pq_peek q = Some (key, item)"
      using pq_peek_abs [OF "1.prems"(1)] Cons e by simp
    obtain q1 where q1: "pq_pull q = (Some e, q1)" "pq_inv q1" "pq_abs q1 = rest"
      "pq_next_epoch q1 = pq_next_epoch q"
      using pq_pull_Cons [OF "1.prems"(1) Cons] by blast
    show ?thesis
    proof (cases "stale flags b e")
      case True
      then have "peek_next_key flags q1 b = (k, q')"
        using "1.prems"(2) peek e q1(1)
        by (subst (asm) peek_next_key.simps) (simp add: cancelled_case)
      with "1.IH" [OF peek refl] True q1 e Cons show ?thesis
        by (simp add: cancelled_case)
    next
      case False
      then have "q' = q" "k = (if fst key \<le> b then Some key else None)"
        using "1.prems"(2) peek e
        by (subst (asm) (3) peek_next_key.simps | subst (asm) peek_next_key.simps,
            auto simp: cancelled_case split: if_splits)+
      with False "1.prems"(1) Cons e show ?thesis by simp
    qed
  qed
qed

subsection \<open>One item\<close>

lemma item_fire_eq:
  "item_fire T r key item q =
     (case fut_of r item of
        Inl e \<Rightarrow> Some (Inl e, q)
      | Inr f \<Rightarrow> (case item_period item of
          None \<Rightarrow> Some (Inr f, q)
        | Some p \<Rightarrow> do { time \<leftarrow> tai_add T (fst key) p; q' \<leftarrow> pq_insert (time, snd key) item q; Some (Inr f, q') }))"
  by (cases item) (auto simp: item_fire_def fut_of_def split: option.splits sum.splits)

lemma item_fire_ok:
  assumes "pq_inv q" "can_fire T r (key, item)" "pq_next_epoch q < u64_max"
  shows "\<exists>q'. item_fire T r key item q = Some (Inr (entry_fut r (key, item)), q') \<and> pq_inv q' \<and>
    pq_abs q' = reinsert T (key, item) (pq_abs q) \<and> pq_next_epoch q' \<le> pq_next_epoch q + 1"
proof -
  obtain f where f: "fut_of r item = Inr f"
    using assms(2) by (cases "fut_of r item") (auto simp: can_fire_def)
  show ?thesis
  proof (cases "item_period item")
    case None
    with f assms(1) show ?thesis by (simp add: item_fire_eq reinsert_def)
  next
    case (Some p)
    with assms(2) obtain t' where t': "tai_add T (fst key) p = Some t'"
      by (auto simp: can_fire_def split: option.splits)
    obtain q' where q': "pq_insert (t', snd key) item q = Some q'"
      using pq_insert_Some [OF assms(3)] by blast
    with Some f t' pq_insert_abs [OF assms(1) q'] show ?thesis
      by (simp add: item_fire_eq reinsert_def)
  qed
qed

subsection \<open>The loops\<close>

text \<open>The queue is ready at \<open>t\<close>: nothing is earlier, and the first entry is the first live one at
  \<open>t\<close>, or there is none and everything is later.\<close>

definition ready :: "key_flags \<Rightarrow> 't::linorder \<Rightarrow> ('t, 'a) entry list \<Rightarrow> bool" where
  "ready flags t xs \<longleftrightarrow> (\<forall>e \<in> set xs. t \<le> fst (fst e)) \<and>
     (case batch flags t xs of [] \<Rightarrow> later t xs = xs | e # _ \<Rightarrow> xs \<noteq> [] \<and> hd xs = e)"

definition first_key :: "('t, 'a) entry list \<Rightarrow> ('t \<times> nat) option" where
  "first_key es = (case es of [] \<Rightarrow> None | e # _ \<Rightarrow> Some (fst e))"

lemma batch_stale: "batch flags t (dropWhile (stale flags b) xs) = batch flags t xs"
  by (induction xs) (auto simp: batch_def)

lemma later_stale: "later t (dropWhile (stale flags t) xs) = later t xs"
  by (induction xs) (auto simp: later_def)

lemma batch_time: "e \<in> set (batch flags t xs) \<Longrightarrow> fst (fst e) = t"
  by (auto simp: batch_def)

lemma peek_ready:
  assumes "pq_inv q" "peek_next_key flags q t = (k, q')" "\<forall>e \<in> set (pq_abs q). t \<le> fst (fst e)"
  shows "pq_inv q' \<and> pq_next_epoch q' = pq_next_epoch q \<and> ready flags t (pq_abs q') \<and>
    batch flags t (pq_abs q') = batch flags t (pq_abs q) \<and> later t (pq_abs q') = later t (pq_abs q) \<and>
    k = first_key (batch flags t (pq_abs q))"
proof -
  note p = peek_next_key_abs [OF assms(1,2)]
  then have abs: "pq_abs q' = dropWhile (stale flags t) (pq_abs q)"
    and k: "k = (case pq_abs q' of [] \<Rightarrow> None | e # _ \<Rightarrow> if fst (fst e) \<le> t then Some (fst e) else None)"
    by blast+
  have b: "batch flags t (pq_abs q') = batch flags t (pq_abs q)"
    and l: "later t (pq_abs q') = later t (pq_abs q)"
    by (simp_all only: abs batch_stale later_stale)
  have ge: "\<forall>e \<in> set (pq_abs q'). t \<le> fst (fst e)"
    using assms(3) by (auto simp: abs dest: set_dropWhileD)
  have "ready flags t (pq_abs q') \<and> k = first_key (batch flags t (pq_abs q'))"
  proof (cases "pq_abs q'")
    case Nil
    then show ?thesis by (simp add: ready_def batch_def later_def k first_key_def)
  next
    case (Cons e rest)
    have "\<not> stale flags t e"
      using Cons unfolding abs dropWhile_eq_Cons_conv by blast
    show ?thesis
    proof (cases "fst (fst e) = t")
      case True
      then have "batch flags t (pq_abs q') = e # batch flags t rest"
        using \<open>\<not> stale flags t e\<close> Cons by (cases e) (auto simp: batch_def)
      with True Cons ge show ?thesis
        by (simp add: ready_def k first_key_def)
    next
      case False
      then have "t < fst (fst e)"
        using ge Cons by auto
      moreover have "sorted (map fst (pq_abs q'))"
        by (rule pq_abs_sorted)
      ultimately have gt: "\<forall>x \<in> set (pq_abs q'). t < fst (fst x)"
        using Cons by (fastforce simp: less_eq_prod_def)
      then have "batch flags t (pq_abs q') = []" "later t (pq_abs q') = pq_abs q'"
        by (auto simp: batch_def later_def filter_empty_conv filter_id_conv)
      with gt Cons ge show ?thesis
        by (auto simp: ready_def k first_key_def)
    qed
  qed
  with p b l show ?thesis by simp
qed

text \<open>What the loops need of the queue, and keep.\<close>

definition step_ok ::
    "('t::linorder) tai \<Rightarrow> ('a, 'f, 't, 'p) registry \<Rightarrow> key_flags \<Rightarrow> 't \<Rightarrow> ('t, 'a) squeue \<Rightarrow> bool" where
  "step_ok T r flags t q \<longleftrightarrow>
     pq_inv q \<and> ready flags t (pq_abs q) \<and> (\<forall>e \<in> set (batch flags t (pq_abs q)). can_fire T r e) \<and>
     pq_next_epoch q + length (batch flags t (pq_abs q)) \<le> u64_max"

text \<open>One iteration of the inner loop.\<close>

lemma same_origin_step:
  assumes ok: "step_ok T r flags t q" and b: "batch flags t (pq_abs q) = e # es"
  shows "\<exists>q'. step_ok T r flags t q' \<and> batch flags t (pq_abs q') = es \<and>
    later t (pq_abs q') = reinsert T e (later t (pq_abs q)) \<and>
    same_origin_loop T r flags nk seq q =
      (if first_key es \<noteq> nk then Some (Inr (first_key es, seq @ [entry_fut r e]), q')
       else same_origin_loop T r flags nk (seq @ [entry_fut r e]) q')"
proof -
  obtain key item where e: "e = (key, item)" by fastforce
  have inv: "pq_inv q" and ge: "\<forall>x \<in> set (pq_abs q). t \<le> fst (fst x)" and cf: "can_fire T r e"
    and room: "pq_next_epoch q + length (e # es) \<le> u64_max" and kt: "fst key = t"
    using ok b batch_time [of e flags t "pq_abs q"] by (auto simp: step_ok_def ready_def e)
  obtain rest where abs: "pq_abs q = e # rest"
    using ok b by (cases "pq_abs q") (auto simp: step_ok_def ready_def)
  obtain q1 where q1: "pq_pull q = (Some e, q1)" "pq_inv q1" "pq_abs q1 = rest"
    "pq_next_epoch q1 = pq_next_epoch q"
    using pq_pull_Cons [OF inv abs] by blast
  have "can_fire T r (key, item)" "pq_next_epoch q1 < u64_max"
    using cf room q1(4) by (simp_all add: e)
  from item_fire_ok [OF q1(2) this] obtain q2 where
    q2: "item_fire T r key item q1 = Some (Inr (entry_fut r e), q2)" "pq_inv q2"
      "pq_abs q2 = reinsert T e rest" "pq_next_epoch q2 \<le> pq_next_epoch q + 1"
    using q1(3,4) e by auto
  have "e \<in> set (batch flags t (pq_abs q))"
    using b by simp
  then have "\<not> item_cancelled flags item"
    by (simp add: batch_def e)
  then have bes: "batch flags t rest = es"
    using b abs kt by (simp add: batch_def e)
  have later_rest: "later t (pq_abs q) = later t rest"
    using kt by (simp add: abs later_def e)
  have sorted: "sorted (map fst rest)"
    using pq_abs_sorted [of q1] q1(3) by simp
  have ge2: "\<forall>x \<in> set (pq_abs q2). t \<le> fst (fst x)"
  proof
    fix x
    assume "x \<in> set (pq_abs q2)"
    then have "x \<in> set rest \<or> x = (fst x, snd e) \<and> t < fst (fst x)"
      unfolding q2(3) by (intro reinsert_set [OF cf]) (simp_all add: e kt)
    then show "t \<le> fst (fst x)"
      using ge abs by auto
  qed
  obtain k q3 where pk: "peek_next_key flags q2 t = (k, q3)"
    by fastforce
  note r3 = peek_ready [OF q2(2) pk ge2]
  have b3: "batch flags t (pq_abs q2) = es"
    using bes batch_reinsert [OF cf, of t flags rest] kt by (simp add: q2(3) e)
  have l3: "later t (pq_abs q2) = reinsert T e (later t (pq_abs q))"
    using later_reinsert [OF cf _ sorted, of t] kt by (simp add: q2(3) e later_rest)
  have "step_ok T r flags t q3"
    using r3 b3 ok b room q2(4) by (auto simp: step_ok_def)
  moreover have "same_origin_loop T r flags nk seq q =
      (if first_key es \<noteq> nk then Some (Inr (first_key es, seq @ [entry_fut r e]), q3)
       else same_origin_loop T r flags nk (seq @ [entry_fut r e]) q3)"
    using q1(1) q2(1) pk r3 b3 kt by (subst same_origin_loop.simps) (simp add: e)
  ultimately show ?thesis
    using r3 b3 l3 by auto
qed

abbreviation same_origin :: "('t, 'a) entry \<Rightarrow> ('t, 'a) entry \<Rightarrow> bool" where
  "same_origin e e' \<equiv> snd (fst e') = snd (fst e)"

lemma first_key_same:
  assumes "\<forall>x \<in> set (e # es). fst (fst x) = t"
  shows "first_key es = Some (fst e) \<longleftrightarrow> es \<noteq> [] \<and> same_origin e (hd es)"
  using assms by (cases es) (auto simp: first_key_def prod_eq_iff)

lemma same_origin_loop_ok:
  assumes "step_ok T r flags t q" "batch flags t (pq_abs q) = e # es"
  shows "\<exists>q'. step_ok T r flags t q' \<and>
    batch flags t (pq_abs q') = dropWhile (same_origin e) es \<and>
    later t (pq_abs q') = fold (reinsert T) (e # takeWhile (same_origin e) es) (later t (pq_abs q)) \<and>
    same_origin_loop T r flags (Some (fst e)) seq q =
      Some (Inr (first_key (dropWhile (same_origin e) es),
        seq @ map (entry_fut r) (e # takeWhile (same_origin e) es)), q')"
  using assms
proof (induction es arbitrary: q e seq)
  case Nil
  from same_origin_step [OF Nil, of "Some (fst e)" seq] show ?case
    by (auto simp: first_key_def)
next
  case (Cons e' es)
  from same_origin_step [OF Cons.prems, of "Some (fst e)" seq] obtain q1 where
    q1: "step_ok T r flags t q1" "batch flags t (pq_abs q1) = e' # es"
      "later t (pq_abs q1) = reinsert T e (later t (pq_abs q))"
      "same_origin_loop T r flags (Some (fst e)) seq q =
        (if first_key (e' # es) \<noteq> Some (fst e) then Some (Inr (first_key (e' # es), seq @ [entry_fut r e]), q1)
         else same_origin_loop T r flags (Some (fst e)) (seq @ [entry_fut r e]) q1)"
    by blast
  have times: "\<forall>x \<in> set (e # e' # es). fst (fst x) = t"
    using batch_time [of _ flags t "pq_abs q"] Cons.prems(2) by auto
  show ?case
  proof (cases "same_origin e e'")
    case True
    then have "fst e' = fst e"
      using times by (auto simp: prod_eq_iff)
    with Cons.IH [OF q1(1,2), of "seq @ [entry_fut r e]"] q1(3,4) True show ?thesis
      by (simp add: first_key_def)
  next
    case False
    with first_key_same [OF times] q1 show ?thesis
      by auto
  qed
qed

lemma origins_loop_ok:
  assumes "step_ok T r flags t q"
  shows "\<exists>q'. step_ok T r flags t q' \<and> batch flags t (pq_abs q') = [] \<and>
    later t (pq_abs q') = fold (reinsert T) (batch flags t (pq_abs q)) (later t (pq_abs q)) \<and>
    origins_loop T r flags (first_key (batch flags t (pq_abs q))) spawned q =
      Some (Inr True, spawned @ map (map (entry_fut r)) (runs (batch flags t (pq_abs q))), q')"
  using assms
proof (induction "length (batch flags t (pq_abs q))" arbitrary: q spawned rule: less_induct)
  case less
  show ?case
  proof (cases "batch flags t (pq_abs q)")
    case Nil
    with less.prems show ?thesis
      by (subst origins_loop.simps) (auto simp: first_key_def)
  next
    case (Cons e es)
    from same_origin_loop_ok [OF less.prems Cons, of "[]"] obtain q1 where
      q1: "step_ok T r flags t q1" "batch flags t (pq_abs q1) = dropWhile (same_origin e) es"
        "later t (pq_abs q1) = fold (reinsert T) (e # takeWhile (same_origin e) es) (later t (pq_abs q))"
        "same_origin_loop T r flags (Some (fst e)) [] q =
          Some (Inr (first_key (dropWhile (same_origin e) es),
            map (entry_fut r) (e # takeWhile (same_origin e) es)), q1)"
      by auto
    have "length (batch flags t (pq_abs q1)) < length (batch flags t (pq_abs q))"
      using Cons q1(2) length_dropWhile_le [of "same_origin e" es] by simp
    from less.hyps [OF this q1(1), of "spawned @ [map (entry_fut r) (e # takeWhile (same_origin e) es)]"]
    obtain q' where
      q': "step_ok T r flags t q'" "batch flags t (pq_abs q') = []"
        "later t (pq_abs q') = fold (reinsert T) (batch flags t (pq_abs q1)) (later t (pq_abs q1))"
        "origins_loop T r flags (first_key (batch flags t (pq_abs q1)))
            (spawned @ [map (entry_fut r) (e # takeWhile (same_origin e) es)]) q1 =
          Some (Inr True, spawned @ [map (entry_fut r) (e # takeWhile (same_origin e) es)] @
            map (map (entry_fut r)) (runs (batch flags t (pq_abs q1))), q')"
      by auto
    have "later t (pq_abs q') = fold (reinsert T) (batch flags t (pq_abs q)) (later t (pq_abs q))"
      unfolding q'(3) q1(2,3) Cons fold_append [symmetric, THEN fun_cong, unfolded comp_def]
      by simp
    moreover have "origins_loop T r flags (first_key (batch flags t (pq_abs q))) spawned q =
        Some (Inr True, spawned @ map (map (entry_fut r)) (runs (batch flags t (pq_abs q))), q')"
      using q1(4) q'(4) by (subst origins_loop.simps) (simp add: Cons first_key_def q1(2))
    ultimately show ?thesis
      using q'(1,2) by blast
  qed
qed

lemma step_ok_done: "step_ok T r flags t q \<Longrightarrow> batch flags t (pq_abs q) = [] \<Longrightarrow> later t (pq_abs q) = pq_abs q"
  by (simp add: step_ok_def ready_def)

text \<open>The whole scheduler step, from the first live key at \<open>t\<close>.\<close>

lemma handle_scheduler_step_ok:
  assumes "step_ok T r flags t q" "batch flags t (pq_abs q) \<noteq> []"
  shows "\<exists>q'. pq_inv q' \<and>
    pq_abs q' = fold (reinsert T) (batch flags t (pq_abs q)) (later t (pq_abs q)) \<and>
    handle_scheduler_step T r flags (first_key (batch flags t (pq_abs q))) t spawned q =
      Some (Inr True, spawned @ map (map (entry_fut r)) (runs (batch flags t (pq_abs q))), q')"
proof -
  obtain e es where b: "batch flags t (pq_abs q) = e # es"
    using assms(2) by (cases "batch flags t (pq_abs q)") auto
  then have "fst (fst e) = t"
    using batch_time [of e flags t "pq_abs q"] by simp
  with b have "(case first_key (batch flags t (pq_abs q)) of Some (u, _) \<Rightarrow> u = t | None \<Rightarrow> False)"
    by (cases "fst e") (simp add: first_key_def)
  then show ?thesis
    using origins_loop_ok [OF assms(1), of spawned] step_ok_done
    by (fastforce simp: handle_scheduler_step_def step_ok_def)
qed

subsection \<open>What the scheduler step keeps, whatever the items do\<close>

definition queue_from :: "('a queue_item \<Rightarrow> bool) \<Rightarrow> 't::linorder \<Rightarrow> ('t, 'a) squeue \<Rightarrow> bool" where
  "queue_from P t q \<longleftrightarrow> pq_inv q \<and> (\<forall>e \<in> set (pq_abs q). t \<le> fst (fst e) \<and> P (snd e))"

lemma tai_add_later:
  assumes "tai_laws T" "0 < p" "tai_add T t p = Some t'"
  shows "t < t'"
  using assms tai_add_Some [OF assms(1,3)] tai_less_iff [OF assms(1)] by simp

lemma set_stable_insert: "set (stable_insert k v xs) = insert (k, v) (set xs)"
  using stable_insert_mset [of k v xs] by (metis set_mset_add_mset_insert set_mset_mset)

lemma item_fire_from:
  assumes "tai_laws T" "queue_from P (fst key) q" "P item" "item_period item \<noteq> Some 0"
    and "item_fire T r key item q = Some (res, q')"
  shows "queue_from P (fst key) q'"
proof (cases "fut_of r item")
  case (Inl e)
  with assms show ?thesis by (simp add: item_fire_eq)
next
  case (Inr f)
  show ?thesis
  proof (cases "item_period item")
    case None
    with Inr assms show ?thesis by (simp add: item_fire_eq)
  next
    case (Some p)
    with Inr assms(5) obtain t' where t': "tai_add T (fst key) p = Some t'"
      and ins: "pq_insert (t', snd key) item q = Some q'"
      by (auto simp: item_fire_eq bind_eq_Some_conv)
    have "0 < p"
      using Some assms(4) by simp
    then have "fst key < t'"
      using tai_add_later [OF assms(1) _ t'] by simp
    moreover have "pq_inv q'" "pq_abs q' = stable_insert (t', snd key) item (pq_abs q)"
      using pq_insert_abs [OF _ ins] assms(2) by (simp_all add: queue_from_def)
    ultimately show ?thesis
      using assms(2,3) by (auto simp: queue_from_def set_stable_insert)
  qed
qed

text \<open>The key that \<open>peek_next_key\<close> returns names the head of the queue.\<close>

definition head_key :: "'t::linorder \<Rightarrow> ('t, 'a) entry list \<Rightarrow> ('t \<times> nat) option" where
  "head_key t xs = (case xs of [] \<Rightarrow> None | e # _ \<Rightarrow> if fst (fst e) \<le> t then Some (fst e) else None)"

lemma peek_from:
  assumes "queue_from P t q" "peek_next_key flags q b = (k, q')"
  shows "queue_from P t q' \<and> k = head_key b (pq_abs q') \<and> set (pq_abs q') \<subseteq> set (pq_abs q) \<and>
    pq_next_epoch q' = pq_next_epoch q"
  using assms peek_next_key_abs [OF _ assms(2)]
  by (auto simp: queue_from_def head_key_def dest: set_dropWhileD)

lemma head_key_from:
  assumes "queue_from P t q" "head_key t (pq_abs q) = Some key"
  shows "fst key = t \<and> (\<exists>item rest. pq_abs q = (key, item) # rest)"
  using assms by (cases "pq_abs q") (auto simp: head_key_def queue_from_def split: if_splits)

lemma head_key_None:
  assumes "head_key t (pq_abs q) = None" "e \<in> set (pq_abs q)"
  shows "t < fst (fst e)"
proof -
  have "sorted (map fst (pq_abs q))"
    by (rule pq_abs_sorted)
  moreover obtain e1 rest where "pq_abs q = e1 # rest" "t < fst (fst e1)"
    using assms by (cases "pq_abs q") (auto simp: head_key_def split: if_splits)
  ultimately show ?thesis
    using assms(2) by (fastforce simp: less_eq_prod_def)
qed

lemma same_origin_loop_from:
  assumes laws: "tai_laws T" and per: "\<And>item. P item \<Longrightarrow> item_period item \<noteq> Some 0"
    and run: "same_origin_loop T r flags (Some (t, origin_id)) seq q = Some (res, q')"
    and fr: "queue_from P t q" "head_key t (pq_abs q) \<noteq> None"
  shows "queue_from P t q' \<and> (\<forall>k seq'. res = Inr (k, seq') \<longrightarrow> k = head_key t (pq_abs q')) \<and>
    (isl res \<longrightarrow> (\<exists>item. P item \<and> isl (fut_of r item)))"
proof -
  let ?Q = "\<lambda>T r flags nk seq q y. tai_laws T \<longrightarrow> nk = Some (t, origin_id) \<longrightarrow> queue_from P t q \<longrightarrow>
    head_key t (pq_abs q) \<noteq> None \<longrightarrow> queue_from P t (snd y) \<and>
    (\<forall>k seq'. fst y = Inr (k, seq') \<longrightarrow> k = head_key t (pq_abs (snd y))) \<and>
    (isl (fst y) \<longrightarrow> (\<exists>item. P item \<and> isl (fut_of r item)))"
  have "?Q T r flags (Some (t, origin_id)) seq q (res, q')"
  proof (rule same_origin_loop.raw_induct [OF _ run, of ?Q], intro impI, goal_cases)
    case (1 loop T r flags nk seq q y)
    obtain key where k: "head_key t (pq_abs q) = Some key"
      using 1(6) by blast
    obtain item rest where h: "pq_abs q = (key, item) # rest" "fst key = t"
      using head_key_from [OF 1(5) k] by blast
    have inv: "pq_inv q" and item: "P item"
      using 1(5) h(1) by (simp_all add: queue_from_def)
    obtain q1 where q1: "pq_pull q = (Some (key, item), q1)" "pq_inv q1" "pq_abs q1 = rest"
      using pq_pull_Cons [OF inv h(1)] by metis
    have from1: "queue_from P (fst key) q1"
      using 1(5) h q1 by (simp add: queue_from_def)
    obtain fres q2 where fire: "item_fire T r key item q1 = Some (fres, q2)"
      using 1(2) q1(1) by (auto simp: bind_eq_Some_conv)
    have from2: "queue_from P t q2"
      using item_fire_from [OF 1(3) from1 item per [OF item] fire] h(2) by simp
    obtain k' q3 where pk: "peek_next_key flags q2 t = (k', q3)"
      by fastforce
    note from3 = peek_from [OF from2 pk]
    show ?case
    proof (cases fres)
      case (Inl e)
      then have "isl (fut_of r item)"
        using fire by (cases "fut_of r item") (auto simp: item_fire_eq bind_eq_Some_conv split: option.splits)
      with Inl 1(2) q1(1) fire from2 item show ?thesis by auto
    next
      case (Inr f)
      show ?thesis
      proof (cases "k' = nk")
        case False
        with Inr 1(2) q1(1) fire pk h(2) from3 show ?thesis by auto
      next
        case True
        then have "loop T r flags nk (seq @ [f]) q3 = Some y"
          using Inr 1(2) q1(1) fire pk h(2) by simp
        moreover have "head_key t (pq_abs q3) = Some (t, origin_id)"
          using from3 True 1(4) by simp
        ultimately show ?thesis
          using 1(1) 1(3,4) from3 by simp
      qed
    qed
  qed
  with laws fr show ?thesis by simp
qed

lemma origins_loop_from:
  assumes laws: "tai_laws T" and per: "\<And>item. P item \<Longrightarrow> item_period item \<noteq> Some 0"
    and run: "origins_loop T r flags (head_key t (pq_abs q)) spawned q = Some (res, spawned', q')"
    and fr: "queue_from P t q"
  shows "queue_from P t q' \<and> (\<not> isl res \<longrightarrow> res = Inr True \<and> head_key t (pq_abs q') = None) \<and>
    (isl res \<longrightarrow> (\<exists>item. P item \<and> isl (fut_of r item)))"
proof -
  let ?Q = "\<lambda>T r flags nk spawned q y. tai_laws T \<longrightarrow> nk = head_key t (pq_abs q) \<longrightarrow> queue_from P t q \<longrightarrow>
    queue_from P t (snd (snd y)) \<and>
    (\<not> isl (fst y) \<longrightarrow> fst y = Inr True \<and> head_key t (pq_abs (snd (snd y))) = None) \<and>
    (isl (fst y) \<longrightarrow> (\<exists>item. P item \<and> isl (fut_of r item)))"
  have "?Q T r flags (head_key t (pq_abs q)) spawned q (res, spawned', q')"
  proof (rule origins_loop.raw_induct [OF _ run, of ?Q], intro impI, goal_cases)
    case (1 loop T r flags nk spawned q y)
    show ?case
    proof (cases nk)
      case None
      with 1(2,4,5) show ?thesis by auto
    next
      case (Some key)
      with 1(4) have k: "head_key t (pq_abs q) = Some key" by simp
      have key: "key = (t, snd key)"
        using head_key_from [OF 1(5) k] by (simp add: prod_eq_iff)
      obtain ires q1 where run1: "same_origin_loop T r flags (Some (t, snd key)) [] q = Some (ires, q1)"
        using 1(2) Some key by (auto simp: bind_eq_Some_conv)
      have k': "head_key t (pq_abs q) \<noteq> None"
        using k by simp
      note from1 = same_origin_loop_from [OF 1(3) per run1 1(5) k']
      show ?thesis
      proof (cases ires)
        case (Inl e)
        with 1(2) Some key run1 from1 show ?thesis by auto
      next
        case (Inr ks)
        obtain k1 es where ks: "ks = (k1, es)" by fastforce
        have "loop T r flags k1 (spawned @ [es]) q1 = Some y"
          using 1(2) Some key run1 Inr ks by auto
        from 1(1) [OF this] 1(3) from1 Inr ks show ?thesis by auto
      qed
    qed
  qed
  with laws fr show ?thesis by simp
qed

lemma handle_scheduler_step_from:
  assumes "tai_laws T" "\<And>item. P item \<Longrightarrow> item_period item \<noteq> Some 0" "queue_from P t q"
    and "handle_scheduler_step T r flags k t spawned q = Some (res, spawned', q')"
    and "k = head_key b (pq_abs q)" "t \<le> b"
  shows "queue_from P t q' \<and> (\<not> isl res \<longrightarrow> (\<forall>e \<in> set (pq_abs q'). t < fst (fst e))) \<and>
    (isl res \<longrightarrow> (\<exists>item. P item \<and> isl (fut_of r item)))"
proof (cases "case k of Some (u, _) \<Rightarrow> u = t | None \<Rightarrow> False")
  case True
  then have k: "k = head_key t (pq_abs q)"
    using assms(5) by (cases "pq_abs q") (auto simp: head_key_def split: if_splits)
  from True assms(4) have "origins_loop T r flags (head_key t (pq_abs q)) spawned q = Some (res, spawned', q')"
    by (simp add: handle_scheduler_step_def k)
  from origins_loop_from [OF assms(1,2) this assms(3)] show ?thesis
    using head_key_None by blast
next
  case False
  then have "q' = q" "res = Inr False"
    using assms(4) by (auto simp: handle_scheduler_step_def)
  moreover have "head_key t (pq_abs q) = None"
  proof (rule ccontr)
    assume "head_key t (pq_abs q) \<noteq> None"
    then obtain key where key: "head_key t (pq_abs q) = Some key"
      by blast
    then have "fst key = t" "k = Some key"
      using head_key_from [OF assms(3) key] assms(5,6) by (auto simp: head_key_def)
    with False show False
      by (cases key) simp
  qed
  ultimately show ?thesis
    using assms(3) head_key_None [of t q] by simp
qed

subsection \<open>The injector step\<close>

abbreviation injector_fut :: "('a, 'f, 't, 'p) registry \<Rightarrow> nat \<times> ('a, 'f) injector_item \<Rightarrow> 'f" where
  "injector_fut r e \<equiv> projr (injector_fire r (snd e))"

lemma injector_loop_ok:
  assumes "pq_inv q" "\<forall>e \<in> set (pq_abs q). \<not> isl (injector_fire r (snd e))"
  shows "\<exists>seq' spawned' q'. injector_loop r i seq spawned q = (Inr seq', spawned', q') \<and>
    pq_inv q' \<and> pq_abs q' = [] \<and>
    spawned' @ [seq'] = spawned @ [seq @ map (injector_fut r) (takeWhile (\<lambda>e. fst e = i) (pq_abs q))] @
      map (map (injector_fut r)) (runs_by fst (dropWhile (\<lambda>e. fst e = i) (pq_abs q)))"
  using assms
proof (induction "pq_abs q" arbitrary: q i seq spawned)
  case Nil
  then have "pq_pull q = (None, q)"
    by (simp add: pq_pull_Nil)
  with Nil show ?case
    by (subst injector_loop.simps) simp
next
  case (Cons e es)
  obtain j item where e: "e = (j, item)" by fastforce
  obtain q1 where q1: "pq_pull q = (Some e, q1)" "pq_inv q1" "pq_abs q1 = es"
    using pq_pull_Cons [OF Cons.prems(1) Cons.hyps(2) [symmetric]] by metis
  obtain f where f: "injector_fire r item = Inr f"
    using Cons.prems(2) Cons.hyps(2) [symmetric] e by (cases "injector_fire r item") auto
  have ok: "\<forall>e \<in> set (pq_abs q1). \<not> isl (injector_fire r (snd e))"
    using Cons.prems(2) Cons.hyps(2) [symmetric] q1(3) by simp
  note IH = Cons.hyps(1) [OF q1(3) [symmetric] q1(2) ok]
  show ?case
  proof (cases "j = i")
    case True
    have "injector_loop r i seq spawned q = injector_loop r i (seq @ [f]) spawned q1"
      by (subst injector_loop.simps) (simp add: q1(1) e f True)
    with IH [of i "seq @ [f]" spawned] show ?thesis
      by (simp add: Cons.hyps(2) [symmetric] q1(3) e f True)
  next
    case False
    have "injector_loop r i seq spawned q = injector_loop r j [f] (spawned @ [seq]) q1"
      by (subst injector_loop.simps) (simp add: q1(1) e f False)
    with IH [of j "[f]" "spawned @ [seq]"] show ?thesis
      by (simp add: Cons.hyps(2) [symmetric] q1(3) e f False)
  qed
qed

lemma handle_injector_step_ok:
  assumes "pq_inv q" "\<forall>e \<in> set (pq_abs q). \<not> isl (injector_fire r (snd e))"
  shows "\<exists>q'. pq_inv q' \<and> pq_abs q' = [] \<and> handle_injector_step r spawned q =
    (Inr (pq_abs q \<noteq> []), spawned @ map (map (injector_fut r)) (runs_by fst (pq_abs q)), q')"
proof (cases "pq_abs q")
  case Nil
  then have "pq_peek q = None"
    by (simp add: pq_peek_abs [OF assms(1)])
  with Nil assms show ?thesis
    by (simp add: handle_injector_step_def)
next
  case (Cons e es)
  obtain i item where e: "e = (i, item)" by fastforce
  have "pq_peek q = Some (i, item)"
    by (simp add: pq_peek_abs [OF assms(1)] Cons e)
  with injector_loop_ok [OF assms, of i "[]" spawned] show ?thesis
    by (auto simp: handle_injector_step_def Cons e)
qed

subsection \<open>From the peek to the end of the scheduler step\<close>

lemma dropWhile_stale_batch:
  assumes "sorted (map fst xs)" "\<forall>e \<in> set xs. t \<le> fst (fst e)" "batch flags t xs \<noteq> []" "t \<le> b"
  shows "dropWhile (stale flags b) xs = dropWhile (stale flags t) xs"
  using assms
proof (induction xs)
  case (Cons x xs)
  show ?case
  proof (cases "fst (fst x) = t")
    case True
    with Cons show ?thesis
      by (cases x; cases "item_cancelled flags (snd x)") (auto simp: batch_def)
  next
    case False
    then have "t < fst (fst x)"
      using Cons.prems(2) by auto
    then have "\<forall>e \<in> set (x # xs). t < fst (fst e)"
      using Cons.prems(1) by (fastforce simp: less_eq_prod_def)
    then have "batch flags t (x # xs) = []"
      unfolding batch_def filter_empty_conv by fastforce
    with Cons.prems(3) show ?thesis by simp
  qed
qed simp

lemma peek_batch:
  assumes "pq_inv q" "\<forall>e \<in> set (pq_abs q). t \<le> fst (fst e)" "batch flags t (pq_abs q) \<noteq> []" "t \<le> b"
    and "peek_next_key flags q b = (k, q1)"
  shows "pq_inv q1 \<and> pq_next_epoch q1 = pq_next_epoch q \<and> ready flags t (pq_abs q1) \<and>
    batch flags t (pq_abs q1) = batch flags t (pq_abs q) \<and> later t (pq_abs q1) = later t (pq_abs q) \<and>
    k = first_key (batch flags t (pq_abs q))"
proof -
  obtain k2 q2 where p2: "peek_next_key flags q t = (k2, q2)" by fastforce
  note r2 = peek_ready [OF assms(1) p2 assms(2)]
  note a1 = peek_next_key_abs [OF assms(1,5)] and a2 = peek_next_key_abs [OF assms(1) p2]
  have eq: "pq_abs q1 = pq_abs q2"
    using a1 a2 dropWhile_stale_batch [OF pq_abs_sorted assms(2-4)] by simp
  obtain e es where b: "batch flags t (pq_abs q) = e # es"
    using assms(3) by (cases "batch flags t (pq_abs q)") auto
  then obtain rest where "pq_abs q1 = e # rest"
    using r2 eq by (cases "pq_abs q2") (auto simp: ready_def)
  moreover have "fst (fst e) = t"
    using b batch_time [of e flags t "pq_abs q"] by simp
  ultimately have "k = Some (fst e)"
    using a1 assms(4) by simp
  with a1 r2 eq b show ?thesis
    by (simp add: first_key_def)
qed

lemma scheduler_step_batch:
  assumes "pq_inv q" "\<forall>e \<in> set (pq_abs q). t \<le> fst (fst e)" "batch flags t (pq_abs q) \<noteq> []" "t \<le> b"
    and "peek_next_key flags q b = (k, q1)"
    and "\<forall>e \<in> set (batch flags t (pq_abs q)). can_fire T r e"
    and "pq_next_epoch q + length (batch flags t (pq_abs q)) \<le> u64_max"
  shows "\<exists>q'. handle_scheduler_step T r flags k t spawned q1 =
      Some (Inr True, spawned @ map (map (entry_fut r)) (runs (batch flags t (pq_abs q))), q') \<and>
    pq_inv q' \<and> pq_abs q' = fold (reinsert T) (batch flags t (pq_abs q)) (later t (pq_abs q))"
proof -
  note p = peek_batch [OF assms(1-5)]
  then have "step_ok T r flags t q1"
    using assms(6,7) by (simp add: step_ok_def)
  from handle_scheduler_step_ok [OF this] p assms(3) show ?thesis
    by auto
qed

lemma batch_sorted_origin: "sorted (map (\<lambda>e. snd (fst e)) (batch flags t (pq_abs q)))"
proof -
  have "sorted (map fst (batch flags t (pq_abs q)))"
    unfolding batch_def using pq_abs_sorted [of q] by (rule sorted_filter)
  then have "sorted_wrt (\<lambda>x y. fst x \<le> fst y) (batch flags t (pq_abs q))"
    by (simp add: sorted_map)
  then have "sorted_wrt (\<lambda>x y. snd (fst x) \<le> snd (fst y)) (batch flags t (pq_abs q))"
    by (rule sorted_wrt_mono_rel [rotated]) (auto simp: less_eq_prod_def dest!: batch_time)
  then show ?thesis
    by (simp add: sorted_map)
qed

subsection \<open>Properties\<close>

text \<open>A scheduler step at time \<open>t\<close> fires exactly the entries scheduled for \<open>t\<close> that are not
  cancelled, each once: one sequential future is spawned per origin, in the order of the
  origins, and inside it the entries are in the order in which they were scheduled. The
  periodic ones are scheduled again one period later, everything else that was later stays
  in the queue, and nothing else remains.\<close>

lemma scheduler_step_fires_batch:
  assumes "pq_inv q" "\<forall>e \<in> set (pq_abs q). t \<le> fst (fst e)" "batch flags t (pq_abs q) \<noteq> []" "t \<le> b"
    and "peek_next_key flags q b = (k, q1)"
    and "\<forall>e \<in> set (batch flags t (pq_abs q)). can_fire T r e"
    and "pq_next_epoch q + length (batch flags t (pq_abs q)) \<le> u64_max"
  shows "\<exists>q' groups. handle_scheduler_step T r flags k t spawned q1 =
      Some (Inr True, spawned @ map (map (entry_fut r)) groups, q') \<and>
    concat groups = batch flags t (pq_abs q) \<and>
    (\<forall>g \<in> set groups. g \<noteq> [] \<and> (\<forall>e \<in> set g. snd (fst e) = snd (fst (hd g)))) \<and>
    distinct (map (\<lambda>g. snd (fst (hd g))) groups) \<and>
    pq_inv q' \<and> pq_abs q' = fold (reinsert T) (batch flags t (pq_abs q)) (later t (pq_abs q))"
proof -
  let ?g = "runs (batch flags t (pq_abs q))"
  have "distinct (map ((\<lambda>e. snd (fst e)) \<circ> hd) ?g)"
    by (rule runs_by_distinct [OF batch_sorted_origin])
  then have "distinct (map (\<lambda>g. snd (fst (hd g))) ?g)"
    by (simp add: comp_def)
  moreover have "\<forall>g \<in> set ?g. g \<noteq> [] \<and> (\<forall>e \<in> set g. snd (fst e) = snd (fst (hd g)))"
    using runs_by_same by blast
  ultimately show ?thesis
    using scheduler_step_batch [OF assms, of spawned] concat_runs by metis
qed

lemma pq_insert_new:
  "\<exists>q. pq_insert (k :: 'k::linorder) v pq_new = Some q \<and> pq_inv q \<and> pq_next_epoch q = 1 \<and> pq_abs q = [(k, v)]"
proof -
  have "pq_next_epoch (pq_new :: ('k, 'a) priority_queue) < u64_max"
    by (simp add: pq_new_def u64_max_def)
  then obtain q where q: "pq_insert k v pq_new = Some q"
    by (rule pq_insert_Some)
  then have "pq_next_epoch q = 1"
    by (auto simp: pq_insert_def pq_new_def Let_def split: if_splits)
  with q pq_insert_abs [OF pq_inv_new q] show ?thesis
    by (auto simp: stable_insert_def)
qed

lemma pq_singleton: "\<exists>q. pq_inv q \<and> pq_next_epoch q = 1 \<and> pq_abs q = [(k :: 'k::linorder, v)]"
  using pq_insert_new [of k v] by (elim exE conjE) (intro exI conjI)

text \<open>The injector step empties the injector queue: it spawns one sequential future per origin
  that injected something, in the order of the origins, with the items of one origin in
  the order of their injection, and reports whether there was any.\<close>

lemma injector_step_drains:
  assumes "pq_inv q" "\<forall>e \<in> set (pq_abs q). \<not> isl (injector_fire r (snd e))"
  shows "\<exists>q' groups. handle_injector_step r spawned q =
      (Inr (pq_abs q \<noteq> []), spawned @ map (map (injector_fut r)) groups, q') \<and>
    concat groups = pq_abs q \<and> distinct (map (\<lambda>g. fst (hd g)) groups) \<and>
    (\<forall>g \<in> set groups. g \<noteq> [] \<and> (\<forall>e \<in> set g. fst e = fst (hd g))) \<and>
    pq_inv q' \<and> pq_abs q' = []"
proof -
  let ?g = "runs_by fst (pq_abs q)"
  have "distinct (map (fst \<circ> hd) ?g)"
    by (rule runs_by_distinct [OF pq_abs_sorted])
  then have "distinct (map (\<lambda>g. fst (hd g)) ?g)"
    by (simp add: comp_def)
  moreover have "\<forall>g \<in> set ?g. g \<noteq> [] \<and> (\<forall>e \<in> set g. fst e = fst (hd g))"
    using runs_by_same by blast
  ultimately show ?thesis
    using handle_injector_step_ok [OF assms, of spawned] concat_runs by metis
qed

end
