(* ===== verification/Simulation.thy ===== *)
theory Simulation
  imports Simulation_Step
begin

text \<open>
  Model of the \<open>Simulation\<close> object of \<^verbatim>\<open>src/nexosim/src/simulation.rs\<close>: stepping, running to
  a deadline, processing single events and queries, halting and termination.

  The fields that the object shares with its scheduler handles are the record \<open>sched\<close>. What
  is not part of the framework is an argument \<open>E\<close> of the functions: the time type, the
  clock, the ticker, and the executor running the futures of the user's models. A call of
  the executor, a blocking synchronization with the clock and the point where the
  simulation object holds no lock return, besides their result, the list of calls that
  models and other threads made on the scheduler and injector handles meanwhile; these
  calls are then executed on the state. A call that panics unwinds in its caller and leaves
  the queues unchanged. All handles lock the queue they access, so a list of calls is an
  interleaving of atomic steps.

  A value \<open>None\<close> is a panic of the calling thread or a loop that does not end.
\<close>

subsection \<open>State and environment\<close>

datatype 'p executor_error = UnprocessedMessages nat | ExecutorTimeout | ExecutorPanic nat 'p

datatype ('t, 'a, 'f) env_call =
    CallSched "('t, 'a) api_call"
  | CallInject nat "('a, 'f) injector_item"
  | CallRestoreKey "bool \<times> nat"

record 'f registered_model =
  rm_path :: path
  rm_serialize :: 'f
  rm_deserialize :: "bytes \<Rightarrow> 'f"

record ('t, 'a, 'f, 'p, 'w, 'c, 'k) simulation =
  si_sched :: "('t, 'a) sched"
  si_registry :: "('a, 'f, 't, 'p) registry"
  si_injector :: "('a, 'f) injector_queue"
  si_clock :: 'c
  si_tolerance :: "duration option"
  si_ticker :: "'k option"
  si_timeout :: duration
  si_observers :: "(path \<times> nat) list"
  si_models :: "'f registered_model list"
  si_spawned :: "'f list list"
  si_keys :: key_reg
  si_world :: 'w

record ('t, 'a, 'f, 'p, 'w, 'c, 'k) sim_env =
  en_tai :: "'t tai"
  en_next_tick :: "'t \<Rightarrow> 'k \<Rightarrow> ('t \<times> 'k) exec"
  en_synchronize :: "'t \<Rightarrow> 'c \<Rightarrow> ('t, 'a) sched \<Rightarrow> 'w \<Rightarrow> sync_status \<times> 'c \<times> ('t, 'a, 'f) env_call list \<times> 'w"
  en_run :: "duration \<Rightarrow> 'f list list \<Rightarrow> ('t, 'a) sched \<Rightarrow> 'w
    \<Rightarrow> 'p executor_error option \<times> ('t, 'a, 'f) env_call list \<times> 'w"
  en_unlocked :: "('t, 'a) sched \<Rightarrow> 'w \<Rightarrow> ('t, 'a, 'f) env_call list"
  en_mailbox_len :: "'w \<Rightarrow> nat \<Rightarrow> nat"
  en_is_send_error :: "'p \<Rightarrow> bool"
  en_reply :: "'w \<Rightarrow> nat \<Rightarrow> 'a list option"

fun env_call_exec ::
    "('t::linorder) tai \<Rightarrow> ('t, 'a, 'f) env_call \<Rightarrow> ('t, 'a, 'f, 'p, 'w, 'c, 'k) simulation
      \<Rightarrow> ('t, 'a, 'f, 'p, 'w, 'c, 'k) simulation" where
  "env_call_exec T (CallSched c) s =
     (case api_exec T c (si_sched s) of None \<Rightarrow> s | Some sch \<Rightarrow> s\<lparr>si_sched := sch\<rparr>)"
| "env_call_exec T (CallInject i item) s =
     (case pq_insert i item (si_injector s) of None \<Rightarrow> s | Some q \<Rightarrow> s\<lparr>si_injector := q\<rparr>)"
| "env_call_exec T (CallRestoreKey kv) s =
     (case key_deserialize kv (si_keys s, sd_flags (si_sched s)) of
        (k, keys, flags) \<Rightarrow> s\<lparr>si_keys := keys, si_sched := (si_sched s)\<lparr>sd_flags := flags\<rparr>\<rparr>)"

definition env_calls ::
    "('t::linorder) tai \<Rightarrow> ('t, 'a, 'f) env_call list \<Rightarrow> ('t, 'a, 'f, 'p, 'w, 'c, 'k) simulation
      \<Rightarrow> ('t, 'a, 'f, 'p, 'w, 'c, 'k) simulation" where
  "env_calls T cs s = fold (env_call_exec T) cs s"

type_synonym ('t, 'a, 'f, 'p, 'w, 'c, 'k, 'x) sim_op =
  "('t, 'a, 'f, 'p, 'w, 'c, 'k) simulation
    \<Rightarrow> ((('t, 'p) execution_error + 'x) \<times> ('t, 'a, 'f, 'p, 'w, 'c, 'k) simulation) exec"

subsection \<open>Model identifiers\<close>

definition model_id_none :: nat where
  "model_id_none = usize_max"

definition model_id_new :: "nat \<Rightarrow> nat exec" where
  "model_id_new i = (if i = usize_max then None else Some i)"

definition model_id_get :: "nat \<Rightarrow> nat option" where
  "model_id_get i = (if i \<noteq> usize_max then Some i else None)"

subsection \<open>Operations\<close>

definition sim_time :: "('t, 'a, 'f, 'p, 'w, 'c, 'k) simulation \<Rightarrow> 't" where
  "sim_time s = sd_time (si_sched s)"

definition with_clock ::
    "'c \<Rightarrow> 'k \<Rightarrow> ('t, 'a, 'f, 'p, 'w, 'c, 'k) simulation \<Rightarrow> ('t, 'a, 'f, 'p, 'w, 'c, 'k) simulation" where
  "with_clock clock ticker s = s\<lparr>si_clock := clock, si_ticker := Some ticker\<rparr>"

definition with_tickless_clock ::
    "'c \<Rightarrow> ('t, 'a, 'f, 'p, 'w, 'c, 'k) simulation \<Rightarrow> ('t, 'a, 'f, 'p, 'w, 'c, 'k) simulation" where
  "with_tickless_clock clock s = s\<lparr>si_clock := clock, si_ticker := None\<rparr>"

definition with_timeout ::
    "duration \<Rightarrow> ('t, 'a, 'f, 'p, 'w, 'c, 'k) simulation \<Rightarrow> ('t, 'a, 'f, 'p, 'w, 'c, 'k) simulation" where
  "with_timeout timeout s = s\<lparr>si_timeout := timeout\<rparr>"

definition terminate ::
    "('t, 'a, 'f, 'p, 'w, 'c, 'k) simulation \<Rightarrow> ('t, 'a, 'f, 'p, 'w, 'c, 'k) simulation" where
  "terminate s = s\<lparr>si_sched := (si_sched s)\<lparr>sd_terminated := True\<rparr>\<rparr>"

definition write_time ::
    "'t \<Rightarrow> ('t, 'a, 'f, 'p, 'w, 'c, 'k) simulation \<Rightarrow> ('t, 'a, 'f, 'p, 'w, 'c, 'k) simulation" where
  "write_time t s = s\<lparr>si_sched := (si_sched s)\<lparr>sd_time := t\<rparr>\<rparr>"

definition take_halt_flag ::
    "('t, 'a, 'f, 'p, 'w, 'c, 'k) simulation
      \<Rightarrow> (('t, 'p) execution_error + unit) \<times> ('t, 'a, 'f, 'p, 'w, 'c, 'k) simulation" where
  "take_halt_flag s =
     (if sd_halted (si_sched s)
      then (Inl Halted, s\<lparr>si_sched := (si_sched s)\<lparr>sd_halted := False\<rparr>\<rparr>)
      else (Inr (), s))"

definition spawn_and_forget ::
    "'f list \<Rightarrow> ('t, 'a, 'f, 'p, 'w, 'c, 'k) simulation \<Rightarrow> ('t, 'a, 'f, 'p, 'w, 'c, 'k) simulation" where
  "spawn_and_forget fut s = s\<lparr>si_spawned := si_spawned s @ [fut]\<rparr>"

definition deadlock_infos :: "('w \<Rightarrow> nat \<Rightarrow> nat) \<Rightarrow> 'w \<Rightarrow> (path \<times> nat) list \<Rightarrow> deadlock_info list" where
  "deadlock_infos len w observers =
     map (\<lambda>(model, ob). \<lparr>di_model = model, di_mailbox_size = len w ob\<rparr>)
       (filter (\<lambda>(model, ob). len w ob \<noteq> 0) observers)"

definition executor_error_result ::
    "('t, 'a, 'f, 'p, 'w, 'c, 'k) sim_env \<Rightarrow> ('t, 'a, 'f, 'p, 'w, 'c, 'k) simulation
      \<Rightarrow> 'p executor_error \<Rightarrow> ('t, 'p) execution_error exec" where
  "executor_error_result E s e =
     (case e of
        UnprocessedMessages msg_count \<Rightarrow>
          (let infos = deadlock_infos (en_mailbox_len E) (si_world s) (si_observers s) in
           Some (if infos = [] then MessageLoss msg_count else Deadlock infos))
      | ExecutorTimeout \<Rightarrow> Some TimeoutError
      | ExecutorPanic model_id payload \<Rightarrow> do {
          model \<leftarrow> (case model_id_get model_id of
                      None \<Rightarrow> Some None
                    | Some i \<Rightarrow> map_option (\<lambda>m. Some (rm_path m)) (vec_get (si_models s) i));
          if en_is_send_error E payload then Some (NoRecipient model)
          else (case model of Some p \<Rightarrow> Some (PanicError p payload) | None \<Rightarrow> None)
        })"

definition run_executor ::
    "('t::linorder, 'a, 'f, 'p, 'w, 'c, 'k) sim_env \<Rightarrow> ('t, 'a, 'f, 'p, 'w, 'c, 'k, unit) sim_op" where
  "run_executor E s =
     (if sd_terminated (si_sched s) then Some (Inl Terminated, s)
      else (let (err, calls, w) = en_run E (si_timeout s) (si_spawned s) (si_sched s) (si_world s);
                s1 = (env_calls (en_tai E) calls s)\<lparr>si_spawned := [], si_world := w\<rparr> in
            (case err of
               None \<Rightarrow> Some (Inr (), s1)
             | Some e \<Rightarrow> (let s2 = terminate s1 in
                 do { x \<leftarrow> executor_error_result E s2 e; Some (Inl x, s2) }))))"

definition synchronize ::
    "('t::linorder, 'a, 'f, 'p, 'w, 'c, 'k) sim_env \<Rightarrow> 't
      \<Rightarrow> ('t, 'a, 'f, 'p, 'w, 'c, 'k) simulation
      \<Rightarrow> (('t, 'p) execution_error + unit) \<times> ('t, 'a, 'f, 'p, 'w, 'c, 'k) simulation" where
  "synchronize E deadline s =
     (let (status, clock, calls, w) = en_synchronize E deadline (si_clock s) (si_sched s) (si_world s);
          s1 = (env_calls (en_tai E) calls s)\<lparr>si_clock := clock, si_world := w\<rparr> in
      (case (status, si_tolerance s1) of
         (OutOfSync lag, Some tolerance) \<Rightarrow>
           if tolerance < lag then (Inl (OutOfSyncError lag), terminate s1) else (Inr (), s1)
       | _ \<Rightarrow> (Inr (), s1)))"

definition next_time :: "('t::linorder \<times> nat) option \<Rightarrow> 't option \<Rightarrow> 't option" where
  "next_time next_key tick =
     (case (next_key, tick) of
        (Some key, Some tick) \<Rightarrow> Some (min tick (fst key))
      | (Some key, None) \<Rightarrow> Some (fst key)
      | (None, Some tick) \<Rightarrow> Some tick
      | (None, None) \<Rightarrow> None)"

text \<open>The ticker is asked for its next tick, which is dropped beyond the bound.\<close>

definition bounded_tick ::
    "('t \<Rightarrow> 'k \<Rightarrow> ('t \<times> 'k) exec) \<Rightarrow> 't::linorder \<Rightarrow> 't \<Rightarrow> 'k option \<Rightarrow> ('t option \<times> 'k option) exec" where
  "bounded_tick tick_fn now bound ticker =
     (case ticker of
        None \<Rightarrow> Some (None, None)
      | Some k \<Rightarrow> do {
          (tick, k') \<leftarrow> tick_fn now k;
          Some (if tick \<le> bound then Some tick else None, Some k')
        })"

text \<open>The end of a step: the injected items are spawned, the clock is awaited, and the executor
  runs if there is anything to run.\<close>

definition finish_step ::
    "('t::linorder, 'a, 'f, 'p, 'w, 'c, 'k) sim_env \<Rightarrow> 't \<Rightarrow> bool
      \<Rightarrow> ('t, 'a, 'f, 'p, 'w, 'c, 'k, 't option) sim_op" where
  "finish_step E time has_events s0 =
     (case handle_injector_step (si_registry s0) (si_spawned s0) (si_injector s0) of
        (Inl e, spawned, injector) \<Rightarrow> Some (Inl e, s0\<lparr>si_injector := injector, si_spawned := spawned\<rparr>)
      | (Inr injected, spawned, injector) \<Rightarrow>
          (case synchronize E time (s0\<lparr>si_injector := injector, si_spawned := spawned\<rparr>) of
             (Inl e, s) \<Rightarrow> Some (Inl e, s)
           | (Inr _, s) \<Rightarrow>
               if has_events \<or> injected
               then map_option (\<lambda>(res, s). (map_sum id (\<lambda>_. Some time) res, s)) (run_executor E s)
               else Some (Inr (Some time), s)))"

definition step_at ::
    "('t::linorder, 'a, 'f, 'p, 'w, 'c, 'k) sim_env \<Rightarrow> ('t \<times> nat) option \<Rightarrow> 't
      \<Rightarrow> ('t, 'a, 'f, 'p, 'w, 'c, 'k, 't option) sim_op" where
  "step_at E next_key time s0 = do {
     let s = write_time time s0;
     (res, spawned, queue) \<leftarrow> handle_scheduler_step (en_tai E) (si_registry s)
       (sd_flags (si_sched s)) next_key time (si_spawned s) (sd_queue (si_sched s));
     let s = s\<lparr>si_sched := (si_sched s)\<lparr>sd_queue := queue\<rparr>, si_spawned := spawned\<rparr>;
     (case res of Inl e \<Rightarrow> Some (Inl e, s) | Inr has_events \<Rightarrow> finish_step E time has_events s)
   }"

definition step_to_next ::
    "('t::linorder, 'a, 'f, 'p, 'w, 'c, 'k) sim_env \<Rightarrow> 't option
      \<Rightarrow> ('t, 'a, 'f, 'p, 'w, 'c, 'k, 't option) sim_op" where
  "step_to_next E upper_time_bound s0 =
     (case take_halt_flag s0 of
        (Inl e, s) \<Rightarrow> Some (Inl e, s)
      | (Inr _, s) \<Rightarrow>
          if sd_terminated (si_sched s) then Some (Inl Terminated, s)
          else (let bound = (case upper_time_bound of None \<Rightarrow> tai_max (en_tai E) | Some b \<Rightarrow> b) in do {
            (tick, ticker) \<leftarrow> bounded_tick (en_next_tick E) (sim_time s) bound (si_ticker s);
            let (next_key, queue) = peek_next_key (sd_flags (si_sched s)) (sd_queue (si_sched s)) bound;
            let s = s\<lparr>si_ticker := ticker, si_sched := (si_sched s)\<lparr>sd_queue := queue\<rparr>\<rparr>;
            (case next_time next_key tick of
               None \<Rightarrow> Some (Inr None, s)
             | Some time \<Rightarrow> step_at E next_key time s)
          }))"

definition step ::
    "('t::linorder, 'a, 'f, 'p, 'w, 'c, 'k) sim_env \<Rightarrow> ('t, 'a, 'f, 'p, 'w, 'c, 'k, unit) sim_op" where
  "step E s = map_option (\<lambda>(res, s). (map_sum id (\<lambda>_. ()) res, s)) (step_to_next E None s)"

text \<open>When nothing is left before the target, the simulation holds no lock until it has written
  the target time.\<close>

partial_function (option) step_until_unchecked ::
    "('t::linorder, 'a, 'f, 'p, 'w, 'c, 'k) sim_env \<Rightarrow> 't option
      \<Rightarrow> ('t, 'a, 'f, 'p, 'w, 'c, 'k) simulation
      \<Rightarrow> ((('t, 'p) execution_error + unit) \<times> ('t, 'a, 'f, 'p, 'w, 'c, 'k) simulation) option" where
  "step_until_unchecked E target_time s0 =
     Option.bind (step_to_next E target_time s0) (\<lambda>(res, s).
       case res of
         Inl e \<Rightarrow> Some (Inl e, s)
       | Inr time \<Rightarrow>
           if time = target_time then Some (Inr (), s)
           else (case time of
             None \<Rightarrow>
               (case target_time of
                  None \<Rightarrow> Some (Inr (), s)
                | Some t \<Rightarrow>
                    Some (synchronize E t
                      (write_time t (env_calls (en_tai E) (en_unlocked E (si_sched s) (si_world s)) s))))
           | Some _ \<Rightarrow> step_until_unchecked E target_time s))"

definition step_until ::
    "('t::linorder, 'a, 'f, 'p, 'w, 'c, 'k) sim_env \<Rightarrow> 't deadline
      \<Rightarrow> ('t, 'a, 'f, 'p, 'w, 'c, 'k, unit) sim_op" where
  "step_until E deadline s = do {
     target_time \<leftarrow> into_time (en_tai E) deadline (sim_time s);
     if target_time < sim_time s then Some (Inl (InvalidDeadline target_time), s)
     else step_until_unchecked E (Some target_time) s
   }"

definition run ::
    "('t::linorder, 'a, 'f, 'p, 'w, 'c, 'k) sim_env \<Rightarrow> ('t, 'a, 'f, 'p, 'w, 'c, 'k, unit) sim_op" where
  "run E s = step_until_unchecked E None s"

definition process_future ::
    "('t::linorder, 'a, 'f, 'p, 'w, 'c, 'k) sim_env \<Rightarrow> 'f \<Rightarrow> ('t, 'a, 'f, 'p, 'w, 'c, 'k, unit) sim_op" where
  "process_future E fut s =
     (case take_halt_flag s of
        (Inl e, s) \<Rightarrow> Some (Inl e, s)
      | (Inr _, s) \<Rightarrow> run_executor E (spawn_and_forget [fut] s))"

definition process_event ::
    "('t::linorder, 'a, 'f, 'p, 'w, 'c, 'k) sim_env \<Rightarrow> nat \<Rightarrow> 'a \<Rightarrow> ('t, 'a, 'f, 'p, 'w, 'c, 'k, unit) sim_op" where
  "process_event E event_id arg s =
     (case get_event_source event_id (si_registry s) of
        None \<Rightarrow> Some (Inl (InvalidEventId event_id), s)
      | Some source \<Rightarrow>
          (case es_future_owned source arg None of
             Inl e \<Rightarrow> Some (Inl e, s)
           | Inr fut \<Rightarrow> process_future E fut s))"

text \<open>The reply channel of a query is allocated from the counter of the scheduler state.\<close>

definition query_replier ::
    "('t, 'a, 'f, 'p, 'w, 'c, 'k) simulation \<Rightarrow> nat \<times> ('t, 'a, 'f, 'p, 'w, 'c, 'k) simulation" where
  "query_replier s = (sd_replies (si_sched s), s\<lparr>si_sched := (si_sched s)\<lparr>sd_replies := sd_replies (si_sched s) + 1\<rparr>\<rparr>)"

definition process_query ::
    "('t::linorder, 'a, 'f, 'p, 'w, 'c, 'k) sim_env \<Rightarrow> nat \<Rightarrow> 'a \<Rightarrow> ('t, 'a, 'f, 'p, 'w, 'c, 'k, 'a) sim_op" where
  "process_query E query_id arg s0 =
     (let (tx, s) = query_replier s0 in
      (case get_query_source query_id (si_registry s) of
         None \<Rightarrow> Some (Inl (InvalidQueryId query_id), s)
       | Some source \<Rightarrow>
           (case qs_future source arg (Some tx) of
              Inl e \<Rightarrow> Some (Inl e, s)
            | Inr fut \<Rightarrow> do {
                (res, s) \<leftarrow> process_future E fut s;
                (case res of
                   Inl e \<Rightarrow> Some (Inl e, s)
                 | Inr _ \<Rightarrow> (case en_reply E (si_world s) tx of
                     Some (r # _) \<Rightarrow> Some (Inr r, s)
                   | _ \<Rightarrow> None))
              })))"

text \<open>The variants of the server take the identifier from a registry entry; the query returns
  its reader instead of the reply.\<close>

definition process_event_erased ::
    "('t::linorder, 'a, 'f, 'p, 'w, 'c, 'k) sim_env \<Rightarrow> nat \<Rightarrow> 'a \<Rightarrow> ('t, 'a, 'f, 'p, 'w, 'c, 'k, unit) sim_op" where
  "process_event_erased E event_id arg s =
     (case get_event_source event_id (si_registry s) of
        None \<Rightarrow> Some (Inl (InvalidEventId event_id), s)
      | Some source \<Rightarrow>
          (case es_future_owned source arg None of
             Inl e \<Rightarrow> Some (Inl e, s)
           | Inr fut \<Rightarrow> process_future E fut s))"

definition process_query_erased ::
    "('t::linorder, 'a, 'f, 'p, 'w, 'c, 'k) sim_env \<Rightarrow> nat \<Rightarrow> 'a \<Rightarrow> ('t, 'a, 'f, 'p, 'w, 'c, 'k, nat) sim_op" where
  "process_query_erased E query_id arg s0 =
     (case get_query_source query_id (si_registry s0) of
        None \<Rightarrow> Some (Inl (InvalidQueryId query_id), s0)
      | Some source \<Rightarrow>
          (let (tx, s) = query_replier s0 in
           (case qs_future source arg (Some tx) of
              Inl e \<Rightarrow> Some (Inl e, s)
            | Inr fut \<Rightarrow> do {
                (res, s) \<leftarrow> process_future E fut s;
                (case res of Inl e \<Rightarrow> Some (Inl e, s) | Inr _ \<Rightarrow> Some (Inr tx, s))
              })))"

text \<open>A request on a replier function of a model: the halt flag is not looked at, and a missing
  answer is an error. \<open>read\<close> takes the answer out of its slot.\<close>

definition process_replier_fn ::
    "('t::linorder, 'a, 'f, 'p, 'w, 'c, 'k) sim_env \<Rightarrow> 'f \<Rightarrow> ('w \<Rightarrow> 'r option)
      \<Rightarrow> ('t, 'a, 'f, 'p, 'w, 'c, 'k, 'r) sim_op" where
  "process_replier_fn E fut read s = do {
     (res, s) \<leftarrow> run_executor E (spawn_and_forget [fut] s);
     (case res of
        Inl e \<Rightarrow> Some (Inl e, s)
      | Inr _ \<Rightarrow> (case read (si_world s) of Some r \<Rightarrow> Some (Inr r, s) | None \<Rightarrow> Some (Inl BadQuery, s)))
   }"

subsection \<open>Calls on the handles\<close>

lemma schedule_from_frame:
  "schedule_from T d item i s = Some (r, s') \<Longrightarrow> s' = s\<lparr>sd_queue := sd_queue s'\<rparr>"
  by (auto simp: schedule_from_def bind_eq_Some_conv split: if_splits)

lemma schedule_from_entries:
  assumes "pq_inv (sd_queue s)" "schedule_from T d item i s = Some (r, s')"
  shows "\<forall>e \<in> set (pq_abs (sd_queue s')). e \<in> set (pq_abs (sd_queue s)) \<or> snd e = item"
  using schedule_from_cases [OF assms(1), of T d item i] assms(2)
  by (auto simp: scheduled_def set_stable_insert)

text \<open>The item that a call may add to the queue.\<close>

fun api_item :: "('t, 'a) api_call \<Rightarrow> nat \<Rightarrow> 'a queue_item option" where
  "api_item (ApiEvent d i a origin_id) n = Some (QEvent (event_new i a))"
| "api_item (ApiKeyedEvent d i a origin_id) n = Some (QEvent (with_key n (event_new i a)))"
| "api_item (ApiPeriodicEvent d p i a origin_id) n = Some (QEvent (with_period p (event_new i a)))"
| "api_item (ApiKeyedPeriodicEvent d p i a origin_id) n =
     Some (QEvent (with_key n (with_period p (event_new i a))))"
| "api_item (ApiQuery d i a origin_id) n = Some (QQuery (fst (query_new i a n)))"
| "api_item (ApiCancel k) n = None"
| "api_item ApiHalt n = None"
| "api_item ApiTearDown n = None"

lemmas schedule_defs =
  schedule_event_from_def schedule_keyed_event_from_def schedule_periodic_event_from_def
  schedule_keyed_periodic_event_from_def schedule_query_from_def event_key_new_def query_new_def

lemma api_exec_frame:
  assumes "api_exec T c s = Some s'"
  shows "sd_terminated s' = (sd_terminated s \<or> c = ApiTearDown) \<and> sd_halted s' = (sd_halted s \<or> c = ApiHalt)"
  using assms
  by (cases c) (auto simp: schedule_defs Let_def bind_eq_Some_conv halt_def tear_down_def split: if_splits)

lemma api_exec_entries:
  assumes "pq_inv (sd_queue s)" "api_exec T c s = Some s'"
  shows "\<forall>e \<in> set (pq_abs (sd_queue s')). e \<in> set (pq_abs (sd_queue s)) \<or> (\<exists>n. Some (snd e) = api_item c n)"
proof -
  have flags: "pq_inv (sd_queue (s\<lparr>sd_flags := f\<rparr>))" for f
    using assms(1) by simp
  show ?thesis
  proof (cases c)
    case (ApiEvent d i a oid)
    then obtain r where "schedule_from T d (QEvent (event_new i a)) oid s = Some (r, s')"
      using assms(2) by (auto simp: schedule_event_from_eq)
    from schedule_from_entries [OF assms(1) this] ApiEvent show ?thesis by auto
  next
    case (ApiKeyedEvent d i a oid)
    then obtain r where "schedule_from T d (QEvent (with_key (length (sd_flags s)) (event_new i a))) oid
        (s\<lparr>sd_flags := sd_flags s @ [False]\<rparr>) = Some (r, s')"
      using assms(2) by (auto simp: schedule_keyed_event_from_eq)
    from schedule_from_entries [OF flags this] ApiKeyedEvent show ?thesis by auto
  next
    case (ApiPeriodicEvent d p i a oid)
    show ?thesis
    proof (cases "p = 0")
      case False
      with ApiPeriodicEvent obtain r where
        "schedule_from T d (QEvent (with_period p (event_new i a))) oid s = Some (r, s')"
        using assms(2) by (auto simp: schedule_periodic_event_from_eq)
      from schedule_from_entries [OF assms(1) this] ApiPeriodicEvent show ?thesis by auto
    qed (use ApiPeriodicEvent assms in \<open>simp add: schedule_periodic_event_from_eq\<close>)
  next
    case (ApiKeyedPeriodicEvent d p i a oid)
    show ?thesis
    proof (cases "p = 0")
      case False
      with ApiKeyedPeriodicEvent obtain r where
        "schedule_from T d (QEvent (with_key (length (sd_flags s)) (with_period p (event_new i a)))) oid
          (s\<lparr>sd_flags := sd_flags s @ [False]\<rparr>) = Some (r, s')"
        using assms(2) by (auto simp: schedule_keyed_periodic_event_from_eq)
      from schedule_from_entries [OF flags this] ApiKeyedPeriodicEvent show ?thesis by auto
    qed (use ApiKeyedPeriodicEvent assms in \<open>simp add: schedule_keyed_periodic_event_from_eq\<close>)
  next
    case (ApiQuery d i a oid)
    then obtain r s2 where
      r: "schedule_from T d (QQuery (fst (query_new i a (sd_replies s)))) oid s = Some (r, s2)"
      and s': "s' = (if isl r then s2 else s2\<lparr>sd_replies := sd_replies s + 1\<rparr>)"
      using assms(2) by (auto simp: schedule_query_from_eq)
    then have "sd_queue s' = sd_queue s2" by simp
    with schedule_from_entries [OF assms(1) r] ApiQuery show ?thesis by auto
  qed (use assms in \<open>auto simp: halt_def tear_down_def\<close>)
qed

subsection \<open>Invariant\<close>

text \<open>Every identifier and argument type in the queues is one of the registry.\<close>

definition sim_inv :: "('k \<Rightarrow> bool) \<Rightarrow> ('t::linorder, 'a, 'f, 'p, 'w, 'c, 'k) simulation \<Rightarrow> bool" where
  "sim_inv K s \<longleftrightarrow>
     sched_inv (si_sched s) \<and>
     (\<forall>e \<in> set (pq_abs (sd_queue (si_sched s))). \<not> isl (fut_of (si_registry s) (snd e))) \<and>
     pq_inv (si_injector s) \<and>
     (\<forall>e \<in> set (pq_abs (si_injector s)). \<not> isl (injector_fire (si_registry s) (snd e))) \<and>
     pred_option K (si_ticker s)"

fun call_ok :: "('a, 'f, 't, 'p) registry \<Rightarrow> ('t, 'a, 'f) env_call \<Rightarrow> bool" where
  "call_ok r (CallSched c) \<longleftrightarrow> (\<forall>n. case api_item c n of None \<Rightarrow> True | Some item \<Rightarrow> \<not> isl (fut_of r item))"
| "call_ok r (CallInject i item) \<longleftrightarrow> \<not> isl (injector_fire r item)"
| "call_ok r (CallRestoreKey kv) \<longleftrightarrow> True"

text \<open>What a simulation relies on: time behaves as documented, calls on the handles use
  registered identifiers with arguments of their type, and the ticker returns ticks
  strictly after the given time.\<close>

definition env_ok ::
    "('k \<Rightarrow> bool) \<Rightarrow> ('a, 'f, 't, 'p) registry \<Rightarrow> ('t::linorder, 'a, 'f, 'p, 'w, 'c, 'k) sim_env \<Rightarrow> bool" where
  "env_ok K r E \<longleftrightarrow>
     tai_laws (en_tai E) \<and>
     (\<forall>t c s w st c' cs w'. en_synchronize E t c s w = (st, c', cs, w') \<longrightarrow> list_all (call_ok r) cs) \<and>
     (\<forall>d fs s w err cs w'. en_run E d fs s w = (err, cs, w') \<longrightarrow> list_all (call_ok r) cs) \<and>
     (\<forall>s w. list_all (call_ok r) (en_unlocked E s w)) \<and>
     (\<forall>now k t k'. K k \<longrightarrow> en_next_tick E now k = Some (t, k') \<longrightarrow> now < t \<and> K k')"

lemma env_okD:
  assumes "env_ok K r E"
  shows "tai_laws (en_tai E)"
    and "en_synchronize E t c s w = (st, c', cs, w') \<Longrightarrow> list_all (call_ok r) cs"
    and "en_run E d fs s w = (err, cs, w') \<Longrightarrow> list_all (call_ok r) cs"
    and "list_all (call_ok r) (en_unlocked E s w)"
    and "K k \<Longrightarrow> en_next_tick E now k = Some (t, k') \<Longrightarrow> now < t \<and> K k'"
  using assms unfolding env_ok_def by (simp, metis, metis, simp, simp)

text \<open>The parts of the state that no step changes, and the termination flag, which is never
  cleared.\<close>

definition sim_frame ::
    "('t, 'a, 'f, 'p, 'w, 'c, 'k) simulation \<Rightarrow> ('t, 'a, 'f, 'p, 'w, 'c, 'k) simulation \<Rightarrow> bool" where
  "sim_frame s s' \<longleftrightarrow>
     si_registry s' = si_registry s \<and> si_tolerance s' = si_tolerance s \<and> si_timeout s' = si_timeout s \<and>
     si_observers s' = si_observers s \<and> si_models s' = si_models s \<and>
     (sd_terminated (si_sched s) \<longrightarrow> sd_terminated (si_sched s'))"

lemma sim_frame_refl [simp]: "sim_frame s s"
  by (simp add: sim_frame_def)

lemma sim_frame_trans [trans]: "sim_frame s s' \<Longrightarrow> sim_frame s' s'' \<Longrightarrow> sim_frame s s''"
  by (simp add: sim_frame_def)

lemma key_deserialize_flags:
  "key_deserialize kv (reg, flags) = (k, reg', flags') \<Longrightarrow> length flags \<le> length flags'"
  by (cases kv) (auto split: option.splits)

lemma env_call_exec_inv:
  assumes "sim_inv K s" "call_ok (si_registry s) c"
  shows "sim_inv K (env_call_exec T c s) \<and> sim_frame s (env_call_exec T c s) \<and>
    sim_time (env_call_exec T c s) = sim_time s \<and> si_ticker (env_call_exec T c s) = si_ticker s \<and>
    si_spawned (env_call_exec T c s) = si_spawned s"
proof (cases c)
  case (CallSched ac)
  show ?thesis
  proof (cases "api_exec T ac (si_sched s)")
    case None
    with assms CallSched show ?thesis by simp
  next
    case (Some sch)
    have inv: "sched_inv (si_sched s)" "pq_inv (sd_queue (si_sched s))"
      using assms(1) by (simp_all add: sim_inv_def sched_inv_def)
    note a = api_exec_inv [OF inv(1) Some] and f = api_exec_frame [OF Some]
    have "\<not> isl (fut_of (si_registry s) (snd e))" if "e \<in> set (pq_abs (sd_queue sch))" for e
      using api_exec_entries [OF inv(2) Some] that assms CallSched
      by (force simp: sim_inv_def split: option.splits)
    with a f assms CallSched Some show ?thesis
      by (simp add: sim_inv_def sim_frame_def sim_time_def)
  qed
next
  case (CallInject i item)
  show ?thesis
  proof (cases "pq_insert i item (si_injector s)")
    case None
    with assms CallInject show ?thesis by simp
  next
    case (Some q)
    have "pq_inv (si_injector s)"
      using assms(1) by (simp add: sim_inv_def)
    from pq_insert_abs [OF this Some] assms CallInject Some show ?thesis
      by (auto simp: sim_inv_def sim_frame_def sim_time_def set_stable_insert)
  qed
next
  case (CallRestoreKey kv)
  obtain k keys flags where kd: "key_deserialize kv (si_keys s, sd_flags (si_sched s)) = (k, keys, flags)"
    by (metis prod_cases3)
  have "sched_inv ((si_sched s)\<lparr>sd_flags := flags\<rparr>)"
    using assms(1) key_deserialize_flags [OF kd] by (simp add: sim_inv_def sched_inv_flags)
  with assms kd CallRestoreKey show ?thesis
    by (simp add: sim_inv_def sim_frame_def sim_time_def)
qed

lemma env_calls_inv:
  assumes "sim_inv K s" "list_all (call_ok (si_registry s)) cs"
  shows "sim_inv K (env_calls T cs s) \<and> sim_frame s (env_calls T cs s) \<and>
    sim_time (env_calls T cs s) = sim_time s \<and> si_ticker (env_calls T cs s) = si_ticker s \<and>
    si_spawned (env_calls T cs s) = si_spawned s"
  using assms
proof (induction cs arbitrary: s)
  case (Cons c cs)
  note c = env_call_exec_inv [OF Cons.prems(1), of c T]
  have reg: "si_registry (env_call_exec T c s) = si_registry s"
    using c Cons.prems(2) by (simp add: sim_frame_def)
  from Cons.IH [of "env_call_exec T c s"] c Cons.prems(2) reg show ?case
    by (auto simp: env_calls_def intro: sim_frame_trans)
qed (simp add: env_calls_def)

lemma sim_inv_updates [simp]:
  "sim_inv K (s\<lparr>si_spawned := sp\<rparr>) = sim_inv K s"
  "sim_inv K (s\<lparr>si_world := w\<rparr>) = sim_inv K s"
  "sim_inv K (s\<lparr>si_clock := c\<rparr>) = sim_inv K s"
  "sim_inv K (terminate s) = sim_inv K s"
  "sim_inv K (s\<lparr>si_sched := (si_sched s)\<lparr>sd_halted := h\<rparr>\<rparr>) = sim_inv K s"
  "sim_inv K (s\<lparr>si_sched := (si_sched s)\<lparr>sd_replies := n\<rparr>\<rparr>) = sim_inv K s"
  by (simp_all add: sim_inv_def terminate_def sched_inv_def)

lemma sim_time_updates [simp]:
  "sim_time (s\<lparr>si_spawned := sp\<rparr>) = sim_time s"
  "sim_time (s\<lparr>si_world := w\<rparr>) = sim_time s"
  "sim_time (s\<lparr>si_clock := c\<rparr>) = sim_time s"
  "sim_time (s\<lparr>si_injector := q\<rparr>) = sim_time s"
  "sim_time (s\<lparr>si_ticker := k\<rparr>) = sim_time s"
  "sim_time (terminate s) = sim_time s"
  "sim_time (write_time t s) = t"
  by (simp_all add: sim_time_def terminate_def write_time_def)

lemma terminate_simps [simp]:
  "sd_terminated (si_sched (terminate s))" "si_spawned (terminate s) = si_spawned s"
  "si_registry (terminate s) = si_registry s" "si_models (terminate s) = si_models s"
  by (simp_all add: terminate_def)

lemma write_time_simps [simp]:
  "si_registry (write_time t s) = si_registry s" "si_spawned (write_time t s) = si_spawned s"
  "sd_flags (si_sched (write_time t s)) = sd_flags (si_sched s)"
  "sd_queue (si_sched (write_time t s)) = sd_queue (si_sched s)"
  "sd_time (si_sched (write_time t s)) = t"
  by (simp_all add: write_time_def)

lemma run_executor_inv:
  assumes "env_ok K (si_registry s) E" "sim_inv K s" "run_executor E s = Some (res, s')"
  shows "sim_inv K s' \<and> sim_frame s s' \<and> sim_time s' = sim_time s \<and>
    (isl res \<longrightarrow> sd_terminated (si_sched s'))"
proof (cases "sd_terminated (si_sched s)")
  case True
  with assms show ?thesis by (simp add: run_executor_def)
next
  case False
  obtain err cs w where r: "en_run E (si_timeout s) (si_spawned s) (si_sched s) (si_world s) = (err, cs, w)"
    by (metis prod_cases3)
  then have ok: "list_all (call_ok (si_registry s)) cs"
    by (rule env_okD(3) [OF assms(1)])
  let ?s = "env_calls (en_tai E) cs s"
  note c = env_calls_inv [OF assms(2) ok, of "en_tai E"]
  have f: "sim_frame s (?s\<lparr>si_spawned := [], si_world := w\<rparr>)"
    "sim_frame s (terminate (?s\<lparr>si_spawned := [], si_world := w\<rparr>))"
    using c by (simp_all add: sim_frame_def terminate_def)
  show ?thesis
  proof (cases err)
    case None
    with False r assms(3) c f show ?thesis
      by (auto simp: run_executor_def)
  next
    case (Some e)
    then have "s' = terminate (?s\<lparr>si_spawned := [], si_world := w\<rparr>)"
      using False r assms(3) by (auto simp: run_executor_def Let_def bind_eq_Some_conv)
    with c f show ?thesis by simp
  qed
qed

lemma synchronize_inv:
  assumes "env_ok K (si_registry s) E" "sim_inv K s" "synchronize E t s = (res, s')"
  shows "sim_inv K s' \<and> sim_frame s s' \<and> sim_time s' = sim_time s \<and> si_spawned s' = si_spawned s \<and>
    (isl res \<longrightarrow> sd_terminated (si_sched s'))"
proof -
  obtain st clk cs w where r: "en_synchronize E t (si_clock s) (si_sched s) (si_world s) = (st, clk, cs, w)"
    by (metis prod_cases4)
  then have ok: "list_all (call_ok (si_registry s)) cs"
    by (rule env_okD(2) [OF assms(1)])
  let ?s = "(env_calls (en_tai E) cs s)\<lparr>si_clock := clk, si_world := w\<rparr>"
  note c = env_calls_inv [OF assms(2) ok, of "en_tai E"]
  have "s' = ?s \<and> res = Inr () \<or> s' = terminate ?s \<and> isl res"
    using assms(3) r by (auto simp: synchronize_def Let_def split: sync_status.splits option.splits if_splits)
  moreover have "sim_frame s ?s" "sim_frame s (terminate ?s)"
    using c by (simp_all add: sim_frame_def terminate_def)
  ultimately show ?thesis
    using c by auto
qed

lemma bounded_tick_ok:
  assumes "env_ok K r E" "pred_option K tk" "bounded_tick (en_next_tick E) now b tk = Some (tick, tk')"
  shows "pred_option K tk' \<and> (\<forall>t. tick = Some t \<longrightarrow> now < t \<and> t \<le> b)"
  using assms
  by (cases tk) (auto simp: bounded_tick_def env_ok_def bind_eq_Some_conv split: if_splits)

lemma finish_step_inv:
  assumes "env_ok K (si_registry s) E" "sim_inv K s" "finish_step E t h s = Some (res, s')"
  shows "sim_inv K s' \<and> sim_frame s s' \<and> sim_time s' = sim_time s \<and>
    (isl res \<longrightarrow> sd_terminated (si_sched s')) \<and> (\<not> isl res \<longrightarrow> res = Inr (Some t))"
proof -
  obtain q where q: "pq_inv q" "pq_abs q = []" and h: "handle_injector_step (si_registry s) (si_spawned s) (si_injector s) =
      (Inr (pq_abs (si_injector s) \<noteq> []), si_spawned s @
        map (map (injector_fut (si_registry s))) (runs_by fst (pq_abs (si_injector s))), q)"
    using handle_injector_step_ok [of "si_injector s" "si_registry s" "si_spawned s"] assms(2)
    by (auto simp: sim_inv_def)
  define s1 where "s1 = s\<lparr>si_injector := q, si_spawned := si_spawned s @
        map (map (injector_fut (si_registry s))) (runs_by fst (pq_abs (si_injector s)))\<rparr>"
  have s1: "sim_inv K s1" "sim_frame s s1" "sim_time s1 = sim_time s" "si_registry s1 = si_registry s"
    using assms(2) q by (simp_all add: s1_def sim_inv_def sim_frame_def)
  obtain sres s2 where sy: "synchronize E t s1 = (sres, s2)" by fastforce
  have "env_ok K (si_registry s1) E"
    using assms(1) s1 by simp
  note y = synchronize_inv [OF this s1(1) sy]
  then have reg2: "si_registry s2 = si_registry s"
    using s1(4) by (simp add: sim_frame_def)
  have f2: "sim_frame s s2"
    using s1(2) y sim_frame_trans by blast
  show ?thesis
  proof (cases sres)
    case (Inl e)
    then have "s' = s2" "res = Inl e"
      using assms(3) h sy by (simp_all add: finish_step_def s1_def)
    with y Inl s1 f2 show ?thesis by simp
  next
    case (Inr u)
    show ?thesis
    proof (cases "h \<or> pq_abs (si_injector s) \<noteq> []")
      case False
      then have "s' = s2" "res = Inr (Some t)"
        using assms(3) h sy Inr by (simp_all add: finish_step_def s1_def)
      with y s1 f2 show ?thesis by simp
    next
      case True
      then obtain rres where r: "run_executor E s2 = Some (rres, s')" "res = map_sum id (\<lambda>_. Some t) rres"
        using assms(3) h sy Inr by (auto simp: finish_step_def s1_def)
      have "env_ok K (si_registry s2) E"
        using assms(1) reg2 by simp
      from run_executor_inv [OF this _ r(1)] y r(2) s1 f2 show ?thesis
        using sim_frame_trans by (cases rres) auto
    qed
  qed
qed

text \<open>The state in which a step peeks at its time: everything in the queue is later than now, so
  at the next time nothing is in the past.\<close>

lemma step_at_inv:
  assumes env: "env_ok K (si_registry s) E" and inv: "sim_inv K s"
    and k: "k = head_key b (pq_abs (sd_queue (si_sched s)))"
    and tick: "\<forall>u. tick = Some u \<longrightarrow> sim_time s < u \<and> u \<le> b"
    and t: "next_time k tick = Some t"
    and run: "step_at E k t s = Some (res, s')"
  shows "sim_inv K s' \<and> sim_frame s s' \<and> sim_time s < t \<and> t \<le> b \<and> sim_time s' = t \<and>
    (isl res \<longrightarrow> sd_terminated (si_sched s')) \<and> (\<not> isl res \<longrightarrow> res = Inr (Some t))"
proof -
  let ?q = "sd_queue (si_sched s)" and ?fl = "sd_flags (si_sched s)"
  define P where "P = (\<lambda>item. queue_item_ok ?fl item \<and> \<not> isl (fut_of (si_registry s) item))"
  have q: "pq_inv ?q" and ents: "\<And>e. e \<in> set (pq_abs ?q) \<Longrightarrow> sim_time s < fst (fst e) \<and> P (snd e)"
    using inv by (auto simp: sim_inv_def sched_inv_def entries_ok_def sim_time_def P_def)
  have later_k: "k = Some key \<Longrightarrow> e \<in> set (pq_abs ?q) \<Longrightarrow> fst key \<le> fst (fst e)" for key e
  proof -
    assume k': "k = Some key" and e: "e \<in> set (pq_abs ?q)"
    then obtain e1 rest where h: "pq_abs ?q = e1 # rest" "key = fst e1"
      using k by (cases "pq_abs ?q") (auto simp: head_key_def split: if_splits)
    moreover have "sorted (map fst (pq_abs ?q))"
      by (rule pq_abs_sorted)
    ultimately show "fst key \<le> fst (fst e)"
      using e by (fastforce simp: less_eq_prod_def)
  qed
  have key_in: "k = Some key \<Longrightarrow> sim_time s < fst key \<and> fst key \<le> b" for key
    using k ents by (cases "pq_abs ?q") (auto simp: head_key_def split: if_splits)
  have none: "k = None \<Longrightarrow> e \<in> set (pq_abs ?q) \<Longrightarrow> b < fst (fst e)" for e
    using head_key_None [of b ?q e] k by simp
  have tb: "sim_time s < t" "t \<le> b"
    using t tick key_in by (auto simp: next_time_def min_def split: option.splits if_splits)
  have ge: "t \<le> fst (fst e)" if "e \<in> set (pq_abs ?q)" for e
  proof (cases k)
    case None
    then show ?thesis
      using none [OF None that] tb(2) by simp
  next
    case (Some key)
    then have "t \<le> fst key"
      using t by (auto simp: next_time_def min_def split: option.splits if_splits)
    then show ?thesis
      using later_k [OF Some that] by simp
  qed
  have qf: "queue_from P t ?q"
    using q ge ents by (simp add: queue_from_def)
  have per: "P item \<Longrightarrow> item_period item \<noteq> Some 0" for item
    by (cases item) (auto simp: P_def)
  obtain hres sp qu where h: "handle_scheduler_step (en_tai E) (si_registry s) ?fl k t (si_spawned s) ?q =
      Some (hres, sp, qu)"
    and rest: "(case hres of
        Inl e \<Rightarrow> Some (Inl e, (write_time t s)\<lparr>si_sched := (si_sched (write_time t s))\<lparr>sd_queue := qu\<rparr>, si_spawned := sp\<rparr>)
      | Inr h \<Rightarrow> finish_step E t h
          ((write_time t s)\<lparr>si_sched := (si_sched (write_time t s))\<lparr>sd_queue := qu\<rparr>, si_spawned := sp\<rparr>)) =
      Some (res, s')"
    using run by (auto simp: step_at_def Let_def bind_eq_Some_conv)
  let ?s = "(write_time t s)\<lparr>si_sched := (si_sched (write_time t s))\<lparr>sd_queue := qu\<rparr>, si_spawned := sp\<rparr>"
  note hf = handle_scheduler_step_from [OF env_okD(1) [OF env] per qf h k tb(2)]
  have "\<not> isl hres"
    using hf by (auto simp: P_def)
  then obtain hv where hv: "hres = Inr hv"
    by (cases hres) auto
  have "sched_inv (si_sched ?s)" "\<forall>e \<in> set (pq_abs qu). \<not> isl (fut_of (si_registry s) (snd e))"
    using hf hv by (auto simp: sched_inv_def entries_ok_def queue_from_def P_def write_time_def)
  then have s1: "sim_inv K ?s" "sim_frame s ?s" "sim_time ?s = t" "si_registry ?s = si_registry s"
    using inv by (simp_all add: sim_inv_def sim_frame_def write_time_def sim_time_def)
  have "env_ok K (si_registry ?s) E" "finish_step E t hv ?s = Some (res, s')"
    using env s1(4) rest hv by simp_all
  from finish_step_inv [OF this(1) s1(1) this(2)] s1 tb sim_frame_trans [OF s1(2)] show ?thesis
    by simp
qed

abbreviation step_bound :: "('t, 'a, 'f, 'p, 'w, 'c, 'k) sim_env \<Rightarrow> 't option \<Rightarrow> 't" where
  "step_bound E ub \<equiv> (case ub of None \<Rightarrow> tai_max (en_tai E) | Some b \<Rightarrow> b)"

abbreviation clear_halt ::
    "('t, 'a, 'f, 'p, 'w, 'c, 'k) simulation \<Rightarrow> ('t, 'a, 'f, 'p, 'w, 'c, 'k) simulation" where
  "clear_halt s \<equiv> s\<lparr>si_sched := (si_sched s)\<lparr>sd_halted := False\<rparr>\<rparr>"

lemma step_to_next_halted:
  "sd_halted (si_sched s) \<Longrightarrow> step_to_next E ub s = Some (Inl Halted, clear_halt s)"
  by (simp add: step_to_next_def take_halt_flag_def)

lemma step_to_next_terminated:
  "\<not> sd_halted (si_sched s) \<Longrightarrow> sd_terminated (si_sched s) \<Longrightarrow> step_to_next E ub s = Some (Inl Terminated, s)"
  by (simp add: step_to_next_def take_halt_flag_def)

text \<open>A step that is neither halted nor refused: the state after the peek, and what follows.\<close>

lemma step_to_next_live:
  assumes "\<not> sd_halted (si_sched s)" "\<not> sd_terminated (si_sched s)" "step_to_next E ub s = Some (res, s')"
  obtains tick ticker k q where
    "bounded_tick (en_next_tick E) (sim_time s) (step_bound E ub) (si_ticker s) = Some (tick, ticker)"
    "peek_next_key (sd_flags (si_sched s)) (sd_queue (si_sched s)) (step_bound E ub) = (k, q)"
    "(case next_time k tick of
        None \<Rightarrow> Some (Inr None, s\<lparr>si_ticker := ticker, si_sched := (si_sched s)\<lparr>sd_queue := q\<rparr>\<rparr>)
      | Some t \<Rightarrow> step_at E k t (s\<lparr>si_ticker := ticker, si_sched := (si_sched s)\<lparr>sd_queue := q\<rparr>\<rparr>)) =
      Some (res, s')"
proof -
  obtain k q where pk: "peek_next_key (sd_flags (si_sched s)) (sd_queue (si_sched s)) (step_bound E ub) = (k, q)"
    by fastforce
  obtain tick ticker where
    bt: "bounded_tick (en_next_tick E) (sim_time s) (step_bound E ub) (si_ticker s) = Some (tick, ticker)"
    and rest: "(case next_time k tick of
        None \<Rightarrow> Some (Inr None, s\<lparr>si_ticker := ticker, si_sched := (si_sched s)\<lparr>sd_queue := q\<rparr>\<rparr>)
      | Some t \<Rightarrow> step_at E k t (s\<lparr>si_ticker := ticker, si_sched := (si_sched s)\<lparr>sd_queue := q\<rparr>\<rparr>)) =
      Some (res, s')"
    using assms pk by (auto simp: step_to_next_def take_halt_flag_def Let_def bind_eq_Some_conv)
  show ?thesis
    by (rule that [OF bt pk rest])
qed

lemma peeked_inv:
  assumes "sim_inv K s" "peek_next_key (sd_flags (si_sched s)) (sd_queue (si_sched s)) b = (k, q)"
    and "pred_option K tk"
  shows "sim_inv K (s\<lparr>si_ticker := tk, si_sched := (si_sched s)\<lparr>sd_queue := q\<rparr>\<rparr>) \<and>
    k = head_key b (pq_abs q)"
proof -
  have "queue_from (\<lambda>_. True) (sim_time s) (sd_queue (si_sched s))"
    using assms(1)
    by (fastforce simp: queue_from_def sim_inv_def sched_inv_def entries_ok_def sim_time_def)
  from peek_from [OF this assms(2)] assms show ?thesis
    by (auto simp: sim_inv_def sched_inv_def entries_ok_def queue_from_def)
qed

lemma step_to_next_inv:
  assumes env: "env_ok K (si_registry s) E" and inv: "sim_inv K s"
    and run: "step_to_next E ub s = Some (res, s')"
  shows "sim_inv K s' \<and> sim_frame s s' \<and>
    (case res of
       Inl e \<Rightarrow> (if sd_halted (si_sched s) then e = Halted \<and> s' = clear_halt s
          else sd_terminated (si_sched s') \<and> sim_time s \<le> sim_time s' \<and>
            sim_time s' \<le> max (sim_time s) (step_bound E ub))
     | Inr None \<Rightarrow> sim_time s' = sim_time s \<and>
          (\<forall>e \<in> set (pq_abs (sd_queue (si_sched s'))). step_bound E ub < fst (fst e))
     | Inr (Some t) \<Rightarrow> sim_time s < t \<and> t \<le> step_bound E ub \<and> sim_time s' = t)"
proof (cases "sd_halted (si_sched s)")
  case True
  with run inv step_to_next_halted [OF True, of E ub] show ?thesis
    by (auto simp: sim_frame_def)
next
  case halted: False
  show ?thesis
  proof (cases "sd_terminated (si_sched s)")
    case True
    with run inv halted step_to_next_terminated [OF halted True, of E ub] show ?thesis by auto
  next
    case live: False
    obtain tick tk k q where
      bt: "bounded_tick (en_next_tick E) (sim_time s) (step_bound E ub) (si_ticker s) = Some (tick, tk)"
      and pk: "peek_next_key (sd_flags (si_sched s)) (sd_queue (si_sched s)) (step_bound E ub) = (k, q)"
      and rest: "(case next_time k tick of
          None \<Rightarrow> Some (Inr None, s\<lparr>si_ticker := tk, si_sched := (si_sched s)\<lparr>sd_queue := q\<rparr>\<rparr>)
        | Some t \<Rightarrow> step_at E k t (s\<lparr>si_ticker := tk, si_sched := (si_sched s)\<lparr>sd_queue := q\<rparr>\<rparr>)) =
        Some (res, s')"
      using step_to_next_live [OF halted live run] by metis
    let ?s = "s\<lparr>si_ticker := tk, si_sched := (si_sched s)\<lparr>sd_queue := q\<rparr>\<rparr>"
    have tk: "pred_option K tk" "\<forall>t. tick = Some t \<longrightarrow> sim_time s < t \<and> t \<le> step_bound E ub"
      using bounded_tick_ok [OF env _ bt] inv by (simp_all add: sim_inv_def)
    note p = peeked_inv [OF inv pk tk(1)]
    have fr: "sim_frame s ?s" "sim_time ?s = sim_time s" "si_registry ?s = si_registry s"
      by (simp_all add: sim_frame_def sim_time_def)
    show ?thesis
    proof (cases "next_time k tick")
      case None
      then have "k = None" "res = Inr None" "s' = ?s"
        using rest by (auto simp: next_time_def split: option.splits)
      moreover from this have "head_key (step_bound E ub) (pq_abs q) = None"
        using p by simp
      ultimately show ?thesis
        using p fr head_key_None [of "step_bound E ub" q] by simp
    next
      case (Some t)
      have k: "k = head_key (step_bound E ub) (pq_abs (sd_queue (si_sched ?s)))"
        using p by simp
      have "step_at E k t ?s = Some (res, s')"
        using rest Some by simp
      from step_at_inv [OF _ _ k _ Some this, of K] p env fr tk(2) show ?thesis
        using sim_frame_trans [OF fr(1)] halted by (auto split: sum.splits)
    qed
  qed
qed

end
