(* ===== verification/Simulation_Run.thy ===== *)
theory Simulation_Run
  imports Simulation
begin

text \<open>
  Runs of a simulation: properties of \<open>step\<close>, \<open>step_until\<close> and \<open>run\<close>, of the halt and
  termination flags and of the race on the simulation time.
\<close>

subsection \<open>Unfolding the loop\<close>

lemma step_until_err:
  "step_to_next E tgt s = Some (Inl e, s1) \<Longrightarrow> step_until_unchecked E tgt s = Some (Inl e, s1)"
  by (subst step_until_unchecked.simps) simp

lemma step_until_reached:
  "step_to_next E tgt s = Some (Inr tgt, s1) \<Longrightarrow> step_until_unchecked E tgt s = Some (Inr (), s1)"
  by (subst step_until_unchecked.simps) simp

lemma step_until_idle:
  "step_to_next E (Some t) s = Some (Inr None, s1) \<Longrightarrow>
   step_until_unchecked E (Some t) s =
     Some (synchronize E t (write_time t (env_calls (en_tai E) (en_unlocked E (si_sched s1) (si_world s1)) s1)))"
  by (subst step_until_unchecked.simps) simp

lemma step_until_more:
  "step_to_next E tgt s = Some (Inr (Some u), s1) \<Longrightarrow> Some u \<noteq> tgt \<Longrightarrow>
   step_until_unchecked E tgt s = step_until_unchecked E tgt s1"
  by (subst step_until_unchecked.simps) simp

text \<open>The states that the loop passes through.\<close>

inductive stepped ::
    "('t::linorder, 'a, 'f, 'p, 'w, 'c, 'k) sim_env \<Rightarrow> 't option \<Rightarrow> ('t, 'a, 'f, 'p, 'w, 'c, 'k) simulation
      \<Rightarrow> ('t, 'a, 'f, 'p, 'w, 'c, 'k) simulation \<Rightarrow> bool"
  for E tgt s where
  stepped_refl: "stepped E tgt s s"
| stepped_step: "stepped E tgt s s1 \<Longrightarrow> step_to_next E tgt s1 = Some (Inr (Some u), s2) \<Longrightarrow>
    Some u \<noteq> tgt \<Longrightarrow> stepped E tgt s s2"

lemma stepped_Cons:
  assumes "step_to_next E tgt s = Some (Inr (Some u), s1)" "Some u \<noteq> tgt" "stepped E tgt s1 s2"
  shows "stepped E tgt s s2"
  using assms(3,1,2) by induction (auto intro: stepped.intros)

lemma sim_frame_registry: "sim_frame s s' \<Longrightarrow> si_registry s' = si_registry s"
  by (simp add: sim_frame_def)

text \<open>With a target, the loop ends: the times of its steps grow strictly and stay below the
  target.\<close>

lemma step_until_ends:
  assumes "env_ok K (si_registry s) E" "sim_inv K s"
  shows "(\<exists>s1. stepped E (Some t) s s1 \<and> step_to_next E (Some t) s1 = None) \<or>
    step_until_unchecked E (Some t) s \<noteq> None"
  using assms
proof (induction "nat (tai_ns (en_tai E) t - tai_ns (en_tai E) (sim_time s))" arbitrary: s rule: less_induct)
  case less
  show ?case
  proof (cases "step_to_next E (Some t) s")
    case None
    then show ?thesis
      using stepped_refl by blast
  next
    case (Some rs)
    obtain res s1 where rs: "rs = (res, s1)" by fastforce
    note st = Some [unfolded rs]
    note i = step_to_next_inv [OF less.prems st]
    show ?thesis
    proof (cases res)
      case (Inl e)
      with st show ?thesis by (simp add: step_until_err)
    next
      case (Inr u)
      show ?thesis
      proof (cases u)
        case None
        with st Inr show ?thesis by (simp add: step_until_idle)
      next
        case u: (Some v)
        then have v: "sim_time s < v" "v \<le> t" "sim_time s1 = v"
          using i Inr by simp_all
        show ?thesis
        proof (cases "v = t")
          case True
          with st Inr u show ?thesis by (simp add: step_until_reached)
        next
          case False
          have laws: "tai_laws (en_tai E)"
            using env_okD(1) [OF less.prems(1)] .
          have "tai_ns (en_tai E) (sim_time s) < tai_ns (en_tai E) v" "tai_ns (en_tai E) v < tai_ns (en_tai E) t"
            using v False tai_less_iff [OF laws] by (metis, metis order.not_eq_order_implies_strict)
          then have lt: "nat (tai_ns (en_tai E) t - tai_ns (en_tai E) (sim_time s1))
              < nat (tai_ns (en_tai E) t - tai_ns (en_tai E) (sim_time s))"
            using v(3) by simp
          have "env_ok K (si_registry s1) E" "sim_inv K s1"
            using less.prems i sim_frame_registry by (auto simp: sim_frame_def)
          from less.hyps [OF lt this] show ?thesis
            using step_until_more [of E "Some t" s v s1] stepped_Cons [of E "Some t" s v s1] st Inr u False
            by auto
        qed
      qed
    qed
  qed
qed

text \<open>If no other thread schedules anything in the window without a lock, the loop keeps the
  invariant and ends at the target.\<close>

lemma write_time_inv:
  assumes "sim_inv K s" "\<forall>e \<in> set (pq_abs (sd_queue (si_sched s))). t < fst (fst e)"
  shows "sim_inv K (write_time t s) \<and> sim_frame s (write_time t s)"
  using assms by (fastforce simp: sim_inv_def sim_frame_def write_time_def sched_inv_def entries_ok_def)

lemma step_until_inv:
  assumes "env_ok K (si_registry s) E" "sim_inv K s" "\<And>sc w. en_unlocked E sc w = []"
    and "sim_time s \<le> t" "step_until_unchecked E (Some t) s = Some (res, s')"
  shows "sim_inv K s' \<and> sim_frame s s' \<and> sim_time s \<le> sim_time s' \<and> sim_time s' \<le> t \<and>
    (case res of Inl e \<Rightarrow> e = Halted \<or> sd_terminated (si_sched s') | Inr _ \<Rightarrow> sim_time s' = t)"
  using assms
proof (induction "nat (tai_ns (en_tai E) t - tai_ns (en_tai E) (sim_time s))" arbitrary: s rule: less_induct)
  case less
  obtain r1 s1 where st: "step_to_next E (Some t) s = Some (r1, s1)"
    using less.prems(5) by (subst (asm) step_until_unchecked.simps) (auto simp: bind_eq_Some_conv)
  note i = step_to_next_inv [OF less.prems(1,2) st]
  have reg: "env_ok K (si_registry s1) E"
    using less.prems(1) i by (simp add: sim_frame_def)
  show ?case
  proof (cases r1)
    case (Inl e)
    then have "res = Inl e" "s' = s1"
      using less.prems(5) st by (simp_all add: step_until_err)
    then show ?thesis
      using i Inl less.prems(4) by (auto simp: sim_time_def max_def split: if_splits)
  next
    case (Inr u)
    show ?thesis
    proof (cases u)
      case None
      with i Inr have s1: "sim_time s1 = sim_time s" "sim_inv K (write_time t s1)" "sim_frame s1 (write_time t s1)"
        using write_time_inv [of K s1 t] by auto
      have sy: "synchronize E t (write_time t s1) = (res, s')"
        using less.prems(3,5) st Inr None by (simp add: step_until_idle env_calls_def)
      have "env_ok K (si_registry (write_time t s1)) E"
        using reg by simp
      note y = synchronize_inv [OF this s1(2) sy]
      have "sim_frame s s'"
        using i s1(3) y by (simp add: sim_frame_def)
      with y less.prems(4) show ?thesis
        by (cases res) auto
    next
      case u: (Some v)
      then have v: "sim_time s < v" "v \<le> t" "sim_time s1 = v"
        using i Inr by simp_all
      show ?thesis
      proof (cases "v = t")
        case True
        then have "res = Inr ()" "s' = s1"
          using st Inr u less.prems(5) by (simp_all add: step_until_reached)
        with True v i show ?thesis by auto
      next
        case False
        have laws: "tai_laws (en_tai E)"
          using env_okD(1) [OF less.prems(1)] .
        have "tai_ns (en_tai E) (sim_time s) < tai_ns (en_tai E) v" "tai_ns (en_tai E) v < tai_ns (en_tai E) t"
          using v False tai_less_iff [OF laws] by (metis, metis order.not_eq_order_implies_strict)
        then have lt: "nat (tai_ns (en_tai E) t - tai_ns (en_tai E) (sim_time s1))
            < nat (tai_ns (en_tai E) t - tai_ns (en_tai E) (sim_time s))"
          using v(3) by simp
        have "step_until_unchecked E (Some t) s1 = Some (res, s')"
          using less.prems(5) step_until_more [of E "Some t" s v s1] st Inr u False by simp
        note h = less.hyps [OF lt reg _ less.prems(3) _ this]
        have "sim_frame s s'"
          using i h v by (simp add: sim_frame_def)
        with h i v show ?thesis by auto
      qed
    qed
  qed
qed

subsection \<open>The first live key\<close>

lemma peek_first:
  assumes "pq_inv q" "peek_next_key flags q b = (Some key, q1)"
  shows "pq_inv q1 \<and> pq_next_epoch q1 = pq_next_epoch q \<and> ready flags (fst key) (pq_abs q1) \<and> fst key \<le> b \<and>
    batch flags (fst key) (pq_abs q1) = batch flags (fst key) (pq_abs q) \<and>
    batch flags (fst key) (pq_abs q) \<noteq> [] \<and>
    later (fst key) (pq_abs q1) = later (fst key) (pq_abs q) \<and>
    Some key = first_key (batch flags (fst key) (pq_abs q)) \<and>
    (\<forall>e \<in> set (pq_abs q). fst (fst e) < fst key \<longrightarrow> item_cancelled flags (snd e))"
proof -
  let ?t = "fst key"
  note a = peek_next_key_abs [OF assms]
  then obtain e rest where h: "pq_abs q1 = e # rest" "key = fst e" "fst key \<le> b"
    by (auto split: list.splits if_splits)
  have dw: "dropWhile (stale flags b) (pq_abs q) = e # rest"
    using a h(1) by simp
  then have live: "\<not> item_cancelled flags (snd e)"
    using h(2,3) by (simp add: dropWhile_eq_Cons_conv)
  have split: "pq_abs q = takeWhile (stale flags b) (pq_abs q) @ e # rest"
    using dw by (metis takeWhile_dropWhile_id)
  have st: "\<forall>x \<in> set (takeWhile (stale flags b) (pq_abs q)). item_cancelled flags (snd x)"
    by (auto dest: set_takeWhileD)
  have "sorted (map fst (takeWhile (stale flags b) (pq_abs q) @ e # rest))"
    using pq_abs_sorted [of q] split by metis
  then have before: "\<forall>x \<in> set (takeWhile (stale flags b) (pq_abs q)). fst (fst x) \<le> ?t"
    and after: "\<forall>x \<in> set rest. ?t \<le> fst (fst x)"
    by (auto simp: sorted_append h(2) less_eq_prod_def)
  have b1: "batch flags ?t (pq_abs q1) = batch flags ?t (pq_abs q)"
    using a by (simp add: batch_stale)
  have b2: "batch flags ?t (pq_abs q1) = e # batch flags ?t rest"
    using h(1,2) live by (cases e) (simp add: batch_def)
  have "later ?t (pq_abs q) = later ?t (e # rest)"
    using before by (subst split) (auto simp: later_def filter_empty_conv)
  moreover have "ready flags ?t (pq_abs q1)"
    using b2 h(1,2) after by (auto simp: ready_def)
  moreover have "\<forall>x \<in> set (pq_abs q). fst (fst x) < ?t \<longrightarrow> item_cancelled flags (snd x)"
  proof (intro ballI impI)
    fix x
    assume x: "x \<in> set (pq_abs q)" "fst (fst x) < ?t"
    then have "x \<in> set (takeWhile (stale flags b) (pq_abs q)) \<or> x = e \<or> x \<in> set rest"
      by (subst (asm) split) auto
    with st after x(2) h(2) show "item_cancelled flags (snd x)"
      by (auto simp: not_le [symmetric])
  qed
  moreover have "Some key = first_key (batch flags ?t (pq_abs q))" "batch flags ?t (pq_abs q) \<noteq> []"
    using b1 b2 h(2) by (simp_all add: first_key_def)
  ultimately show ?thesis
    using a b1 h by simp
qed

subsection \<open>An environment to run in\<close>

text \<open>No clock, no ticks, and an executor whose models do nothing; \<open>u\<close> gives the calls of other
  threads while the simulation holds no lock.\<close>

type_synonym plain_fut = "nat \<times> nat option"

definition plain_env ::
    "((int, nat) sched \<Rightarrow> (int, nat, plain_fut) env_call list)
      \<Rightarrow> (int, nat, plain_fut, unit, unit, unit, unit) sim_env" where
  "plain_env u = \<lparr>
     en_tai = ns_tai 100,
     en_next_tick = (\<lambda>_ _. None),
     en_synchronize = (\<lambda>t c s w. (no_clock_synchronize t, c, [], w)),
     en_run = (\<lambda>d fs s w. (None, [], w)),
     en_unlocked = (\<lambda>s w. u s),
     en_mailbox_len = (\<lambda>w i. 0),
     en_is_send_error = (\<lambda>p. False),
     en_reply = (\<lambda>w i. None)\<rparr>"

definition plain_sim ::
    "int \<Rightarrow> (int, nat) squeue \<Rightarrow> (nat, plain_fut) injector_queue
      \<Rightarrow> (int, nat, plain_fut, unit, unit, unit, unit) simulation" where
  "plain_sim t q iq = \<lparr>
     si_sched = \<lparr>sd_queue = q, sd_time = t, sd_flags = [], sd_replies = 0, sd_halted = False, sd_terminated = False\<rparr>,
     si_registry = byte_registry, si_injector = iq, si_clock = (), si_tolerance = None, si_ticker = None,
     si_timeout = 0, si_observers = [], si_models = [], si_spawned = [], si_keys = Map.empty, si_world = ()\<rparr>"

lemma ev_period_simps [simp]:
  "ev_period (with_period p ev) = Some p" "ev_period (event_new i a) = None"
  by (simp_all add: with_period_def event_new_def)

lemma byte_fut_of:
  "fut_of (byte_registry :: (nat, plain_fut, int, unit) registry) (QEvent (event_new 0 a)) = Inr (a, None)"
  "fut_of (byte_registry :: (nat, plain_fut, int, unit) registry) (QEvent (with_period p (event_new 0 a))) = Inr (a, None)"
  by (simp_all add: fut_of_def byte_registry_def get_event_source_def with_period_def event_new_def
      input_source_def byte_arg_def)

lemma plain_env_ok:
  assumes "\<And>s. list_all (call_ok (byte_registry :: (nat, plain_fut, int, unit) registry)) (u s)"
  shows "env_ok K byte_registry (plain_env u)"
  using assms by (simp add: env_ok_def plain_env_def)

lemma plain_sim_inv:
  "pq_inv q \<Longrightarrow> entries_ok t [] (pq_abs q) \<Longrightarrow>
   \<forall>e \<in> set (pq_abs q). \<not> isl (fut_of (byte_registry :: (nat, plain_fut, int, unit) registry) (snd e)) \<Longrightarrow>
   pq_inv iq \<Longrightarrow>
   \<forall>e \<in> set (pq_abs iq). \<not> isl (injector_fire (byte_registry :: (nat, plain_fut, int, unit) registry) (snd e)) \<Longrightarrow>
   sim_inv K (plain_sim t q iq)"
  by (simp add: sim_inv_def plain_sim_def sched_inv_def)

lemma plain_sim_simps [simp]:
  "sd_halted (si_sched (plain_sim t q iq)) = False" "sd_terminated (si_sched (plain_sim t q iq)) = False"
  "sd_queue (si_sched (plain_sim t q iq)) = q" "sd_flags (si_sched (plain_sim t q iq)) = []"
  "si_registry (plain_sim t q iq) = byte_registry" "si_ticker (plain_sim t q iq) = None"
  "sim_time (plain_sim t q iq) = t" "si_spawned (plain_sim t q iq) = []"
  "si_injector (plain_sim t q iq) = iq"
  by (simp_all add: plain_sim_def sim_time_def)

lemma peek_empty: "pq_inv q \<Longrightarrow> pq_abs q = [] \<Longrightarrow> peek_next_key flags q b = (None, q)"
  by (subst peek_next_key.simps) (simp add: pq_peek_abs)

text \<open>With an empty queue and no ticker a step finds nothing to do.\<close>

lemma plain_step_idle:
  assumes "pq_inv q" "pq_abs q = []"
  shows "step_to_next (plain_env u) (Some b) (plain_sim t q iq) = Some (Inr None, plain_sim t q iq)"
proof -
  have "(plain_sim t q iq)\<lparr>si_ticker := None, si_sched := (si_sched (plain_sim t q iq))\<lparr>sd_queue := q\<rparr>\<rparr> = plain_sim t q iq"
    by (simp add: plain_sim_def)
  then show ?thesis
    by (simp add: step_to_next_def take_halt_flag_def bounded_tick_def peek_empty [OF assms] next_time_def)
qed

lemma plain_sync:
  "synchronize (plain_env u) t s = (Inr (), s\<lparr>si_clock := (), si_world := ()\<rparr>)"
  by (simp add: synchronize_def plain_env_def no_clock_synchronize_def env_calls_def Let_def)

text \<open>In tickless mode the step fires the batch of the first live key.\<close>

lemma step_to_next_batch:
  assumes "\<not> sd_halted (si_sched s)" "\<not> sd_terminated (si_sched s)" "si_ticker s = None"
    and "pq_inv (sd_queue (si_sched s))"
    and "peek_next_key (sd_flags (si_sched s)) (sd_queue (si_sched s)) (step_bound E ub) = (Some (t, i), q1)"
    and "\<forall>e \<in> set (batch (sd_flags (si_sched s)) t (pq_abs (sd_queue (si_sched s)))).
      can_fire (en_tai E) (si_registry s) e"
    and "pq_next_epoch (sd_queue (si_sched s)) +
      length (batch (sd_flags (si_sched s)) t (pq_abs (sd_queue (si_sched s)))) \<le> u64_max"
  shows "\<exists>q'. step_to_next E ub s = finish_step E t True
      (s\<lparr>si_sched := (si_sched s)\<lparr>sd_time := t, sd_queue := q'\<rparr>,
         si_spawned := si_spawned s @ map (map (entry_fut (si_registry s)))
           (runs (batch (sd_flags (si_sched s)) t (pq_abs (sd_queue (si_sched s)))))\<rparr>) \<and>
    pq_inv q' \<and> pq_abs q' = fold (reinsert (en_tai E))
      (batch (sd_flags (si_sched s)) t (pq_abs (sd_queue (si_sched s)))) (later t (pq_abs (sd_queue (si_sched s))))"
proof -
  let ?q = "sd_queue (si_sched s)" and ?fl = "sd_flags (si_sched s)"
  note p = peek_first [OF assms(4,5), unfolded fst_conv]
  have "step_ok (en_tai E) (si_registry s) ?fl t q1"
    using p assms(6,7) by (simp add: step_ok_def)
  from handle_scheduler_step_ok [OF this, of "si_spawned s"] p obtain q' where
    q': "pq_inv q'" "pq_abs q' = fold (reinsert (en_tai E)) (batch ?fl t (pq_abs ?q)) (later t (pq_abs ?q))"
    and h: "handle_scheduler_step (en_tai E) (si_registry s) ?fl (Some (t, i)) t (si_spawned s) q1 =
      Some (Inr True, si_spawned s @ map (map (entry_fut (si_registry s))) (runs (batch ?fl t (pq_abs ?q))), q')"
    by (metis (no_types, lifting))
  have no_ticker: "s\<lparr>si_ticker := None, si_sched := sc, si_spawned := sp\<rparr> = s\<lparr>si_sched := sc, si_spawned := sp\<rparr>"
    for sc sp
    using assms(3) by (cases s) simp
  have "step_to_next E ub s = finish_step E t True
      (s\<lparr>si_sched := (si_sched s)\<lparr>sd_time := t, sd_queue := q'\<rparr>,
         si_spawned := si_spawned s @ map (map (entry_fut (si_registry s))) (runs (batch ?fl t (pq_abs ?q)))\<rparr>)"
    using assms(1-3,5) h
    by (simp add: no_ticker step_to_next_def take_halt_flag_def bounded_tick_def next_time_def step_at_def write_time_def)
  with q' show ?thesis by blast
qed

lemma plain_run:
  "run_executor (plain_env u) s =
     (if sd_terminated (si_sched s) then Some (Inl Terminated, s)
      else Some (Inr (), s\<lparr>si_spawned := [], si_world := ()\<rparr>))"
  by (simp add: run_executor_def plain_env_def env_calls_def Let_def)

lemma injector_empty: "pq_inv q \<Longrightarrow> pq_abs q = [] \<Longrightarrow> handle_injector_step r sp q = (Inr False, sp, q)"
  by (simp add: handle_injector_step_def pq_peek_abs)

subsection \<open>Properties\<close>





text \<open>C2: \<open>step_until\<close> ends at its target: if it returns without error, simulation time equals the
  target, the invariant holds, so that nothing up to the target is left in the queue, and
  time never moved backwards. This holds as long as no other thread schedules anything
  while the simulation holds no lock.\<close>

theorem step_until_reaches_target:
  assumes "env_ok K (si_registry s) E" "sim_inv K s" "\<And>sc w. en_unlocked E sc w = []"
    and "into_time (en_tai E) deadline (sim_time s) = Some t" "sim_time s \<le> t"
    and "step_until E deadline s = Some (res, s')"
  shows "sim_inv K s' \<and> sim_time s \<le> sim_time s' \<and> sim_time s' \<le> t \<and>
    (case res of Inl e \<Rightarrow> e = Halted \<or> sd_terminated (si_sched s') | Inr _ \<Rightarrow> sim_time s' = t)"
proof -
  have "step_until_unchecked E (Some t) s = Some (res, s')"
    using assms(4-6) leD [OF assms(5)] by (simp add: step_until_def)
  from step_until_inv [OF assms(1-3,5) this] show ?thesis by simp
qed

theorem step_until_reaches_target_witness:
  "\<exists>s'. step_until (plain_env (\<lambda>s. [])) (DlTime 9) (plain_sim 3 pq_new pq_new) = Some (Inr (), s') \<and> sim_time s' = 9"
proof -
  let ?E = "plain_env (\<lambda>s. [])" and ?s = "plain_sim 3 pq_new pq_new"
  have st: "step_to_next ?E (Some 9) ?s = Some (Inr None, ?s)"
    by (rule plain_step_idle) simp_all
  have i: "sim_inv (\<lambda>_. True) ?s"
    by (rule plain_sim_inv) (simp_all add: entries_ok_def)
  have e: "env_ok (\<lambda>_. True) (si_registry ?s) ?E"
    by (simp add: plain_env_ok)
  obtain s' where r: "step_until ?E (DlTime 9) ?s = Some (Inr (), s')"
    by (simp add: step_until_def step_until_idle [OF st] plain_sync)
  have "en_unlocked ?E sc w = []" for sc w
    by (simp add: plain_env_def)
  from step_until_reaches_target [OF e i this _ _ r, of 9] r show ?thesis
    by auto
qed





text \<open>A halt request stops the next step before anything happens, and exactly one: the flag is
  consumed with the error, the rest of the state is untouched, and without a new request
  the following step is not halted.\<close>

lemma halt_stops_once:
  "step_to_next E ub (s\<lparr>si_sched := halt (si_sched s)\<rparr>) = Some (Inl Halted, clear_halt s) \<and>
   fst (take_halt_flag (clear_halt s)) = Inr ()"
  by (simp add: step_to_next_halted halt_def take_halt_flag_def)

text \<open>A thread that schedules an event for time 5 while the simulation, at time 0, holds no lock.\<close>

definition racing_env :: "(int, nat, plain_fut, unit, unit, unit, unit) sim_env" where
  "racing_env = plain_env (\<lambda>s. if sd_time s = 0 then [CallSched (ApiEvent (DlTime 5) 0 7 global_origin_id)] else [])"

text \<open>C8: Simulation time can be set back. After the last step before its target, \<open>step_until\<close>
  writes the target time without holding the queue's lock; an event that another thread
  schedules in between, still in the future when it is accepted, is then in the past, and
  the next step moves simulation time from 10 back to 5.\<close>

theorem step_until_race:
  "\<exists>s0 s1 s2. sim_inv (\<lambda>_. True) s0 \<and> env_ok (\<lambda>_. True) (si_registry s0) racing_env \<and>
     step_until racing_env (DlTime 10) s0 = Some (Inr (), s1) \<and> sim_time s1 = 10 \<and>
     step racing_env s1 = Some (Inr (), s2) \<and> sim_time s2 = 5"
proof -
  let ?s = "plain_sim 0 pq_new pq_new" and ?i = "QEvent (event_new 0 (7 :: nat))" and ?g = global_origin_id
  have inv: "sim_inv (\<lambda>_. True) ?s"
    by (rule plain_sim_inv) (simp_all add: entries_ok_def)
  have env: "env_ok (\<lambda>_. True) (si_registry ?s) racing_env"
    unfolding racing_env_def plain_sim_simps by (rule plain_env_ok) (simp add: byte_fut_of)
  obtain q where q: "pq_insert (5 :: int, ?g) ?i pq_new = Some q"
    and abs: "pq_inv q" "pq_abs q = [((5, ?g), ?i)]" "pq_next_epoch q = 1"
    using pq_insert_new [of "(5 :: int, ?g)" ?i] by blast
  have st: "step_to_next racing_env (Some 10) ?s = Some (Inr None, ?s)"
    unfolding racing_env_def by (rule plain_step_idle) simp_all
  have calls: "env_calls (ns_tai 100) [CallSched (ApiEvent (DlTime 5) 0 7 ?g)] ?s = plain_sim 0 q pq_new"
    using q by (simp add: env_calls_def schedule_event_from_def plain_sim_def)
  have "en_tai racing_env = ns_tai 100"
    "en_unlocked racing_env (si_sched ?s) (si_world ?s) = [CallSched (ApiEvent (DlTime 5) 0 7 ?g)]"
    by (simp_all add: racing_env_def plain_env_def plain_sim_def)
  then have u: "step_until racing_env (DlTime 10) ?s = Some (Inr (), plain_sim 10 q pq_new)"
    using step_until_idle [OF st] calls
    by (simp add: step_until_def racing_env_def plain_sync write_time_def plain_sim_def sim_time_def)
  have nc: "\<not> item_cancelled [] ?i"
    by (simp add: event_is_cancelled_def event_new_def)
  let ?s1 = "plain_sim 10 q pq_new"
  have pk: "peek_next_key (sd_flags (si_sched ?s1)) (sd_queue (si_sched ?s1)) (step_bound racing_env None) = (Some (5, ?g), q)"
    using nc by (subst peek_next_key.simps) (simp add: pq_peek_abs [OF abs(1)] abs(2) racing_env_def plain_env_def ns_tai_def)
  have b: "batch [] 5 (pq_abs q) = [((5, ?g), ?i)]"
    using nc by (simp add: abs(2) batch_def)
  obtain q' where "step_to_next racing_env None ?s1 = finish_step racing_env 5 True
      (?s1\<lparr>si_sched := (si_sched ?s1)\<lparr>sd_time := 5, sd_queue := q'\<rparr>,
         si_spawned := si_spawned ?s1 @ map (map (entry_fut (si_registry ?s1))) (runs (batch [] 5 (pq_abs q)))\<rparr>)"
    using step_to_next_batch [OF _ _ _ _ pk] abs b by (auto simp: can_fire_def byte_fut_of u64_max_def)
  then have "\<exists>s2. step racing_env ?s1 = Some (Inr (), s2) \<and> sim_time s2 = 5"
    by (simp add: step_def finish_step_def injector_empty racing_env_def plain_sync plain_run)
      (simp add: plain_sim_def sim_time_def)
  with inv env u show ?thesis
    by (metis plain_sim_simps(7))
qed

text \<open>C9: Injected items wait for a step: when no event is scheduled up to the target and there is
  no ticker, \<open>step_until\<close> only advances the time and waits for the clock, leaving everything
  that was injected in the injector queue.\<close>

theorem step_until_skips_injected:
  assumes "\<not> sd_halted (si_sched s)" "\<not> sd_terminated (si_sched s)" "si_ticker s = None"
    and "pq_inv (sd_queue (si_sched s))" "pq_abs (sd_queue (si_sched s)) = []"
    and "\<And>sc w. en_unlocked E sc w = []" "sim_time s < t"
  shows "step_until E (DlTime t) s = Some (synchronize E t (write_time t s)) \<and>
    si_injector (write_time t s) = si_injector s"
proof -
  have same: "s\<lparr>si_ticker := None, si_sched := (si_sched s)\<lparr>sd_queue := sd_queue (si_sched s)\<rparr>\<rparr> = s"
    using assms(3) by (cases s) simp
  have st: "step_to_next E (Some t) s = Some (Inr None, s)"
    using assms(1-3) same
    by (simp add: step_to_next_def take_halt_flag_def bounded_tick_def peek_empty [OF assms(4,5)] next_time_def)
  show ?thesis
    using step_until_idle [OF st] assms(6) leD [OF less_imp_le [OF assms(7)]]
    by (simp add: step_until_def env_calls_def write_time_def)
qed

theorem step_until_skips_injected_witness:
  "\<exists>iq. pq_abs iq = [(3, IFuture (5, None))] \<and>
     step_until (plain_env (\<lambda>s. [])) (DlTime 9) (plain_sim 3 pq_new iq) = Some (Inr (), plain_sim 9 pq_new iq)"
proof -
  obtain iq where iq: "pq_abs iq = [(3 :: nat, IFuture (5, None) :: (nat, plain_fut) injector_item)]"
    using pq_singleton [of "3 :: nat" "IFuture (5, None) :: (nat, plain_fut) injector_item"] by blast
  have "step_until (plain_env (\<lambda>s. [])) (DlTime 9) (plain_sim 3 pq_new iq) =
      Some (synchronize (plain_env (\<lambda>s. [])) 9 (write_time 9 (plain_sim 3 pq_new iq)))"
    by (rule conjunct1 [OF step_until_skips_injected]) (simp_all add: plain_env_def)
  with iq show ?thesis
    by (auto simp: plain_sync write_time_def plain_sim_def)
qed

end
