(* ===== verification/Save_Restore.thy ===== *)
theory Save_Restore
  imports Simulation_Run
begin

text \<open>
  Model of saving and restoring a simulation: \<open>Simulation::save\<close> and \<open>Simulation::restore\<close> of
  \<^verbatim>\<open>src/nexosim/src/simulation.rs\<close>, and the registered models of
  \<^verbatim>\<open>src/nexosim/src/model.rs\<close> that serialize and deserialize themselves on request.

  A model is serialized by a future that the executor runs; the reply slot is read from the
  world by the functions of the record \<open>model_io\<close>. The encodings of the queue and of the
  complete state by \<open>bincode\<close> are the record \<open>state_codec\<close>, with the law that decoding inverts
  encoding.
\<close>

subsection \<open>Serialization of a model\<close>

text \<open>The \<open>bincode\<close> functions at the type of a model. Encoding a model while the port registry is
  set appends clones of its ports to the registry, decoding takes ports from its front and
  restores event keys through the key registry.\<close>

record ('m, 'q) model_codec =
  mc_name :: string
  mc_enc :: "'m \<Rightarrow> (bytes \<times> 'q list) option"
  mc_dec :: "bytes \<Rightarrow> 'q list \<Rightarrow> key_reg \<times> key_flags \<Rightarrow> 'm option \<times> key_reg \<times> key_flags"

definition serialize_model ::
    "('m, 'q) model_codec \<Rightarrow> 'm \<Rightarrow> path \<Rightarrow> ('t, 'p) execution_error + bytes" where
  "serialize_model C model path =
     (case mc_enc C model of
        None \<Rightarrow> Inl (SaveErr (SaveModelSerializationError path (mc_name C)))
      | Some (b, _) \<Rightarrow> Inr b)"

definition deserialize_model ::
    "('m, 'q) model_codec \<Rightarrow> 'm \<Rightarrow> bytes \<Rightarrow> key_reg \<times> key_flags \<Rightarrow> path
      \<Rightarrow> (('t, 'p) execution_error + unit) \<times> 'm \<times> key_reg \<times> key_flags" where
  "deserialize_model C model state ks path =
     (case mc_enc C model of
        None \<Rightarrow> (Inl (RestoreErr (RestoreModelSerializationError path (mc_name C))), model, ks)
      | Some (_, ports) \<Rightarrow>
          (case mc_dec C state ports ks of
             (None, ks') \<Rightarrow> (Inl (RestoreErr (ModelDeserializationError path (mc_name C))), model, ks')
           | (Some restored, ks') \<Rightarrow> (Inr (), restored, ks')))"

text \<open>The closures of a registered model: a request to the model through its mailbox, whose reply
  is itself a result.\<close>

record ('t, 'p, 'w) model_io =
  io_saved :: "'w \<Rightarrow> (('t, 'p) execution_error + bytes) option"
  io_restored :: "'w \<Rightarrow> (('t, 'p) execution_error + unit) option"

definition flatten_result :: "('e + ('e + 'x)) \<Rightarrow> 'e + 'x" where
  "flatten_result r = (case r of Inl e \<Rightarrow> Inl e | Inr x \<Rightarrow> x)"

definition model_serialize ::
    "('t::linorder, 'a, 'f, 'p, 'w, 'c, 'k) sim_env \<Rightarrow> ('t, 'p, 'w) model_io \<Rightarrow> 'f registered_model
      \<Rightarrow> ('t, 'a, 'f, 'p, 'w, 'c, 'k, bytes) sim_op" where
  "model_serialize E io m s =
     map_option (\<lambda>(res, s). (flatten_result res, s)) (process_replier_fn E (rm_serialize m) (io_saved io) s)"

definition model_deserialize ::
    "('t::linorder, 'a, 'f, 'p, 'w, 'c, 'k) sim_env \<Rightarrow> ('t, 'p, 'w) model_io \<Rightarrow> 'f registered_model \<Rightarrow> bytes
      \<Rightarrow> ('t, 'a, 'f, 'p, 'w, 'c, 'k, unit) sim_op" where
  "model_deserialize E io m state s =
     map_option (\<lambda>(res, s). (flatten_result res, s))
       (process_replier_fn E (rm_deserialize m state) (io_restored io) s)"

subsection \<open>Saving\<close>

record 't simulation_state =
  ss_models :: "bytes list"
  ss_queue :: bytes
  ss_time :: 't

record 't state_codec =
  enc_queue :: "(('t \<times> nat) \<times> bytes) list \<Rightarrow> bytes option"
  dec_queue :: "bytes \<Rightarrow> (('t \<times> nat) \<times> bytes) list option"
  enc_state :: "'t simulation_state \<Rightarrow> bytes option"
  dec_state :: "bytes \<Rightarrow> 't simulation_state option"

definition codec_laws :: "'t state_codec \<Rightarrow> bool" where
  "codec_laws C \<longleftrightarrow>
     (\<forall>x b. enc_queue C x = Some b \<longrightarrow> dec_queue C b = Some x) \<and>
     (\<forall>x b. enc_state C x = Some b \<longrightarrow> dec_state C b = Some x)"

fun save_models_loop ::
    "('t::linorder, 'a, 'f, 'p, 'w, 'c, 'k) sim_env \<Rightarrow> ('t, 'p, 'w) model_io \<Rightarrow> 'f registered_model list
      \<Rightarrow> bytes list \<Rightarrow> ('t, 'a, 'f, 'p, 'w, 'c, 'k, bytes list) sim_op" where
  "save_models_loop E io [] values s = Some (Inr values, s)"
| "save_models_loop E io (model # models) values s = do {
     (res, s) \<leftarrow> model_serialize E io model s;
     (case res of
        Inl e \<Rightarrow> Some (Inl e, s)
      | Inr b \<Rightarrow> save_models_loop E io models (values @ [b]) s)
   }"

definition save_models ::
    "('t::linorder, 'a, 'f, 'p, 'w, 'c, 'k) sim_env \<Rightarrow> ('t, 'p, 'w) model_io
      \<Rightarrow> ('t, 'a, 'f, 'p, 'w, 'c, 'k, bytes list) sim_op" where
  "save_models E io s0 = do {
     let models = si_models s0;
     (res, s) \<leftarrow> save_models_loop E io models [] (s0\<lparr>si_models := []\<rparr>);
     (case res of
        Inl e \<Rightarrow> Some (Inl e, s)
      | Inr values \<Rightarrow> Some (Inr values, s\<lparr>si_models := models\<rparr>))
   }"

fun save_entries ::
    "bincode \<Rightarrow> key_flags \<Rightarrow> ('a, 'f, 't, 'p) registry \<Rightarrow> (('t \<times> nat) \<times> 'a queue_item) list
      \<Rightarrow> ('t, 'p) execution_error + (('t \<times> nat) \<times> bytes) list" where
  "save_entries B flags r [] = Inr []"
| "save_entries B flags r ((k, v) # rest) =
     (case item_serialize B flags r v of
        Inl e \<Rightarrow> Inl e
      | Inr b \<Rightarrow> (case save_entries B flags r rest of Inl e \<Rightarrow> Inl e | Inr bs \<Rightarrow> Inr ((k, b) # bs)))"

definition save_queue ::
    "bincode \<Rightarrow> 't state_codec \<Rightarrow> ('t, 'a, 'f, 'p, 'w, 'c, 'k) simulation
      \<Rightarrow> ('t, 'p) execution_error + bytes" where
  "save_queue B C s =
     (case save_entries B (sd_flags (si_sched s)) (si_registry s) (pq_iter (sd_queue (si_sched s))) of
        Inl e \<Rightarrow> Inl e
      | Inr queue \<Rightarrow> (case enc_queue C queue of
          None \<Rightarrow> Inl (SaveErr SchedulerQueueSerializationError)
        | Some b \<Rightarrow> Inr b))"

text \<open>The bytes that \<open>save\<close> passes to the writer are its result.\<close>

definition save ::
    "('t::linorder, 'a, 'f, 'p, 'w, 'c, 'k) sim_env \<Rightarrow> ('t, 'p, 'w) model_io \<Rightarrow> bincode \<Rightarrow> 't state_codec
      \<Rightarrow> ('t, 'a, 'f, 'p, 'w, 'c, 'k, bytes) sim_op" where
  "save E io B C s0 = do {
     (res, s) \<leftarrow> save_models E io s0;
     (case res of
        Inl e \<Rightarrow> Some (Inl e, s)
      | Inr models \<Rightarrow>
          (case save_queue B C s of
             Inl e \<Rightarrow> Some (Inl e, s)
           | Inr queue \<Rightarrow>
               (case enc_state C \<lparr>ss_models = models, ss_queue = queue, ss_time = sim_time s\<rparr> of
                  None \<Rightarrow> Some (Inl (SaveErr SimulationStateSerializationError), s)
                | Some b \<Rightarrow> Some (Inr b, s))))
   }"

subsection \<open>Restoring\<close>

fun restore_models_loop ::
    "('t::linorder, 'a, 'f, 'p, 'w, 'c, 'k) sim_env \<Rightarrow> ('t, 'p, 'w) model_io
      \<Rightarrow> ('f registered_model \<times> bytes) list \<Rightarrow> ('t, 'a, 'f, 'p, 'w, 'c, 'k, unit) sim_op" where
  "restore_models_loop E io [] s = Some (Inr (), s)"
| "restore_models_loop E io ((model, state) # rest) s = do {
     (res, s) \<leftarrow> model_deserialize E io model state s;
     (case res of Inl e \<Rightarrow> Some (Inl e, s) | Inr _ \<Rightarrow> restore_models_loop E io rest s)
   }"

definition restore_models ::
    "('t::linorder, 'a, 'f, 'p, 'w, 'c, 'k) sim_env \<Rightarrow> ('t, 'p, 'w) model_io \<Rightarrow> bytes list
      \<Rightarrow> ('t, 'a, 'f, 'p, 'w, 'c, 'k, unit) sim_op" where
  "restore_models E io model_state s0 = do {
     let models = si_models s0;
     (res, s) \<leftarrow> restore_models_loop E io (zip models model_state) (s0\<lparr>si_models := []\<rparr>);
     (case res of
        Inl e \<Rightarrow> Some (Inl e, s)
      | Inr _ \<Rightarrow> Some (Inr (), s\<lparr>si_models := models\<rparr>))
   }"

fun restore_entries ::
    "bincode \<Rightarrow> ('a, 'f, 't, 'p) registry \<Rightarrow> (('t::linorder \<times> nat) \<times> bytes) list
      \<Rightarrow> ('t \<times> nat, 'a queue_item) priority_queue \<Rightarrow> key_reg \<times> key_flags
      \<Rightarrow> ((('t, 'p) execution_error + unit) \<times> ('t \<times> nat, 'a queue_item) priority_queue \<times> key_reg \<times> key_flags) exec" where
  "restore_entries B r [] q ks = Some (Inr (), q, ks)"
| "restore_entries B r ((k, b) # rest) q ks =
     (case item_deserialize B b r ks of
        (Inl e, ks') \<Rightarrow> Some (Inl e, q, ks')
      | (Inr item, ks') \<Rightarrow> do { q' \<leftarrow> pq_insert k item q; restore_entries B r rest q' ks' })"

definition restore_queue ::
    "bincode \<Rightarrow> 't::linorder state_codec \<Rightarrow> bytes \<Rightarrow> ('t, 'a, 'f, 'p, 'w, 'c, 'k, unit) sim_op" where
  "restore_queue B C state s =
     (case dec_queue C state of
        None \<Rightarrow> Some (Inl (RestoreErr SchedulerQueueDeserializationError), s)
      | Some deserialized \<Rightarrow> do {
          (res, q, keys, flags) \<leftarrow> restore_entries B (si_registry s) deserialized
            (pq_clear (sd_queue (si_sched s))) (si_keys s, sd_flags (si_sched s));
          Some (res, s\<lparr>si_sched := (si_sched s)\<lparr>sd_queue := q, sd_flags := flags\<rparr>, si_keys := keys\<rparr>)
        })"

definition restore ::
    "('t::linorder, 'a, 'f, 'p, 'w, 'c, 'k) sim_env \<Rightarrow> ('t, 'p, 'w) model_io \<Rightarrow> bincode \<Rightarrow> 't state_codec
      \<Rightarrow> bytes \<Rightarrow> ('t, 'a, 'f, 'p, 'w, 'c, 'k, 't) sim_op" where
  "restore E io B C bytes s0 =
     (let s = s0\<lparr>si_keys := Map.empty\<rparr> in
      (case dec_state C bytes of
         None \<Rightarrow> Some (Inl (RestoreErr SimulationStateDeserializationError), s)
       | Some state \<Rightarrow> do {
           (res, s) \<leftarrow> restore_models E io (ss_models state) s;
           (case res of
              Inl e \<Rightarrow> Some (Inl e, s)
            | Inr _ \<Rightarrow> map_option (\<lambda>(res, s). (map_sum id (\<lambda>_. ss_time state) res, s))
                (restore_queue B C (ss_queue state) s))
         }))"

subsection \<open>The queue\<close>

lemma save_entries_ok:
  "save_entries B flags r xs = Inr ys \<Longrightarrow>
     list_all2 (\<lambda>(k, v) (k', b). k' = k \<and> item_serialize B flags r v = Inr b) xs ys"
proof (induction xs arbitrary: ys)
  case (Cons x xs)
  then show ?case by (cases x) (auto split: sum.splits)
qed simp

definition entries_restored :: "key_reg \<Rightarrow> ('k \<times> 'a queue_item) list \<Rightarrow> ('k \<times> 'a queue_item) list \<Rightarrow> bool" where
  "entries_restored reg = list_all2 (\<lambda>(k, v) (k', v'). k' = k \<and> item_restored reg v v')"

lemma entries_restored_simps [simp]:
  "entries_restored reg [] ys = (ys = [])" "entries_restored reg xs [] = (xs = [])"
  "entries_restored reg (x # xs) (y # ys) =
     (fst y = fst x \<and> item_restored reg (snd x) (snd y) \<and> entries_restored reg xs ys)"
  by (auto simp: entries_restored_def split: prod.splits)

lemma restore_entries_ok:
  assumes "bincode_laws B" "registry_ok r"
  shows "list_all2 (\<lambda>(k, v) (k', b). k' = k \<and> item_serialize B old r v = Inr b) xs ys \<Longrightarrow>
    keys_ok old (reg, flags) \<Longrightarrow> pq_inv q \<Longrightarrow> pq_next_epoch q + length ys \<le> u64_max \<Longrightarrow>
    \<exists>items q' reg' flags'. restore_entries B r ys q (reg, flags) = Some (Inr (), q', reg', flags') \<and>
      keys_ok old (reg', flags') \<and> reg \<subseteq>\<^sub>m reg' \<and> entries_restored reg' xs items \<and>
      iter_insert pq_insert items q = Some q'"
proof (induction ys arbitrary: xs q reg flags)
  case (Cons y ys)
  obtain k b where y: "y = (k, b)" by fastforce
  with Cons.prems(1) obtain v xs' where xs: "xs = (k, v) # xs'" and v: "item_serialize B old r v = Inr b"
    and rest: "list_all2 (\<lambda>(k, v) (k', b). k' = k \<and> item_serialize B old r v = Inr b) xs' ys"
    by (auto simp: list_all2_Cons2)
  from item_roundtrip [OF assms Cons.prems(2) v] obtain v' reg1 flags1 where
    v': "item_deserialize B b r (reg, flags) = (Inr v', reg1, flags1)" "keys_ok old (reg1, flags1)"
      "reg \<subseteq>\<^sub>m reg1" "item_restored reg1 v v'"
    by (elim exE conjE)
  obtain q1 where q1: "pq_insert k v' q = Some q1"
    using pq_insert_Some [of q k v'] Cons.prems(4) by auto
  from pq_insert_abs [OF Cons.prems(3) q1] have "pq_inv q1" by simp
  moreover have "pq_next_epoch q1 + length ys \<le> u64_max"
    using q1 Cons.prems(4) by (auto simp: pq_insert_def Let_def split: if_splits)
  ultimately have "\<exists>items q' reg' flags'. restore_entries B r ys q1 (reg1, flags1) = Some (Inr (), q', reg', flags') \<and>
      keys_ok old (reg', flags') \<and> reg1 \<subseteq>\<^sub>m reg' \<and> entries_restored reg' xs' items \<and>
      iter_insert pq_insert items q1 = Some q'"
    by (rule Cons.IH [OF rest v'(2)])
  then obtain items q' reg' flags' where
    "restore_entries B r ys q1 (reg1, flags1) = Some (Inr (), q', reg', flags')"
    "keys_ok old (reg', flags')" "reg1 \<subseteq>\<^sub>m reg'" "entries_restored reg' xs' items"
    "iter_insert pq_insert items q1 = Some q'"
    by (elim exE conjE)
  with v' q1 y xs have "restore_entries B r (y # ys) q (reg, flags) = Some (Inr (), q', reg', flags') \<and>
      keys_ok old (reg', flags') \<and> reg \<subseteq>\<^sub>m reg' \<and> entries_restored reg' xs ((k, v') # items) \<and>
      iter_insert pq_insert ((k, v') # items) q = Some q'"
    by (auto intro: map_le_trans item_restored_mono)
  then show ?case by blast
qed simp

lemma entries_restored_insort:
  "fst y = fst x \<Longrightarrow> item_restored reg (snd x) (snd y) \<Longrightarrow> entries_restored reg xs ys \<Longrightarrow>
     entries_restored reg (insort_key fst x xs) (insort_key fst y ys)"
proof (induction xs arbitrary: ys)
  case (Cons x' xs)
  then show ?case by (cases ys) auto
qed (auto split: list.splits)

lemma entries_restored_sort:
  "entries_restored reg xs ys \<Longrightarrow> entries_restored reg (sort_key fst xs) (sort_key fst ys)"
proof (induction xs arbitrary: ys)
  case (Cons x xs)
  then show ?case by (cases ys) (auto intro: entries_restored_insort)
qed simp

lemma pq_length_bound:
  assumes "pq_inv q"
  shows "length (pq_iter q) \<le> u64_max"
proof -
  have "it_epoch ` set (pq_heap q) \<subseteq> {..<pq_next_epoch q}" "distinct (map it_epoch (pq_heap q))"
    using assms by (auto simp: pq_inv_def)
  then have "length (pq_heap q) \<le> pq_next_epoch q"
    by (metis card_lessThan card_mono distinct_card finite_lessThan length_map set_map)
  with assms show ?thesis
    by (simp add: pq_inv_def pq_iter_def bh_iter_def)
qed

lemma pq_clear_simps [simp]: "pq_inv (pq_clear q)" "pq_abs (pq_clear q) = []" "pq_next_epoch (pq_clear q) = 0"
  by (simp_all add: pq_clear_def pq_inv_def pq_abs_def pq_sorted_def)

lemma restore_queue_ok:
  assumes "bincode_laws B" "codec_laws C" "registry_ok (si_registry s)" "pq_inv (sd_queue (si_sched s))"
    and "save_queue B C s = Inr b" "si_registry s0 = si_registry s"
    and "keys_ok (sd_flags (si_sched s)) (si_keys s0, sd_flags (si_sched s0))"
  shows "\<exists>q keys flags. restore_queue B C b s0 =
      Some (Inr (), s0\<lparr>si_sched := (si_sched s0)\<lparr>sd_queue := q, sd_flags := flags\<rparr>, si_keys := keys\<rparr>) \<and>
    pq_inv q \<and> keys_ok (sd_flags (si_sched s)) (keys, flags) \<and> si_keys s0 \<subseteq>\<^sub>m keys \<and>
    entries_restored keys (sort_key fst (pq_iter (sd_queue (si_sched s)))) (pq_abs q)"
proof -
  let ?q = "sd_queue (si_sched s)" and ?old = "sd_flags (si_sched s)"
  obtain ys where ys: "save_entries B ?old (si_registry s) (pq_iter ?q) = Inr ys" "enc_queue C ys = Some b"
    using assms(5) by (auto simp: save_queue_def split: sum.splits option.splits)
  note l = save_entries_ok [OF ys(1)]
  have "length ys \<le> u64_max"
    using pq_length_bound [OF assms(4)] list_all2_lengthD [OF l] by simp
  then obtain items q keys flags where
    r: "restore_entries B (si_registry s) ys (pq_clear (sd_queue (si_sched s0))) (si_keys s0, sd_flags (si_sched s0))
      = Some (Inr (), q, keys, flags)" "keys_ok ?old (keys, flags)" "si_keys s0 \<subseteq>\<^sub>m keys"
      "entries_restored keys (pq_iter ?q) items"
    and i: "iter_insert pq_insert items (pq_clear (sd_queue (si_sched s0))) = Some q"
    using restore_entries_ok [OF assms(1,3) l assms(7), of "pq_clear (sd_queue (si_sched s0))"]
    by (auto simp del: keys_ok.simps)
  have "pq_inv q \<and> pq_abs q = sort_key fst items"
    using pq.iter_insert_ok [OF _ i] by (simp add: fold_stable_insert)
  moreover have "dec_queue C b = Some ys"
    using assms(2) ys(2) by (simp add: codec_laws_def)
  ultimately show ?thesis
    using r entries_restored_sort [OF r(4)] assms(6)
    by (intro exI [of _ q] exI [of _ keys] exI [of _ flags]) (simp add: restore_queue_def del: keys_ok.simps)
qed

lemma sort_iter:
  "mset (sort_key fst (pq_iter q)) = mset (pq_abs q)"
  "sorted (map fst (sort_key fst (pq_iter q)))"
  "distinct (map fst (pq_abs q)) \<Longrightarrow> sort_key fst (pq_iter q) = pq_abs q"
proof -
  show "mset (sort_key fst (pq_iter q)) = mset (pq_abs q)" by (simp add: pq_iter_perm)
  show "sorted (map fst (sort_key fst (pq_iter q)))" by simp
  assume "distinct (map fst (pq_abs q))"
  moreover have "set (pq_iter q) = set (pq_abs q)"
    using pq_iter_perm [of q] by (metis set_mset_mset)
  ultimately show "sort_key fst (pq_iter q) = pq_abs q"
    by (intro sort_key_inj_key_eq) (simp_all add: pq_iter_perm distinct_map pq_abs_sorted)
qed

subsection \<open>The models\<close>

lemma env_call_models: "si_models (env_call_exec T c s) = si_models s"
  by (cases c) (auto split: option.splits prod.splits)

lemma env_calls_models [simp]: "si_models (env_calls T cs s) = si_models s"
  unfolding env_calls_def by (induction cs arbitrary: s) (auto simp: env_call_models)

lemma terminate_models [simp]: "si_models (terminate s) = si_models s"
  by (simp add: terminate_def)

lemma process_replier_models:
  "process_replier_fn E fut read s = Some (res, s') \<Longrightarrow> si_models s' = si_models s"
  by (auto simp: process_replier_fn_def run_executor_def spawn_and_forget_def bind_eq_Some_conv Let_def
      split: if_splits prod.splits option.splits sum.splits)

lemma model_serialize_models:
  "model_serialize E io m s = Some (res, s') \<Longrightarrow> si_models s' = si_models s"
  by (auto simp: model_serialize_def dest: process_replier_models)

lemma save_models_loop_models:
  "save_models_loop E io ms vs s = Some (res, s') \<Longrightarrow> si_models s' = si_models s"
proof (induction ms arbitrary: vs s)
  case (Cons m ms)
  then obtain r s1 where m: "model_serialize E io m s = Some (r, s1)"
    and "(case r of Inl e \<Rightarrow> Some (Inl e, s1) | Inr b \<Rightarrow> save_models_loop E io ms (vs @ [b]) s1) = Some (res, s')"
    by (auto simp: bind_eq_Some_conv)
  with Cons.IH [of _ s1] model_serialize_models [OF m] show ?case
    by (cases r) auto
qed simp

lemma restore_models_frame:
  assumes "restore_models E io vs s = Some (Inr (), s')"
  shows "si_models s' = si_models s"
proof -
  obtain r s1 where "restore_models_loop E io (zip (si_models s) vs) (s\<lparr>si_models := []\<rparr>) = Some (r, s1)"
    and "(case r of Inl e \<Rightarrow> Some (Inl e, s1) | Inr _ \<Rightarrow> Some (Inr (), s1\<lparr>si_models := si_models s\<rparr>))
      = Some (Inr (), s')"
    using assms by (auto simp: restore_models_def Let_def bind_eq_Some_conv)
  then show ?thesis by (cases r) auto
qed

subsection \<open>Properties\<close>

text \<open>C10: What \<open>save\<close> writes, \<open>restore\<close> brings back, given that the models restore themselves: the
  time, every queued item once, with its key, and the sharing and cancellation of event
  keys. The restored queue is in key order; with at most one item for each time and origin
  it is in exactly the saved order.\<close>

theorem save_restore_roundtrip:
  assumes "bincode_laws B" "codec_laws C" "registry_ok (si_registry s1)" "pq_inv (sd_queue (si_sched s1))"
    and "save_models E io s = Some (Inr vs, s1)" "save E io B C s = Some (Inr b, s1)"
    and "restore_models E io vs (s0\<lparr>si_keys := Map.empty\<rparr>) = Some (Inr (), s2)"
    and "si_registry s2 = si_registry s1"
    and "keys_ok (sd_flags (si_sched s1)) (si_keys s2, sd_flags (si_sched s2))"
  shows "\<exists>s3 xs. restore E io B C b s0 = Some (Inr (sim_time s1), s3) \<and>
    si_models s3 = si_models s0 \<and> pq_inv (sd_queue (si_sched s3)) \<and>
    keys_ok (sd_flags (si_sched s1)) (si_keys s3, sd_flags (si_sched s3)) \<and> si_keys s2 \<subseteq>\<^sub>m si_keys s3 \<and>
    mset xs = mset (pq_abs (sd_queue (si_sched s1))) \<and> sorted (map fst xs) \<and>
    entries_restored (si_keys s3) xs (pq_abs (sd_queue (si_sched s3))) \<and>
    (distinct (map fst (pq_abs (sd_queue (si_sched s1)))) \<longrightarrow> xs = pq_abs (sd_queue (si_sched s1)))"
proof -
  obtain queue where q: "save_queue B C s1 = Inr queue"
    and e: "enc_state C \<lparr>ss_models = vs, ss_queue = queue, ss_time = sim_time s1\<rparr> = Some b"
    using assms(5,6) by (auto simp: save_def split: sum.splits option.splits)
  from restore_queue_ok [OF assms(1-4) q assms(8,9)] obtain q' keys flags where
    r: "restore_queue B C queue s2 =
      Some (Inr (), s2\<lparr>si_sched := (si_sched s2)\<lparr>sd_queue := q', sd_flags := flags\<rparr>, si_keys := keys\<rparr>)"
    and ok: "pq_inv q'" "keys_ok (sd_flags (si_sched s1)) (keys, flags)" "si_keys s2 \<subseteq>\<^sub>m keys"
      "entries_restored keys (sort_key fst (pq_iter (sd_queue (si_sched s1)))) (pq_abs q')"
    by (elim exE conjE)
  have "dec_state C b = Some \<lparr>ss_models = vs, ss_queue = queue, ss_time = sim_time s1\<rparr>"
    using assms(2) e by (simp add: codec_laws_def)
  then have "restore E io B C b s0 = Some (Inr (sim_time s1),
      s2\<lparr>si_sched := (si_sched s2)\<lparr>sd_queue := q', sd_flags := flags\<rparr>, si_keys := keys\<rparr>)"
    using assms(7) r by (simp add: restore_def Let_def)
  moreover have "si_models s2 = si_models s0"
    using restore_models_frame [OF assms(7)] by simp
  ultimately show ?thesis
    using ok sort_iter [of "sd_queue (si_sched s1)"]
    by (intro exI [of _ "s2\<lparr>si_sched := (si_sched s2)\<lparr>sd_queue := q', sd_flags := flags\<rparr>, si_keys := keys\<rparr>"]
        exI [of _ "sort_key fst (pq_iter (sd_queue (si_sched s1)))"])
      (simp del: keys_ok.simps)
qed

text \<open>An instance: events of source 0 without period and key, all due at the time 5 and
  scheduled by the model 7; one model, whose state is the byte 1.\<close>

definition small_bincode :: bincode where
  "small_bincode = \<lparr>
     enc_item = (\<lambda>x. case x of
        SEvent e \<Rightarrow> if se_event_id e = 0 \<and> se_period e = None \<and> se_key e = None then Some (se_arg e) else None
      | SQuery q \<Rightarrow> None),
     dec_item = (\<lambda>b. Some (SEvent \<lparr>se_event_id = 0, se_arg = b, se_period = None, se_key = None\<rparr>))\<rparr>"

lemma small_bincode_laws: "bincode_laws small_bincode"
  by (auto simp: bincode_laws_def small_bincode_def split: ser_item.splits if_splits)

definition small_codec :: "int state_codec" where
  "small_codec = \<lparr>
     enc_queue = (\<lambda>xs. if list_all (\<lambda>(k, b). k = (5, 7) \<and> length b = 1) xs
        then Some (map (\<lambda>(k, b). hd b) xs) else None),
     dec_queue = (\<lambda>b. Some (map (\<lambda>x. ((5, 7), [x])) b)),
     enc_state = (\<lambda>st. if ss_models st = [[1]] \<and> ss_time st = 4 then Some (ss_queue st) else None),
     dec_state = (\<lambda>b. Some \<lparr>ss_models = [[1]], ss_queue = b, ss_time = 4\<rparr>)\<rparr>"

lemma small_codec_laws: "codec_laws small_codec"
proof -
  have "map (\<lambda>x. ((5, 7), [x])) (map (\<lambda>(k, b). hd b) xs) = xs"
    if "list_all (\<lambda>(k, b). k = (5, 7) \<and> length b = 1) xs" for xs :: "((int \<times> nat) \<times> bytes) list"
    using that by (induction xs) (auto simp: length_Suc_conv)
  then show ?thesis
    by (auto simp: codec_laws_def small_codec_def simp del: map_map split: if_splits)
qed

definition small_io :: "(int, unit, unit) model_io" where
  "small_io = \<lparr>io_saved = (\<lambda>_. Some (Inr [1])), io_restored = (\<lambda>_. Some (Inr ()))\<rparr>"

definition small_sim ::
    "int \<Rightarrow> (int \<times> nat, nat queue_item) priority_queue
      \<Rightarrow> (int, nat, plain_fut, unit, unit, unit, unit) simulation" where
  "small_sim t q = (plain_sim t q pq_new)\<lparr>si_models :=
     [\<lparr>rm_path = [''m''], rm_serialize = (1, None), rm_deserialize = (\<lambda>_. (2, None))\<rparr>]\<rparr>"

lemma small_models:
  "save_models (plain_env u) small_io (small_sim t q) = Some (Inr [[1]], small_sim t q)"
  "restore_models (plain_env u) small_io [[1]] ((small_sim t q)\<lparr>si_keys := Map.empty\<rparr>) = Some (Inr (), small_sim t q)"
  by (simp_all add: save_models_def restore_models_def model_serialize_def model_deserialize_def
      process_replier_fn_def plain_run spawn_and_forget_def small_io_def small_sim_def plain_sim_def
      flatten_result_def Let_def)

lemma small_sim_simps [simp]:
  "sim_time (small_sim t q) = t" "sd_queue (si_sched (small_sim t q)) = q" "sd_flags (si_sched (small_sim t q)) = []"
  "si_registry (small_sim t q) = byte_registry" "si_keys (small_sim t q) = Map.empty"
  "enc_state small_codec \<lparr>ss_models = [[1]], ss_queue = b, ss_time = 4\<rparr> = Some b"
  by (simp_all add: small_sim_def plain_sim_def sim_time_def small_codec_def)

theorem save_restore_roundtrip_witness:
  "\<exists>q s3. pq_insert (5, 7) (QEvent (event_new 0 9)) pq_new = Some q \<and>
     save (plain_env (\<lambda>s. [])) small_io small_bincode small_codec (small_sim 4 q) = Some (Inr [9], small_sim 4 q) \<and>
     restore (plain_env (\<lambda>s. [])) small_io small_bincode small_codec [9] (small_sim 0 pq_new) = Some (Inr 4, s3) \<and>
     pq_abs (sd_queue (si_sched s3)) = [((5, 7), QEvent (event_new 0 9))]"
proof -
  let ?k = "(5 :: int, 7 :: nat)" and ?v = "QEvent (event_new 0 (9 :: nat))"
  obtain q where q: "pq_insert ?k ?v pq_new = Some q" "pq_inv q" "pq_abs q = [(?k, ?v)]"
    using pq_insert_new [of ?k ?v] by (elim exE conjE)
  have iter: "pq_iter q = [(?k, ?v)]"
    using q(3) pq_iter_perm [of q] by simp
  let ?s = "small_sim 4 q"
  have "save_queue small_bincode small_codec ?s = Inr [9]"
    by (simp add: save_queue_def small_sim_def plain_sim_def iter item_serialize_def event_to_serializable_def
        get_event_source_def byte_registry_def input_source_def serialize_arg_def byte_arg_def event_new_def
        small_bincode_def small_codec_def)
  then have sv: "save (plain_env (\<lambda>s. [])) small_io small_bincode small_codec ?s = Some (Inr [9], ?s)"
    by (simp add: save_def small_models)
  from save_restore_roundtrip [OF small_bincode_laws small_codec_laws _ _ small_models(1) sv small_models(2) [of "\<lambda>s. []" 0 pq_new]]
  obtain s3 where s3: "restore (plain_env (\<lambda>s. [])) small_io small_bincode small_codec [9] (small_sim 0 pq_new) = Some (Inr 4, s3)"
    "entries_restored (si_keys s3) [(?k, ?v)] (pq_abs (sd_queue (si_sched s3)))"
    using q by (auto simp: byte_registry_ok)
  from s3(2) have "pq_abs (sd_queue (si_sched s3)) = [(?k, ?v)]"
    by (cases "pq_abs (sd_queue (si_sched s3))")
      (auto simp: event_new_def elim!: item_restored.elims)
  with q(1) sv s3(1) show ?thesis by blast
qed

text \<open>Four events of one model: one due at the time 4, then three due at the time 5, with the
  arguments 1, 2 and 3.\<close>

definition fifo_events :: "((int \<times> nat) \<times> nat queue_item) list" where
  "fifo_events = ((4, 7), QEvent (event_new 0 0)) # map (\<lambda>a. ((5, 7), QEvent (event_new 0 a))) [1, 2, 3]"

definition event_args :: "(int \<times> nat, nat queue_item) priority_queue \<Rightarrow> nat list" where
  "event_args q = map (\<lambda>(k, v). case v of QEvent e \<Rightarrow> ev_arg e | QQuery x \<Rightarrow> qu_arg x) (pq_abs q)"

text \<open>The heap before and after the event of the time 4 is pulled.\<close>

definition fifo_item :: "int \<Rightarrow> nat \<Rightarrow> (int \<times> nat, nat queue_item) item" where
  "fifo_item t n = Item (t, 7) (QEvent (event_new 0 n)) n"

definition fifo_queue :: "(int \<times> nat, nat queue_item) priority_queue" where
  "fifo_queue = \<lparr>pq_heap = [fifo_item 4 0, fifo_item 5 1, fifo_item 5 2, fifo_item 5 3], pq_next_epoch = 4\<rparr>"

definition fifo_queue' :: "(int \<times> nat, nat queue_item) priority_queue" where
  "fifo_queue' = \<lparr>pq_heap = [fifo_item 5 1, fifo_item 5 3, fifo_item 5 2], pq_next_epoch = 4\<rparr>"

lemma bh_push_last:
  assumes "xs = [] \<or> le x (xs ! ((length xs - 1) div 2))"
  shows "bh_push le x xs = xs @ [x]"
proof (cases "xs = []")
  case False
  then have "(length xs - 1) div 2 < length xs"
    by (cases xs) auto
  with assms False show ?thesis
    unfolding bh_push_def by (subst bh_sift_up_stop) (auto simp: nth_append)
qed (simp add: bh_push_def bh_sift_up_stop)

lemma pq_insert_small:
  "n < 100 \<Longrightarrow> pq_insert k v \<lparr>pq_heap = h, pq_next_epoch = n\<rparr> =
     Some \<lparr>pq_heap = bh_push item_le (Item k v n) h, pq_next_epoch = Suc n\<rparr>"
  by (simp add: pq_insert_def Let_def u64_max_def)

lemma fifo_insert: "iter_insert pq_insert fifo_events pq_new = Some fifo_queue"
  by (simp add: fifo_events_def pq_new_def pq_insert_small bh_push_last fifo_queue_def fifo_item_def item_le_iff
      it_rank_def eval_nat_numeral)

lemma fifo_pull: "pq_pull fifo_queue = (Some ((4, 7), QEvent (event_new 0 0)), fifo_queue')"
  by (simp add: pq_pull_def bh_pop_def fifo_queue_def fifo_queue'_def bh_sift_to_bottom.simps bh_sift_up.simps
      fifo_item_def item_le_iff it_rank_def)

lemma fifo_peek: 
  "4 \<le> b \<Longrightarrow> peek_next_key [] fifo_queue b = (Some (4, 7), fifo_queue)"
  "b < 5 \<Longrightarrow> peek_next_key [] fifo_queue' b = (None, fifo_queue')"
  by (simp_all add: peek_next_key.simps pq_peek_def bh_peek_def fifo_queue_def fifo_queue'_def fifo_item_def
      event_is_cancelled_def event_new_def)

lemma fifo_step:
  "handle_scheduler_step T (byte_registry :: (nat, plain_fut, int, unit) registry) [] (Some (4, 7)) 4 [] fifo_queue = Some (Inr True, [[(0, None)]], fifo_queue')"
proof -
  let ?r = "byte_registry :: (nat, plain_fut, int, unit) registry"
  have "item_fire T ?r (4, 7) (QEvent (event_new 0 0)) fifo_queue' = Some (Inr (0, None), fifo_queue')"
    by (simp add: item_fire_def event_new_def get_event_source_def byte_registry_def input_source_def byte_arg_def)
  then have "same_origin_loop T ?r [] (Some (4, 7)) [] fifo_queue = Some (Inr (None, [(0, None)]), fifo_queue')"
    by (subst same_origin_loop.simps) (simp add: fifo_pull fifo_peek)
  moreover have "origins_loop T ?r [] None [[(0, None)]] fifo_queue' = Some (Inr True, [[(0, None)]], fifo_queue')"
    by (subst origins_loop.simps) simp
  ultimately have "origins_loop T ?r [] (Some (4, 7)) [] fifo_queue = Some (Inr True, [[(0, None)]], fifo_queue')"
    by (subst origins_loop.simps) simp
  then show ?thesis
    by (simp add: handle_scheduler_step_def)
qed

lemma fifo_finish:
  "finish_step (plain_env u) 4 True ((small_sim 4 q)\<lparr>si_spawned := sp\<rparr>) = Some (Inr (Some 4), small_sim 4 q)"
  by (simp add: finish_step_def small_sim_def plain_sim_def injector_empty plain_sync plain_run)

lemma fifo_sim_step: "step (plain_env u) (small_sim 3 fifo_queue) = Some (Inr (), small_sim 4 fifo_queue')"
proof -
  have "step_at (plain_env u) (Some (4, 7)) 4 (small_sim 3 fifo_queue) =
      finish_step (plain_env u) 4 True ((small_sim 4 fifo_queue')\<lparr>si_spawned := [[(0, None)]]\<rparr>)"
    by (simp add: step_at_def write_time_def small_sim_def plain_sim_def fifo_step)
  moreover have "step_to_next (plain_env u) None (small_sim 3 fifo_queue) =
      step_at (plain_env u) (Some (4, 7)) 4 (small_sim 3 fifo_queue)"
    by (simp add: step_to_next_def take_halt_flag_def bounded_tick_def small_sim_def plain_sim_def fifo_peek
        next_time_def plain_env_def ns_tai_def)
  ultimately show ?thesis
    by (simp add: step_def fifo_finish)
qed

lemma fifo_save:
  "save (plain_env u) small_io small_bincode small_codec (small_sim 4 fifo_queue') = Some (Inr [1, 3, 2], small_sim 4 fifo_queue')"
proof -
  have "save_queue small_bincode small_codec (small_sim 4 fifo_queue') = Inr [1, 3, 2]"
    by (simp add: save_queue_def fifo_queue'_def fifo_item_def pq_iter_def bh_iter_def item_serialize_def
        event_to_serializable_def get_event_source_def byte_registry_def input_source_def serialize_arg_def
        byte_arg_def event_new_def small_bincode_def small_codec_def)
  then show ?thesis
    by (simp add: save_def small_models)
qed

lemma fifo_deserialize:
  "n < 256 \<Longrightarrow> item_deserialize small_bincode [word_of_nat n] byte_registry ks = (Inr (QEvent (event_new 0 n)), ks)"
  by (simp add: item_deserialize_def small_bincode_def event_from_serializable_def get_event_source_def
      byte_registry_def input_source_def deserialize_arg_def byte_arg_def event_new_def unat_of_nat)

lemma fifo_restore:
  "restore (plain_env u) small_io small_bincode small_codec [1, 3, 2] (small_sim 0 pq_new) = Some (Inr 4,
     small_sim 0 \<lparr>pq_heap = [Item (5, 7) (QEvent (event_new 0 1)) 0, Item (5, 7) (QEvent (event_new 0 3)) 1,
       Item (5, 7) (QEvent (event_new 0 2)) 2], pq_next_epoch = 3\<rparr>)"
proof -
  have "restore_queue small_bincode small_codec [1, 3, 2] (small_sim 0 pq_new) = Some (Inr (),
     small_sim 0 \<lparr>pq_heap = [Item (5, 7) (QEvent (event_new 0 1)) 0, Item (5, 7) (QEvent (event_new 0 3)) 1,
       Item (5, 7) (QEvent (event_new 0 2)) 2], pq_next_epoch = 3\<rparr>)"
    by (simp add: restore_queue_def small_codec_def fifo_deserialize [of 1, simplified]
        fifo_deserialize [of 2, simplified] fifo_deserialize [of 3, simplified] pq_clear_def pq_insert_small bh_push_last item_le_iff it_rank_def
        small_sim_def plain_sim_def pq_new_def eval_nat_numeral)
  then show ?thesis
    by (simp add: restore_def small_codec_def small_models Let_def)
qed

text \<open>C11: Saving and restoring does not keep the order of events that one model scheduled for the
  same time, although scheduling order is otherwise their order of execution. After a step
  to the time 4 the events 1, 2 and 3 are pending in this order; the state saved then and
  restored has them pending in the order 1, 3, 2, because the queue is saved in the order
  of its heap array.\<close>

theorem restore_breaks_fifo:
  "\<exists>q s1 b s2 s3. iter_insert pq_insert fifo_events pq_new = Some q \<and>
     step (plain_env (\<lambda>s. [])) (small_sim 3 q) = Some (Inr (), s1) \<and>
     event_args (sd_queue (si_sched s1)) = [1, 2, 3] \<and>
     save (plain_env (\<lambda>s. [])) small_io small_bincode small_codec s1 = Some (Inr b, s2) \<and>
     restore (plain_env (\<lambda>s. [])) small_io small_bincode small_codec b (small_sim 0 pq_new) = Some (Inr 4, s3) \<and>
     event_args (sd_queue (si_sched s3)) = [1, 3, 2]"
proof (intro exI conjI)
  show "iter_insert pq_insert fifo_events pq_new = Some fifo_queue"
    by (rule fifo_insert)
  show "step (plain_env (\<lambda>s. [])) (small_sim 3 fifo_queue) = Some (Inr (), small_sim 4 fifo_queue')"
    by (rule fifo_sim_step)
  show "event_args (sd_queue (si_sched (small_sim 4 fifo_queue'))) = [1, 2, 3]"
    by (simp add: event_args_def pq_abs_def pq_sorted_def fifo_queue'_def fifo_item_def it_rank_def event_new_def)
qed (rule fifo_save, rule fifo_restore, simp add: event_args_def pq_abs_def pq_sorted_def it_rank_def event_new_def)

text \<open>C12: A save that fails loses the models. While models serialize themselves the list of
  registered models is moved out, and it is put back on success only: if one model fails,
  the list stays empty. A later save then succeeds but holds no model at all, and a later
  model panic makes the simulation object itself panic, since the path of the model is
  looked up in that list.\<close>

theorem save_failure_loses_models:
  assumes "save_models E io s = Some (Inl e, s')"
  shows "si_models s' = [] \<and> save_models E io s' = Some (Inr [], s') \<and>
    (i < usize_max \<longrightarrow> executor_error_result E s' (ExecutorPanic i p) = None)"
proof -
  obtain r s1 where l: "save_models_loop E io (si_models s) [] (s\<lparr>si_models := []\<rparr>) = Some (r, s1)"
    and "(case r of Inl e \<Rightarrow> Some (Inl e, s1) | Inr vs \<Rightarrow> Some (Inr vs, s1\<lparr>si_models := si_models s\<rparr>))
      = Some (Inl e, s')"
    using assms by (auto simp: save_models_def Let_def bind_eq_Some_conv)
  then have "s' = s1"
    by (cases r) auto
  then have m: "si_models s' = []"
    using save_models_loop_models [OF l] by simp
  then have "s'\<lparr>si_models := []\<rparr> = s'"
    by (cases s') simp
  with m show ?thesis
    by (simp add: save_models_def executor_error_result_def model_id_get_def)
qed

theorem save_failure_loses_models_witness:
  "let E = plain_env (\<lambda>s. []);
       io = small_io\<lparr>io_saved := \<lambda>_. Some (Inl (SaveErr (SaveModelSerializationError [''m''] ''M'')))\<rparr>;
       s = small_sim 4 pq_new
   in si_models s \<noteq> [] \<and>
     save_models E io s = Some (Inl (SaveErr (SaveModelSerializationError [''m''] ''M'')), s\<lparr>si_models := []\<rparr>) \<and>
     save_models E io (s\<lparr>si_models := []\<rparr>) = Some (Inr [], s\<lparr>si_models := []\<rparr>)"
proof -
  let ?E = "plain_env (\<lambda>s. [])" and ?s = "small_sim 4 pq_new"
    and ?io = "small_io\<lparr>io_saved := \<lambda>_. Some (Inl (SaveErr (SaveModelSerializationError [''m''] ''M'')))\<rparr>"
  have e: "save_models ?E ?io ?s = Some (Inl (SaveErr (SaveModelSerializationError [''m''] ''M'')), ?s\<lparr>si_models := []\<rparr>)"
    by (simp add: save_models_def model_serialize_def process_replier_fn_def plain_run spawn_and_forget_def
        small_io_def small_sim_def plain_sim_def flatten_result_def Let_def)
  from save_failure_loses_models [OF e] e show ?thesis
    by (simp add: Let_def small_sim_def)
qed

end
