(* ===== verification/Mpsc_Queue.thy ===== *)
theory Mpsc_Queue
  imports Prelude "HOL-Library.Word"
begin

unbundle bit_operations_syntax

text \<open>
  Model of \<^verbatim>\<open>src/nexosim/src/channel/queue.rs\<close>, the bounded multi-producer single-consumer
  queue behind every mailbox.

  A queue is the record \<open>mq\<close>; positions, stamps and masks are 64-bit words. Every method is
  cut into atomic steps, one access to shared memory each, with the local variables of the
  method in a program counter (\<open>push_pc\<close>, \<open>pop_pc\<close>); \<open>push_step\<close> and \<open>pop_step\<close> do one step of
  the code, where \<open>None\<close> is a panic: an index out of bounds, an \<open>unreachable!()\<close> or a failed
  debug assertion. The relation \<open>mq_step\<close> interleaves any number of producers with the
  consumer. Memory is sequentially consistent. The boxes that store messages are of the
  crate \<open>recycle_box\<close>; only whether a slot holds a message, an empty box or neither is kept.
\<close>

subsection \<open>The queue\<close>

datatype 'm message_box = Populated 'm | Vacated | MNone

record 'm slot =
  sl_stamp :: "64 word"
  sl_message :: "'m message_box"

record 'm mq =
  mq_enqueue_pos :: "64 word"
  mq_dequeue_pos :: "64 word"
  mq_buffer :: "'m slot list"
  mq_right_mask :: "64 word"
  mq_closed_channel_mask :: "64 word"

function next_power_of_two_from :: "nat \<Rightarrow> nat \<Rightarrow> nat" where
  "next_power_of_two_from c p = (if c \<le> p \<or> p = 0 then p else next_power_of_two_from c (2 * p))"
  by pat_completeness auto
termination
  by (relation "measure (\<lambda>(c, p). c - p)") auto

declare next_power_of_two_from.simps [simp del]

definition next_power_of_two :: "nat \<Rightarrow> nat" where
  "next_power_of_two c = next_power_of_two_from c 1"

definition mq_new :: "nat \<Rightarrow> 'm mq exec" where
  "mq_new capacity =
     (if capacity < 1 \<or> 2 ^ 63 < capacity then None
      else
        (let buffer = map (\<lambda>i. \<lparr>sl_stamp = word_of_nat i, sl_message = Vacated\<rparr>) [0..<capacity];
             closed_channel_mask = word_of_nat (next_power_of_two capacity);
             right_mask = push_bit 1 closed_channel_mask - 1 in
         Some \<lparr>mq_enqueue_pos = 0, mq_dequeue_pos = 0, mq_buffer = buffer, mq_right_mask = right_mask,
           mq_closed_channel_mask = closed_channel_mask\<rparr>))"

definition next_queue_pos :: "'m mq \<Rightarrow> 64 word \<Rightarrow> 64 word exec" where
  "next_queue_pos q queue_pos =
     (if queue_pos AND mq_closed_channel_mask q \<noteq> 0 \<or> queue_pos = - 1 then None
      else
        (let new_queue_pos = queue_pos + 1;
             new_index = new_queue_pos AND mq_right_mask q in
         Some (if unat new_index < length (mq_buffer q) then new_queue_pos
           else (let sequence_increment = mq_right_mask q + 1;
                     sequence_count = queue_pos AND NOT (mq_right_mask q) in
                 sequence_count + sequence_increment))))"

definition mq_close :: "'m mq \<Rightarrow> 'm mq" where
  "mq_close q = q\<lparr>mq_enqueue_pos := mq_enqueue_pos q OR mq_closed_channel_mask q\<rparr>"

definition mq_is_closed :: "'m mq \<Rightarrow> bool" where
  "mq_is_closed q \<longleftrightarrow> mq_enqueue_pos q AND mq_closed_channel_mask q \<noteq> 0"

definition mq_len :: "'m mq \<Rightarrow> nat" where
  "mq_len q =
     (let enqueue_idx = mq_enqueue_pos q AND drop_bit 1 (mq_right_mask q);
          dequeue_idx = mq_dequeue_pos q AND drop_bit 1 (mq_right_mask q);
          carry_flag = (mq_enqueue_pos q AND NOT (mq_right_mask q) \<noteq> mq_dequeue_pos q AND NOT (mq_right_mask q)) in
      (unat enqueue_idx + (if carry_flag then length (mq_buffer q) else 0)) - unat dequeue_idx)"

subsection \<open>The steps of a push\<close>

datatype 'm push_error = PushFull 'm | PushClosed

datatype 'm push_pc =
    PushStart 'm
  | PushCheck 'm "64 word"
  | PushLoaded 'm "64 word" "64 word"
  | PushClaimed 'm "64 word" "64 word"
  | PushWritten "64 word" "64 word"
  | PushDone "'m push_error option"

definition slot_index :: "'m mq \<Rightarrow> 64 word \<Rightarrow> nat" where
  "slot_index q pos = unat (pos AND mq_right_mask q)"

text \<open>The flag \<open>weak\<close> makes the weak compare-and-exchange fail spuriously.\<close>

fun push_step :: "bool \<Rightarrow> 'm push_pc \<Rightarrow> 'm mq \<Rightarrow> ('m push_pc \<times> 'm mq) exec" where
  "push_step weak (PushStart msg) q = Some (PushCheck msg (mq_enqueue_pos q), q)"
| "push_step weak (PushCheck msg enqueue_pos) q =
     (if enqueue_pos AND mq_closed_channel_mask q \<noteq> 0 then Some (PushDone (Some PushClosed), q)
      else do {
        slot \<leftarrow> vec_get (mq_buffer q) (slot_index q enqueue_pos);
        Some (PushLoaded msg enqueue_pos (sl_stamp slot), q)
      })"
| "push_step weak (PushLoaded msg enqueue_pos stamp) q =
     (let stamp_delta = sint (stamp - enqueue_pos) in
      if stamp_delta = 0 then
        (if mq_enqueue_pos q = enqueue_pos \<and> \<not> weak
         then do {
           next \<leftarrow> next_queue_pos q enqueue_pos;
           Some (PushClaimed msg enqueue_pos stamp, q\<lparr>mq_enqueue_pos := next\<rparr>)
         }
         else Some (PushCheck msg (mq_enqueue_pos q), q))
      else if stamp_delta < 0 then Some (PushDone (Some (PushFull msg)), q)
      else Some (PushCheck msg (mq_enqueue_pos q), q))"
| "push_step weak (PushClaimed msg enqueue_pos stamp) q = do {
     slot \<leftarrow> vec_get (mq_buffer q) (slot_index q enqueue_pos);
     (case sl_message slot of
        Vacated \<Rightarrow> Some (PushWritten enqueue_pos stamp,
          q\<lparr>mq_buffer := (mq_buffer q)[slot_index q enqueue_pos := slot\<lparr>sl_message := Populated msg\<rparr>]\<rparr>)
      | _ \<Rightarrow> None)
   }"
| "push_step weak (PushWritten enqueue_pos stamp) q = do {
     slot \<leftarrow> vec_get (mq_buffer q) (slot_index q enqueue_pos);
     Some (PushDone None,
       q\<lparr>mq_buffer := (mq_buffer q)[slot_index q enqueue_pos := slot\<lparr>sl_stamp := stamp + 1\<rparr>]\<rparr>)
   }"
| "push_step weak (PushDone r) q = None"

subsection \<open>The steps of a pop and of dropping the borrowed message\<close>

datatype pop_error = PopEmpty | PopClosed

datatype 'm pop_pc =
    PopIdle "pop_error option"
  | PopLoaded "64 word" "64 word"
  | PopAdvanced nat "64 word"
  | PopBorrow 'm nat "64 word"
  | PopVacated nat "64 word"

fun pop_step :: "'m pop_pc \<Rightarrow> 'm mq \<Rightarrow> ('m pop_pc \<times> 'm mq) exec" where
  "pop_step (PopIdle r) q = do {
     let dequeue_pos = mq_dequeue_pos q;
     slot \<leftarrow> vec_get (mq_buffer q) (slot_index q dequeue_pos);
     Some (PopLoaded dequeue_pos (sl_stamp slot), q)
   }"
| "pop_step (PopLoaded dequeue_pos stamp) q =
     (if dequeue_pos \<noteq> stamp then
        (if stamp \<noteq> dequeue_pos + 1 then None
         else do {
           next \<leftarrow> next_queue_pos q dequeue_pos;
           Some (PopAdvanced (slot_index q dequeue_pos) (stamp + mq_right_mask q), q\<lparr>mq_dequeue_pos := next\<rparr>)
         })
      else if mq_enqueue_pos q = dequeue_pos OR mq_closed_channel_mask q then Some (PopIdle (Some PopClosed), q)
      else Some (PopIdle (Some PopEmpty), q))"
| "pop_step (PopAdvanced index stamp) q = do {
     slot \<leftarrow> vec_get (mq_buffer q) index;
     (case sl_message slot of
        Populated msg \<Rightarrow> Some (PopBorrow msg index stamp,
          q\<lparr>mq_buffer := (mq_buffer q)[index := slot\<lparr>sl_message := MNone\<rparr>]\<rparr>)
      | _ \<Rightarrow> None)
   }"
| "pop_step (PopBorrow msg index stamp) q = do {
     slot \<leftarrow> vec_get (mq_buffer q) index;
     Some (PopVacated index stamp, q\<lparr>mq_buffer := (mq_buffer q)[index := slot\<lparr>sl_message := Vacated\<rparr>]\<rparr>)
   }"
| "pop_step (PopVacated index stamp) q = do {
     slot \<leftarrow> vec_get (mq_buffer q) index;
     Some (PopIdle None, q\<lparr>mq_buffer := (mq_buffer q)[index := slot\<lparr>sl_stamp := stamp\<rparr>]\<rparr>)
   }"

subsection \<open>Interleavings\<close>

text \<open>Any number of producers, numbered, and the consumer. The history holds the messages in the
  order in which producers claimed a slot, and the messages the consumer took.\<close>

record 'm mq_sys =
  qs_queue :: "'m mq"
  qs_push :: "nat \<Rightarrow> 'm push_pc"
  qs_pop :: "'m pop_pc"
  qs_sent :: "'m list"
  qs_got :: "'m list"

fun push_claims :: "'m push_pc \<Rightarrow> 'm push_pc \<Rightarrow> 'm list" where
  "push_claims (PushLoaded _ _ _) (PushClaimed msg _ _) = [msg]"
| "push_claims _ _ = []"

fun pop_takes :: "'m pop_pc \<Rightarrow> 'm list" where
  "pop_takes (PopBorrow msg _ _) = [msg]"
| "pop_takes _ = []"

inductive mq_step :: "'m mq_sys \<Rightarrow> 'm mq_sys \<Rightarrow> bool" where
  call: "qs_push s i = PushDone r \<Longrightarrow> mq_step s (s\<lparr>qs_push := (qs_push s)(i := PushStart msg)\<rparr>)"
| push: "push_step weak (qs_push s i) (qs_queue s) = Some (pc, q) \<Longrightarrow>
    mq_step s (s\<lparr>qs_queue := q, qs_push := (qs_push s)(i := pc),
      qs_sent := qs_sent s @ push_claims (qs_push s i) pc\<rparr>)"
| pop: "pop_step (qs_pop s) (qs_queue s) = Some (pc, q) \<Longrightarrow>
    mq_step s (s\<lparr>qs_queue := q, qs_pop := pc, qs_got := qs_got s @ pop_takes pc\<rparr>)"
| close: "mq_step s (s\<lparr>qs_queue := mq_close (qs_queue s)\<rparr>)"

definition mq_init :: "'m mq \<Rightarrow> 'm mq_sys" where
  "mq_init q = \<lparr>qs_queue = q, qs_push = (\<lambda>_. PushDone None), qs_pop = PopIdle None, qs_sent = [], qs_got = []\<rparr>"

inductive mq_reach :: "'m mq \<Rightarrow> 'm mq_sys \<Rightarrow> bool" for q where
  init: "mq_reach q (mq_init q)"
| step: "mq_reach q s \<Longrightarrow> mq_step s s' \<Longrightarrow> mq_reach q s'"

subsection \<open>Positions\<close>

text \<open>The position of the \<open>n\<close>-th message: its lap above the flag bit, its slot below. The facts on
  masks hold as long as the position stays below \<open>2\<^sup>6\<^sup>3\<close>, which \<open>small\<close> guarantees for the
  first \<open>2\<^sup>6\<^sup>0\<close> messages of any queue that fits in memory.\<close>

definition ring_pos :: "nat \<Rightarrow> nat \<Rightarrow> nat \<Rightarrow> nat" where
  "ring_pos cap k n = (n div cap) * 2 ^ Suc k + n mod cap"

definition qpos :: "nat \<Rightarrow> nat \<Rightarrow> nat \<Rightarrow> 64 word" where
  "qpos cap k n = word_of_nat (ring_pos cap k n)"

definition ring_ok :: "nat \<Rightarrow> nat \<Rightarrow> bool" where
  "ring_ok cap k \<longleftrightarrow> 0 < cap \<and> cap \<le> 2 ^ k \<and> 2 ^ k < 2 * cap"

definition small :: "nat \<Rightarrow> nat \<Rightarrow> bool" where
  "small cap n \<longleftrightarrow> 4 * n + 4 * cap < 2 ^ 63"

lemma next_power_of_two_from_ok:
  "0 < c \<Longrightarrow> 2 ^ j < 2 * c \<Longrightarrow> \<exists>k. next_power_of_two_from c (2 ^ j) = 2 ^ k \<and> ring_ok c k"
proof (induction c "2 ^ j :: nat" arbitrary: j rule: next_power_of_two_from.induct)
  case (1 c)
  show ?case
  proof (cases "c \<le> 2 ^ j")
    case True
    then show ?thesis
      using 1 by (subst next_power_of_two_from.simps) (auto simp: ring_ok_def)
  next
    case False
    have "\<exists>k. next_power_of_two_from c (2 * 2 ^ j) = 2 ^ k \<and> ring_ok c k"
      using 1(1) [of "Suc j"] False 1(2) by simp
    with False show ?thesis
      by (subst next_power_of_two_from.simps) simp
  qed
qed

lemma next_power_of_two_ok: "0 < c \<Longrightarrow> \<exists>k. next_power_of_two c = 2 ^ k \<and> ring_ok c k"
  using next_power_of_two_from_ok [of c 0] by (simp add: next_power_of_two_def)

lemma small_mono: "small cap n \<Longrightarrow> m \<le> n \<Longrightarrow> small cap m"
  by (simp add: small_def)

lemma ring_pos_bound:
  assumes "ring_ok cap k" "small cap n"
  shows "ring_pos cap k n < 2 ^ 63 - 2 ^ Suc k"
proof -
  have "2 ^ Suc k < 4 * cap"
    using assms(1) by (simp add: ring_ok_def)
  then have "(n div cap) * 2 ^ Suc k \<le> (n div cap) * (4 * cap)"
    by (intro mult_left_mono) simp_all
  then have "ring_pos cap k n + 2 ^ Suc k < (n div cap) * (4 * cap) + n mod cap + 4 * cap"
    using \<open>2 ^ Suc k < 4 * cap\<close> unfolding ring_pos_def by linarith
  also have "\<dots> \<le> 4 * n + 4 * cap"
  proof -
    have "n = n div cap * cap + n mod cap" by simp
    moreover have "(n div cap) * (4 * cap) = 4 * (n div cap * cap)" by simp
    ultimately show ?thesis by linarith
  qed
  finally show ?thesis
    using assms(2) by (simp add: small_def)
qed

lemma ring_k: "ring_ok cap k \<Longrightarrow> small cap n \<Longrightarrow> k < 62"
proof (rule ccontr)
  assume a: "ring_ok cap k" "small cap n" "\<not> k < 62"
  then have "(2 :: nat) ^ 62 \<le> 2 ^ k" by (intro power_increasing) auto
  with a show False by (simp add: ring_ok_def small_def)
qed

lemma unat_qpos:
  assumes "ring_ok cap k" "small cap n"
  shows "unat (qpos cap k n) = ring_pos cap k n" "unat (qpos cap k n + 1) = ring_pos cap k n + 1"
proof -
  have b: "ring_pos cap k n < 2 ^ 63"
    using ring_pos_bound [OF assms] by simp
  then show "unat (qpos cap k n) = ring_pos cap k n"
    by (simp add: qpos_def unat_of_nat)
  have "qpos cap k n + 1 = word_of_nat (ring_pos cap k n + 1)"
    by (simp add: qpos_def)
  then show "unat (qpos cap k n + 1) = ring_pos cap k n + 1"
    using b by (simp add: unat_of_nat del: of_nat_add of_nat_Suc)
qed

lemma ring_mod: "ring_ok cap k \<Longrightarrow> n mod cap < 2 ^ k"
  by (rule less_le_trans [OF mod_less_divisor]) (simp_all add: ring_ok_def)

lemma ring_pos_mod: "ring_ok cap k \<Longrightarrow> ring_pos cap k n mod 2 ^ Suc k = n mod cap"
proof -
  assume "ring_ok cap k"
  then have "n mod cap < 2 ^ Suc k"
    using ring_mod [of cap k n] by simp
  then show ?thesis
    by (simp add: ring_pos_def)
qed

lemma ring_pos_less:
  assumes "ring_ok cap k" "a < b"
  shows "ring_pos cap k a < ring_pos cap k b"
proof (cases "a div cap = b div cap")
  case True
  with assms(2) have "a mod cap < b mod cap"
    using div_mult_mod_eq [of a cap] div_mult_mod_eq [of b cap] by (metis nat_add_left_cancel_less)
  with True show ?thesis by (simp add: ring_pos_def)
next
  case False
  moreover have "a div cap \<le> b div cap"
    using assms(2) by (simp add: div_le_mono)
  ultimately have "Suc (a div cap) \<le> b div cap" by simp
  then have "Suc (a div cap) * 2 ^ Suc k \<le> b div cap * 2 ^ Suc k"
    by (rule mult_right_mono) simp
  moreover have "a mod cap < 2 ^ Suc k"
    using ring_mod [OF assms(1), of a] by simp
  ultimately show ?thesis
    by (simp add: ring_pos_def)
qed

lemma ring_pos_inj: "ring_ok cap k \<Longrightarrow> ring_pos cap k a = ring_pos cap k b \<Longrightarrow> a = b"
  by (metis ring_pos_less less_irrefl linorder_neqE_nat)

lemma ring_pos_add: "0 < cap \<Longrightarrow> ring_pos cap k (n + cap) = ring_pos cap k n + 2 ^ Suc k"
  using div_add_self2 [of cap n] by (simp add: ring_pos_def)

text \<open>The shape of a queue, which no step changes.\<close>

definition mq_shape :: "nat \<Rightarrow> nat \<Rightarrow> 'm mq \<Rightarrow> bool" where
  "mq_shape cap k q \<longleftrightarrow> length (mq_buffer q) = cap \<and> mq_right_mask q = mask (Suc k) \<and>
     mq_closed_channel_mask q = 2 ^ k"

lemma mq_new_shape:
  assumes "mq_new cap = Some q"
  obtains k where "ring_ok cap k" "mq_shape cap k q" "mq_enqueue_pos q = 0" "mq_dequeue_pos q = 0"
    "\<And>i. i < cap \<Longrightarrow> mq_buffer q ! i = \<lparr>sl_stamp = word_of_nat i, sl_message = Vacated\<rparr>"
proof -
  have "0 < cap"
    using assms by (auto simp: mq_new_def split: if_splits)
  then obtain k where k: "next_power_of_two cap = 2 ^ k" "ring_ok cap k"
    using next_power_of_two_ok by blast
  have "push_bit 1 (2 ^ k) - 1 = (mask (Suc k) :: 64 word)"
    by (simp add: mask_eq_exp_minus_1 push_bit_eq_mult)
  then have "mq_shape cap k q" "mq_enqueue_pos q = 0" "mq_dequeue_pos q = 0"
    "\<And>i. i < cap \<Longrightarrow> mq_buffer q ! i = \<lparr>sl_stamp = word_of_nat i, sl_message = Vacated\<rparr>"
    using assms k by (auto simp: mq_new_def mq_shape_def Let_def split: if_splits)
  with k(2) that show thesis by blast
qed

lemma unat_and_mask: "unat (w AND mask m) = unat w mod 2 ^ m" for w :: "64 word"
proof -
  have "unat (w AND mask m) = unat (take_bit m w)"
    by (simp add: take_bit_eq_mask)
  also have "\<dots> = take_bit m (unat w)"
    by (rule unsigned_take_bit_eq)
  finally show ?thesis
    by (simp add: take_bit_eq_mod)
qed

lemma and_not_mask_add: "(w AND NOT (mask m)) + (w AND mask m) = w" for w :: "64 word"
proof -
  have "w AND NOT (mask m) = push_bit m (drop_bit m w)"
    by (rule bit_eqI) (auto simp: bit_simps)
  moreover have "push_bit m (drop_bit m w) + take_bit m w = w"
    by (rule bits_ident)
  ultimately show ?thesis
    by (simp add: take_bit_eq_mask)
qed

lemma qpos_index:
  assumes "ring_ok cap k" "small cap n" "mq_shape cap k q"
  shows "slot_index q (qpos cap k n) = n mod cap"
  using unat_qpos(1) [OF assms(1,2)] ring_pos_mod [OF assms(1), of n] assms(3)
  by (simp add: slot_index_def mq_shape_def unat_and_mask del: power_Suc)

lemma qpos_open:
  assumes "ring_ok cap k" "small cap n"
  shows "qpos cap k n AND 2 ^ k = 0"
proof -
  have "(n div cap * 2 * 2 ^ k + n mod cap) div 2 ^ k = n div cap * 2"
    using ring_mod [OF assms(1), of n] by (subst div_mult_self3) simp_all
  then have "ring_pos cap k n div 2 ^ k = n div cap * 2"
    by (simp add: ring_pos_def mult.assoc)
  then have "\<not> bit (unat (qpos cap k n)) k"
    using unat_qpos(1) [OF assms] by (simp add: bit_iff_odd)
  then have "\<not> bit (qpos cap k n) k"
    using ring_k [OF assms] by (simp add: bit_unsigned_iff)
  then show ?thesis
    by (simp add: and_exp_eq_0_iff_not_bit)
qed

lemma closed_bit: "ring_ok cap k \<Longrightarrow> small cap n \<Longrightarrow> (w OR 2 ^ k) AND 2 ^ k \<noteq> (0 :: 64 word)"
  using ring_k [of cap k n] by (simp add: and_exp_eq_0_iff_not_bit bit_or_iff bit_exp_iff)

lemma closed_not_open:
  assumes "ring_ok cap k" "small cap n" "small cap m"
  shows "qpos cap k n OR 2 ^ k \<noteq> qpos cap k m"
  using closed_bit [OF assms(1,2), of "qpos cap k n"] qpos_open [OF assms(1,3)] by metis

lemma qpos_inj:
  assumes "ring_ok cap k" "small cap a" "small cap b"
  shows "qpos cap k a = qpos cap k b \<longleftrightarrow> a = b"
  using unat_qpos(1) [OF assms(1)] ring_pos_inj [OF assms(1)] assms by metis

lemma qpos_stamp_ne:
  assumes "ring_ok cap k" "small cap a" "small cap b" "a mod cap = b mod cap"
  shows "qpos cap k a \<noteq> qpos cap k b + 1"
proof
  assume "qpos cap k a = qpos cap k b + 1"
  then have "ring_pos cap k a = ring_pos cap k b + 1"
    using unat_qpos [OF assms(1,2)] unat_qpos [OF assms(1,3)] by metis
  then have "ring_pos cap k a mod 2 ^ Suc k = (ring_pos cap k b mod 2 ^ Suc k + 1) mod 2 ^ Suc k"
    by (simp only: mod_add_left_eq)
  then have "a mod cap = (b mod cap + 1) mod 2 ^ Suc k"
    by (simp only: ring_pos_mod [OF assms(1)])
  moreover have "b mod cap + 1 < 2 ^ Suc k"
    using ring_mod [OF assms(1), of b] by simp
  ultimately show False using assms(4) by simp
qed

lemma qpos_lap: "ring_ok cap k \<Longrightarrow> qpos cap k n + 1 + mask (Suc k) = qpos cap k (n + cap)"
  by (simp add: qpos_def ring_pos_add ring_ok_def mask_eq_exp_minus_1)

lemma qpos_seq:
  assumes "ring_ok cap k" "small cap n"
  shows "qpos cap k n AND NOT (mask (Suc k)) = word_of_nat (n div cap * 2 ^ Suc k)"
proof -
  let ?w = "qpos cap k n"
  have "unat (?w AND mask (Suc k)) = n mod cap"
    using ring_pos_mod [OF assms(1), of n] unat_qpos(1) [OF assms] by (simp add: unat_and_mask del: power_Suc)
  then have "(word_of_nat (unat (?w AND mask (Suc k))) :: 64 word) = word_of_nat (n mod cap)"
    by simp
  then have "?w AND mask (Suc k) = word_of_nat (n mod cap)"
    by simp
  then have "?w AND NOT (mask (Suc k)) = ?w - word_of_nat (n mod cap)"
    using and_not_mask_add [of ?w "Suc k"] by (metis add_diff_cancel_right')
  also have "\<dots> = word_of_nat (n div cap * 2 ^ Suc k)"
    by (simp add: qpos_def ring_pos_def)
  finally show ?thesis .
qed

lemma qpos_seq_eq:
  assumes "ring_ok cap k" "small cap a" "small cap b"
  shows "qpos cap k a AND NOT (mask (Suc k)) = qpos cap k b AND NOT (mask (Suc k)) \<longleftrightarrow> a div cap = b div cap"
proof -
  have u: "unat (word_of_nat (n div cap * 2 ^ Suc k) :: 64 word) = n div cap * 2 ^ Suc k" if "small cap n" for n
  proof -
    have "n div cap * 2 ^ Suc k < 2 ^ 63"
      using ring_pos_bound [OF assms(1) that] by (simp add: ring_pos_def)
    then show ?thesis by (simp add: unat_of_nat del: of_nat_mult of_nat_power power_Suc)
  qed
  show ?thesis
    unfolding qpos_seq [OF assms(1,2)] qpos_seq [OF assms(1,3)]
    using u [OF assms(2)] u [OF assms(3)] by (metis mult_cancel2 power_not_zero zero_neq_numeral)
qed

lemma qpos_low:
  assumes "ring_ok cap k" "small cap n"
  shows "unat (qpos cap k n AND drop_bit 1 (mask (Suc k))) = n mod cap"
proof -
  have m: "drop_bit 1 (mask (Suc k)) = (mask k :: 64 word)"
    using ring_k [OF assms] by (intro bit_eqI) (auto simp: bit_simps)
  have c: "n mod cap < 2 ^ k"
    using ring_mod [OF assms(1), of n] by simp
  have p: "ring_pos cap k n = n mod cap + 2 ^ k * (2 * (n div cap))"
    by (simp add: ring_pos_def)
  have "unat (qpos cap k n AND mask k) = ring_pos cap k n mod 2 ^ k"
    using unat_qpos(1) [OF assms] by (simp only: unat_and_mask)
  also have "\<dots> = n mod cap"
    unfolding p using c by (simp only: mod_mult_self2 mod_less)
  finally show ?thesis by (simp only: m)
qed

lemma flag_masks:
  fixes w :: "64 word"
  shows "(w OR 2 ^ k) AND drop_bit 1 (mask (Suc k)) = w AND drop_bit 1 (mask (Suc k))"
    and "(w OR 2 ^ k) AND NOT (mask (Suc k)) = w AND NOT (mask (Suc k))"
  by (intro bit_eqI; auto simp: bit_simps)+

lemma qpos_next:
  assumes "ring_ok cap k" "small cap n" "mq_shape cap k q"
  shows "next_queue_pos q (qpos cap k n) = Some (qpos cap k (Suc n))"
proof -
  let ?w = "qpos cap k n"
  note u = unat_qpos [OF assms(1,2)]
  have shape: "length (mq_buffer q) = cap" "mq_right_mask q = mask (Suc k)" "mq_closed_channel_mask q = 2 ^ k"
    using assms(3) by (auto simp: mq_shape_def)
  have b: "unat ?w < 2 ^ 63"
    using ring_pos_bound [OF assms(1,2)] u(1) by simp
  have "?w \<noteq> - 1"
  proof
    assume "?w = - 1"
    with u(2) show False by simp
  qed
  have lt: "n mod cap + 1 < 2 ^ Suc k"
    using ring_mod [OF assms(1), of n] by simp
  have "(ring_pos cap k n + 1) mod 2 ^ Suc k = (ring_pos cap k n mod 2 ^ Suc k + 1) mod 2 ^ Suc k"
    by (simp only: mod_add_left_eq)
  then have idx: "unat ((?w + 1) AND mask (Suc k)) = n mod cap + 1"
    using lt u(2) ring_pos_mod [OF assms(1), of n] by (simp add: unat_and_mask del: power_Suc)
  show ?thesis
  proof (cases "n mod cap + 1 < cap")
    case True
    then have "Suc n mod cap = Suc (n mod cap)" "Suc n div cap = n div cap"
      by (simp_all add: mod_Suc div_Suc)
    then have "?w + 1 = qpos cap k (Suc n)"
      by (simp add: qpos_def ring_pos_def algebra_simps)
    then show ?thesis
      using True idx \<open>?w \<noteq> - 1\<close> qpos_open [OF assms(1,2)] by (simp add: next_queue_pos_def shape Let_def)
  next
    case False
    then have "Suc (n mod cap) = cap"
      using mod_less_divisor [of cap n] assms(1) unfolding ring_ok_def by linarith
    then have m: "Suc n mod cap = 0" "Suc n div cap = Suc (n div cap)"
      by (simp_all add: mod_Suc div_Suc)
    have "(?w AND NOT (mask (Suc k))) + (mask (Suc k) + 1) = qpos cap k (Suc n)"
      by (simp add: qpos_seq [OF assms(1,2)] del: power_Suc)
        (simp add: qpos_def ring_pos_def m mask_eq_exp_minus_1 algebra_simps)
    then show ?thesis
      using False idx \<open>?w \<noteq> - 1\<close> qpos_open [OF assms(1,2)] by (simp add: next_queue_pos_def shape Let_def)
  qed
qed

lemma stamp_order:
  assumes "unat a < 2 ^ 63" "unat (b :: 64 word) < 2 ^ 63"
  shows "sint (a - b) = int (unat a) - int (unat b)"
proof -
  have "a - b = word_of_int (int (unat a) - int (unat b))"
    by simp
  then have "sint (a - b) = signed_take_bit 63 (int (unat a) - int (unat b))"
    by (simp only: sint_sbintrunc') simp
  also have "\<dots> = int (unat a) - int (unat b)"
  proof (rule signed_take_bit_int_eq_self)
    have "int (unat a) < int (2 ^ 63)" "int (unat b) < int (2 ^ 63)"
      using assms by (simp_all only: of_nat_less_iff)
    then show "- (2 ^ 63) \<le> int (unat a) - int (unat b)" "int (unat a) - int (unat b) < 2 ^ 63"
      unfolding of_nat_power of_nat_numeral by linarith+
  qed
  finally show ?thesis .
qed

end
