(* ===== verification/Mpsc_Fifo.thy ===== *)
theory Mpsc_Fifo
  imports Mpsc_Queue
begin

text \<open>
  Correctness of the mailbox queue under every interleaving: an invariant of the slots, the
  positions and the program counters of all threads, kept by every atomic step. Messages
  are counted from the start; message \<open>j\<close> lives in slot \<open>j mod cap\<close>. The slots of messages
  \<open>r, \<dots>, r + cap - 1\<close> are all slots, where \<open>r\<close> messages have been taken and their slots
  released. The map \<open>h\<close> says which positions a producer has claimed and not yet stamped,
  with the flag set once the message is written.
\<close>

unbundle bit_operations_syntax

subsection \<open>Which producer holds which position\<close>

fun push_holds :: "'m push_pc \<Rightarrow> (64 word \<times> bool) option" where
  "push_holds (PushClaimed m w st) = Some (w, False)"
| "push_holds (PushWritten w st) = Some (w, True)"
| "push_holds _ = None"

definition owners :: "(nat \<Rightarrow> 'm push_pc) \<Rightarrow> (64 word \<Rightarrow> bool option) \<Rightarrow> bool" where
  "owners f h \<longleftrightarrow> (\<forall>w b. h w = Some b \<longleftrightarrow> (\<exists>i. push_holds (f i) = Some (w, b))) \<and>
     (\<forall>i j w a b. push_holds (f i) = Some (w, a) \<longrightarrow> push_holds (f j) = Some (w, b) \<longrightarrow> i = j)"

lemma ownersD: "owners f h \<Longrightarrow> push_holds (f i) = Some (w, b) \<Longrightarrow> h w = Some b"
  by (auto simp: owners_def)

lemma owners_idle:
  assumes "owners f h" "push_holds (f i) = None" "push_holds pc = None"
  shows "owners (f(i := pc)) h"
proof -
  have "(\<exists>j. push_holds ((f(i := pc)) j) = Some x) \<longleftrightarrow> (\<exists>j. push_holds (f j) = Some x)" for x
    using assms(2,3) by (metis fun_upd_apply option.distinct(1))
  then show ?thesis
    using assms unfolding owners_def by auto
qed

lemma owners_claim:
  assumes "owners f h" "push_holds (f i) = None" "push_holds pc = Some (w, b)" "h w = None"
  shows "owners (f(i := pc)) (h(w \<mapsto> b))"
  using assms unfolding owners_def
  by (auto split: if_splits) (metis option.distinct(1) option.inject prod.inject)+

lemma owners_written:
  assumes "owners f h" "push_holds (f i) = Some (w, a)" "push_holds pc = Some (w, b)"
  shows "owners (f(i := pc)) (h(w \<mapsto> b))"
  using assms unfolding owners_def
  by (auto split: if_splits) (metis option.inject prod.inject)+

lemma owners_release:
  assumes "owners f h" "push_holds (f i) = Some (w, a)" "push_holds pc = None"
  shows "owners (f(i := pc)) (h(w := None))"
  using assms unfolding owners_def
  by (auto split: if_splits) (metis option.inject prod.inject)+

subsection \<open>The invariant\<close>

fun pop_content :: "'m pop_pc \<Rightarrow> 'm \<Rightarrow> 'm message_box" where
  "pop_content (PopBorrow _ _ _) m = MNone"
| "pop_content (PopVacated _ _) m = Vacated"
| "pop_content _ m = Populated m"

fun pop_lead :: "'m pop_pc \<Rightarrow> nat" where
  "pop_lead (PopIdle _) = 0"
| "pop_lead (PopLoaded _ _) = 0"
| "pop_lead _ = 1"

fun pop_taken :: "'m pop_pc \<Rightarrow> nat" where
  "pop_taken (PopBorrow _ _ _) = 1"
| "pop_taken (PopVacated _ _) = 1"
| "pop_taken _ = 0"

definition slot_ok ::
    "nat \<Rightarrow> nat \<Rightarrow> 'm list \<Rightarrow> (64 word \<Rightarrow> bool option) \<Rightarrow> nat \<Rightarrow> 'm pop_pc \<Rightarrow> nat \<Rightarrow> 'm slot \<Rightarrow> bool" where
  "slot_ok cap k sent h r pc j sl \<longleftrightarrow>
     (if length sent \<le> j then sl = \<lparr>sl_stamp = qpos cap k j, sl_message = Vacated\<rparr>
      else (case h (qpos cap k j) of
          Some False \<Rightarrow> sl = \<lparr>sl_stamp = qpos cap k j, sl_message = Vacated\<rparr>
        | Some True \<Rightarrow> sl = \<lparr>sl_stamp = qpos cap k j, sl_message = Populated (sent ! j)\<rparr>
        | None \<Rightarrow> sl = \<lparr>sl_stamp = qpos cap k j + 1,
            sl_message = (if j = r then pop_content pc (sent ! j) else Populated (sent ! j))\<rparr>))"

fun pop_ok :: "nat \<Rightarrow> nat \<Rightarrow> 'm list \<Rightarrow> (64 word \<Rightarrow> bool option) \<Rightarrow> nat \<Rightarrow> 'm pop_pc \<Rightarrow> bool" where
  "pop_ok cap k sent h r (PopIdle _) \<longleftrightarrow> True"
| "pop_ok cap k sent h r (PopLoaded w st) \<longleftrightarrow>
     w = qpos cap k r \<and> (st = w \<or> st = w + 1 \<and> r < length sent \<and> h w = None)"
| "pop_ok cap k sent h r (PopAdvanced i st) \<longleftrightarrow>
     i = r mod cap \<and> st = qpos cap k (r + cap) \<and> r < length sent \<and> h (qpos cap k r) = None"
| "pop_ok cap k sent h r (PopBorrow m i st) \<longleftrightarrow>
     i = r mod cap \<and> st = qpos cap k (r + cap) \<and> r < length sent \<and> h (qpos cap k r) = None \<and> m = sent ! r"
| "pop_ok cap k sent h r (PopVacated i st) \<longleftrightarrow>
     i = r mod cap \<and> st = qpos cap k (r + cap) \<and> r < length sent \<and> h (qpos cap k r) = None"

fun push_ok :: "nat \<Rightarrow> nat \<Rightarrow> 'm list \<Rightarrow> nat \<Rightarrow> 'm push_pc \<Rightarrow> bool" where
  "push_ok cap k sent r (PushStart m) \<longleftrightarrow> True"
| "push_ok cap k sent r (PushDone e) \<longleftrightarrow> True"
| "push_ok cap k sent r (PushCheck m w) \<longleftrightarrow> w AND 2 ^ k \<noteq> 0 \<or> (\<exists>j \<le> length sent. w = qpos cap k j)"
| "push_ok cap k sent r (PushLoaded m w st) \<longleftrightarrow>
     unat st < 2 ^ 63 \<and> (\<exists>j \<le> length sent. w = qpos cap k j \<and> (st = w \<longrightarrow> j < r + cap))"
| "push_ok cap k sent r (PushClaimed m w st) \<longleftrightarrow>
     st = w \<and> (\<exists>j. r \<le> j \<and> j < length sent \<and> w = qpos cap k j \<and> m = sent ! j)"
| "push_ok cap k sent r (PushWritten w st) \<longleftrightarrow>
     st = w \<and> (\<exists>j. r \<le> j \<and> j < length sent \<and> w = qpos cap k j)"

definition slots_ok ::
    "nat \<Rightarrow> nat \<Rightarrow> 'm list \<Rightarrow> (64 word \<Rightarrow> bool option) \<Rightarrow> nat \<Rightarrow> 'm pop_pc \<Rightarrow> 'm slot list \<Rightarrow> bool" where
  "slots_ok cap k sent h r pc buf \<longleftrightarrow>
     (\<forall>j. r \<le> j \<longrightarrow> j < r + cap \<longrightarrow> slot_ok cap k sent h r pc j (buf ! (j mod cap)))"

definition mq_inv ::
    "nat \<Rightarrow> nat \<Rightarrow> nat \<Rightarrow> (64 word \<Rightarrow> bool option) \<Rightarrow> 'm mq_sys \<Rightarrow> bool" where
  "mq_inv cap k r h s \<longleftrightarrow>
     mq_shape cap k (qs_queue s) \<and>
     length (qs_sent s) \<le> r + cap \<and> r + pop_lead (qs_pop s) \<le> length (qs_sent s) \<and>
     (mq_enqueue_pos (qs_queue s) = qpos cap k (length (qs_sent s)) \<or>
      mq_enqueue_pos (qs_queue s) = qpos cap k (length (qs_sent s)) OR 2 ^ k) \<and>
     mq_dequeue_pos (qs_queue s) = qpos cap k (r + pop_lead (qs_pop s)) \<and>
     qs_got s = take (r + pop_taken (qs_pop s)) (qs_sent s) \<and>
     owners (qs_push s) h \<and>
     slots_ok cap k (qs_sent s) h r (qs_pop s) (mq_buffer (qs_queue s)) \<and>
     pop_ok cap k (qs_sent s) h r (qs_pop s) \<and>
     (\<forall>i. push_ok cap k (qs_sent s) r (qs_push s i))"

text \<open>All positions that occur are small.\<close>

definition fits :: "nat \<Rightarrow> 'm list \<Rightarrow> bool" where
  "fits cap sent \<longleftrightarrow> small cap (length sent + cap + 1)"

lemma fits_small: "fits cap sent \<Longrightarrow> j \<le> length sent + cap \<Longrightarrow> small cap j"
  unfolding fits_def by (erule small_mono) simp

lemma window_unique:
  assumes "(r :: nat) \<le> i" "i < r + c" "r \<le> j" "j < r + c" "i mod c = j mod c"
  shows "i = j"
proof -
  have "(i - r) mod c = (j - r) mod c"
    using assms by (metis add_diff_inverse_nat mod_diff_eq nat_int not_less of_nat_diff zmod_int)
  then show ?thesis using assms by simp
qed

lemma slot_ok_cong:
  assumes "length sent' \<le> j \<longleftrightarrow> length sent \<le> j" "j < length sent \<Longrightarrow> sent' ! j = sent ! j"
    and "h' (qpos cap k j) = h (qpos cap k j)" "j = r \<Longrightarrow> pop_content pc' = pop_content pc"
  shows "slot_ok cap k sent' h' r pc' j sl = slot_ok cap k sent h r pc j sl"
proof (cases "length sent \<le> j")
  case False
  with assms have "length sent' \<le> j \<longleftrightarrow> False" "sent' ! j = sent ! j" by auto
  with False assms(3,4) show ?thesis
    by (cases "j = r") (simp_all add: slot_ok_def split: option.split bool.split)
qed (use assms in \<open>simp add: slot_ok_def\<close>)

lemma slots_update:
  assumes "slots_ok cap k sent h r pc buf" "length buf = cap" "ring_ok cap k" "r \<le> j" "j < r + cap"
    and "slot_ok cap k sent' h' r pc' j sl"
    and "\<And>i. r \<le> i \<Longrightarrow> i < r + cap \<Longrightarrow> i \<noteq> j \<Longrightarrow>
      slot_ok cap k sent h r pc i (buf ! (i mod cap)) \<Longrightarrow> slot_ok cap k sent' h' r pc' i (buf ! (i mod cap))"
  shows "slots_ok cap k sent' h' r pc' (buf[j mod cap := sl])"
  unfolding slots_ok_def
proof (intro allI impI)
  fix i
  assume i: "r \<le> i" "i < r + cap"
  have "j mod cap < length buf"
    using assms(2,3) by (simp add: ring_ok_def)
  show "slot_ok cap k sent' h' r pc' i (buf[j mod cap := sl] ! (i mod cap))"
  proof (cases "i = j")
    case True
    then show ?thesis using assms(6) \<open>j mod cap < length buf\<close> by simp
  next
    case False
    then have "i mod cap \<noteq> j mod cap"
      using window_unique i assms(4,5) by blast
    then show ?thesis
      using assms(1,7) i False by (simp add: slots_ok_def)
  qed
qed

lemma window_exists: "0 < c \<Longrightarrow> \<exists>j'. (r :: nat) \<le> j' \<and> j' < r + c \<and> j' mod c = j mod c"
proof (intro exI conjI)
  assume c: "0 < c"
  let ?x = "(j + (c - 1) * r) mod c"
  show "r \<le> r + ?x" by simp
  show "r + ?x < r + c" using c by simp
  have "(r + ?x) mod c = (r + (j + (c - 1) * r)) mod c"
    by (simp add: mod_add_right_eq)
  also have "r + (j + (c - 1) * r) = j + c * r"
    using c by (cases c) simp_all
  finally show "(r + ?x) mod c = j mod c" by simp
qed

lemma slot_stamp:
  assumes "slot_ok cap k sent h r pc j sl"
  shows "sl_stamp sl = qpos cap k j \<or> sl_stamp sl = qpos cap k j + 1"
  using assms by (auto simp: slot_ok_def split: if_splits option.splits bool.splits)

lemma stamp_bound:
  assumes "ring_ok cap k" "small cap j"
  shows "unat (qpos cap k j) < 2 ^ 63" "unat (qpos cap k j + 1) < 2 ^ 63"
proof -
  have "ring_pos cap k j < 2 ^ 63 - 2 ^ Suc k" by (rule ring_pos_bound [OF assms])
  moreover have "(1 :: nat) \<le> 2 ^ Suc k" by simp
  ultimately have "ring_pos cap k j + 1 < 2 ^ 63" by linarith
  then show "unat (qpos cap k j) < 2 ^ 63" "unat (qpos cap k j + 1) < 2 ^ 63"
    using unat_qpos [OF assms] by simp_all
qed

text \<open>What a producer reads in the slot of its position.\<close>

lemma loaded_stamp:
  assumes inv: "mq_inv cap k r h s" and rk: "ring_ok cap k" and ft: "fits cap (qs_sent s)"
    and j: "j \<le> length (qs_sent s)"
  shows "unat (sl_stamp (mq_buffer (qs_queue s) ! (j mod cap))) < 2 ^ 63"
    and "sl_stamp (mq_buffer (qs_queue s) ! (j mod cap)) = qpos cap k j \<Longrightarrow> j < r + cap"
proof -
  obtain j' where j': "r \<le> j'" "j' < r + cap" "j' mod cap = j mod cap"
    using window_exists [of cap r j] rk by (auto simp: ring_ok_def)
  have "r \<le> length (qs_sent s)" "slots_ok cap k (qs_sent s) h r (qs_pop s) (mq_buffer (qs_queue s))"
    using inv by (auto simp: mq_inv_def)
  then have sm: "small cap j'" "small cap j"
    and sl: "slot_ok cap k (qs_sent s) h r (qs_pop s) j' (mq_buffer (qs_queue s) ! (j mod cap))"
    using j j' fits_small [OF ft] by (auto simp: slots_ok_def)
  let ?st = "sl_stamp (mq_buffer (qs_queue s) ! (j mod cap))"
  show "unat ?st < 2 ^ 63"
    using slot_stamp [OF sl] stamp_bound [OF rk sm(1)] by auto
  assume "?st = qpos cap k j"
  then have "qpos cap k j' = qpos cap k j"
    using slot_stamp [OF sl] qpos_stamp_ne [OF rk sm(2,1)] j'(3) by auto
  then show "j < r + cap"
    using qpos_inj [OF rk sm] j'(2) by simp
qed

subsection \<open>Every step keeps the invariant\<close>

lemma inv_idle_pc:
  assumes "mq_inv cap k r h s" "push_holds (qs_push s i) = None" "push_holds pc = None"
    "push_ok cap k (qs_sent s) r pc"
  shows "mq_inv cap k r h (s\<lparr>qs_push := (qs_push s)(i := pc)\<rparr>)"
  using assms by (auto simp: mq_inv_def owners_idle)

lemma enqueue_pos_ok:
  assumes "mq_inv cap k r h s" "ring_ok cap k" "fits cap (qs_sent s)"
  shows "push_ok cap k (qs_sent s) r (PushCheck m (mq_enqueue_pos (qs_queue s)))"
  using assms closed_bit [OF assms(2) fits_small [OF assms(3), of 0]] by (auto simp: mq_inv_def)

lemma inv_close:
  assumes "mq_inv cap k r h s"
  shows "mq_inv cap k r h (s\<lparr>qs_queue := mq_close (qs_queue s)\<rparr>)"
  using assms by (auto simp: mq_inv_def mq_close_def mq_shape_def or.assoc)

lemma push_ok_append:
  assumes "push_ok cap k sent r pc"
  shows "push_ok cap k (sent @ [m]) r pc"
proof (cases pc)
  case (PushCheck m' w)
  with assms show ?thesis by (auto intro: le_SucI)
next
  case (PushLoaded m' w st)
  with assms show ?thesis by (auto intro: le_SucI)
next
  case (PushClaimed m' w st)
  with assms obtain j where "st = w" "r \<le> j" "j < length sent" "w = qpos cap k j" "m' = sent ! j" by auto
  with PushClaimed show ?thesis by (auto simp: nth_append intro!: exI [of _ j])
next
  case (PushWritten w st)
  with assms show ?thesis by (auto intro: less_SucI)
qed simp_all

lemma inv_claim:
  assumes inv: "mq_inv cap k r h s" and rk: "ring_ok cap k" and ft: "fits cap (qs_sent s)"
    and pc: "qs_push s i = PushLoaded m w w" and w: "mq_enqueue_pos (qs_queue s) = w"
  shows "next_queue_pos (qs_queue s) w = Some (qpos cap k (Suc (length (qs_sent s)))) \<and>
    mq_inv cap k r (h(w \<mapsto> False)) (s\<lparr>qs_queue := (qs_queue s)\<lparr>mq_enqueue_pos := qpos cap k (Suc (length (qs_sent s)))\<rparr>,
      qs_push := (qs_push s)(i := PushClaimed m w w), qs_sent := qs_sent s @ [m]\<rparr>)"
proof -
  let ?n = "length (qs_sent s)"
  note sm = fits_small [OF ft]
  have I: "mq_shape cap k (qs_queue s)" "?n \<le> r + cap" "r + pop_lead (qs_pop s) \<le> ?n"
    "qs_got s = take (r + pop_taken (qs_pop s)) (qs_sent s)" "owners (qs_push s) h"
    "slots_ok cap k (qs_sent s) h r (qs_pop s) (mq_buffer (qs_queue s))"
    "pop_ok cap k (qs_sent s) h r (qs_pop s)" "\<And>i. push_ok cap k (qs_sent s) r (qs_push s i)"
    "mq_enqueue_pos (qs_queue s) = qpos cap k ?n \<or> mq_enqueue_pos (qs_queue s) = qpos cap k ?n OR 2 ^ k"
    using inv by (auto simp: mq_inv_def)
  obtain j where j: "j \<le> ?n" "w = qpos cap k j" "j < r + cap"
    using I(8) [of i] pc by auto
  have "w = qpos cap k ?n"
    using I(9) w j closed_not_open [OF rk sm sm, of ?n j] by auto
  then have wn: "w = qpos cap k ?n" and n: "?n < r + cap"
    using j qpos_inj [OF rk sm sm, of j ?n] by auto
  have free: "h w = None"
  proof (rule ccontr)
    assume "h w \<noteq> None"
    then obtain b i' where "push_holds (qs_push s i') = Some (w, b)"
      using I(5) by (auto simp: owners_def)
    then obtain j' where "j' < ?n" "w = qpos cap k j'"
      using I(8) [of i'] by (cases "qs_push s i'") auto
    then show False using wn qpos_inj [OF rk sm sm, of j' ?n] by auto
  qed
  have ne: "qpos cap k j' \<noteq> w" if "j' < r + cap" "j' \<noteq> ?n" for j'
    using that wn I(3) qpos_inj [OF rk sm sm, of j' ?n] by auto
  let ?h = "h(w \<mapsto> False)"
  have "slots_ok cap k (qs_sent s @ [m]) ?h r (qs_pop s)
      ((mq_buffer (qs_queue s))[?n mod cap := mq_buffer (qs_queue s) ! (?n mod cap)])"
  proof (rule slots_update [OF I(6) _ rk _ n])
    show "length (mq_buffer (qs_queue s)) = cap" "r \<le> ?n" using I(1,3) by (auto simp: mq_shape_def)
    show "slot_ok cap k (qs_sent s @ [m]) ?h r (qs_pop s) ?n (mq_buffer (qs_queue s) ! (?n mod cap))"
      using I(3,6) n wn by (auto simp: slots_ok_def slot_ok_def)
    show "slot_ok cap k (qs_sent s @ [m]) ?h r (qs_pop s) i' (mq_buffer (qs_queue s) ! (i' mod cap))"
      if "r \<le> i'" "i' < r + cap" "i' \<noteq> ?n"
        "slot_ok cap k (qs_sent s) h r (qs_pop s) i' (mq_buffer (qs_queue s) ! (i' mod cap))" for i'
      by (rule slot_ok_cong [where sent = "qs_sent s" and h = h and pc = "qs_pop s", THEN iffD2])
        (use that ne [of i'] in \<open>auto simp: nth_append\<close>)
  qed
  moreover have "pop_ok cap k (qs_sent s @ [m]) ?h r (qs_pop s)"
    using I(7) n ne [of r] by (cases "qs_pop s") (auto simp: nth_append)
  moreover have "push_ok cap k (qs_sent s @ [m]) r (((qs_push s)(i := PushClaimed m w w)) i')" for i'
    using push_ok_append [OF I(8), of m i'] wn I(3) by (auto intro!: exI [of _ ?n])
  moreover have "owners ((qs_push s)(i := PushClaimed m w w)) ?h"
    using owners_claim [OF I(5), of i "PushClaimed m w w" w False] pc free by simp
  moreover have "r + pop_taken (qs_pop s) \<le> ?n"
    using I(3) by (cases "qs_pop s") auto
  ultimately have "mq_inv cap k r ?h (s\<lparr>qs_queue := (qs_queue s)\<lparr>mq_enqueue_pos := qpos cap k (Suc ?n)\<rparr>,
      qs_push := (qs_push s)(i := PushClaimed m w w), qs_sent := qs_sent s @ [m]\<rparr>)"
    using inv n by (simp add: mq_inv_def mq_shape_def)
  then show ?thesis
    using qpos_next [OF rk sm I(1), of ?n] wn by simp
qed

text \<open>A step that touches the slot of one message \<open>j\<close> and the map \<open>h\<close> at its position only.\<close>

lemma inv_slot:
  assumes inv: "mq_inv cap k r h s" and rk: "ring_ok cap k" and ft: "fits cap (qs_sent s)"
    and j: "r \<le> j" "j < length (qs_sent s)"
    and sl: "slot_ok cap k (qs_sent s) h' r pp j sl"
    and h': "\<And>w. w \<noteq> qpos cap k j \<Longrightarrow> h' w = h w"
    and pp: "pop_content pp = pop_content (qs_pop s) \<or> j = r" "pop_lead pp = pop_lead (qs_pop s)"
      "pop_ok cap k (qs_sent s) h' r pp" "got = take (r + pop_taken pp) (qs_sent s)"
    and f: "owners f h'" "\<And>i. push_ok cap k (qs_sent s) r (f i)"
  shows "mq_inv cap k r h' (s\<lparr>qs_queue := (qs_queue s)\<lparr>mq_buffer := (mq_buffer (qs_queue s))[j mod cap := sl]\<rparr>,
    qs_push := f, qs_pop := pp, qs_got := got\<rparr>)"
proof -
  have I: "mq_shape cap k (qs_queue s)" "length (qs_sent s) \<le> r + cap" "r \<le> length (qs_sent s)"
    "slots_ok cap k (qs_sent s) h r (qs_pop s) (mq_buffer (qs_queue s))"
    using inv by (auto simp: mq_inv_def)
  have "slots_ok cap k (qs_sent s) h' r pp ((mq_buffer (qs_queue s))[j mod cap := sl])"
  proof (rule slots_update [OF I(4) _ rk j(1) _ sl])
    show "length (mq_buffer (qs_queue s)) = cap" "j < r + cap"
      using I j by (auto simp: mq_shape_def)
    show "slot_ok cap k (qs_sent s) h' r pp i (mq_buffer (qs_queue s) ! (i mod cap))"
      if "r \<le> i" "i < r + cap" "i \<noteq> j"
        "slot_ok cap k (qs_sent s) h r (qs_pop s) i (mq_buffer (qs_queue s) ! (i mod cap))" for i
    proof -
      have "qpos cap k i \<noteq> qpos cap k j"
        using qpos_inj [OF rk fits_small [OF ft] fits_small [OF ft], of i j] that I j by auto
      then show ?thesis
        using slot_ok_cong [of "qs_sent s" i "qs_sent s" h' cap k h r pp "qs_pop s"] h' that pp(1) by auto
    qed
  qed
  then show ?thesis
    using inv pp f by (simp add: mq_inv_def mq_shape_def)
qed

lemma slot_at:
  assumes "mq_inv cap k r h s" "ring_ok cap k" "r \<le> j" "j < r + cap"
  shows "slot_ok cap k (qs_sent s) h r (qs_pop s) j (mq_buffer (qs_queue s) ! (j mod cap))"
    and "vec_get (mq_buffer (qs_queue s)) (j mod cap) = Some (mq_buffer (qs_queue s) ! (j mod cap))"
  using assms by (auto simp: mq_inv_def slots_ok_def mq_shape_def ring_ok_def)

lemma inv_write:
  assumes inv: "mq_inv cap k r h s" and rk: "ring_ok cap k" and ft: "fits cap (qs_sent s)"
    and pc: "qs_push s i = PushClaimed m w st"
  shows "\<exists>q. push_step weak (PushClaimed m w st) (qs_queue s) = Some (PushWritten w st, q) \<and>
    mq_inv cap k r (h(w \<mapsto> True)) (s\<lparr>qs_queue := q, qs_push := (qs_push s)(i := PushWritten w st)\<rparr>)"
proof -
  have I: "mq_shape cap k (qs_queue s)" "length (qs_sent s) \<le> r + cap" "owners (qs_push s) h"
    "\<And>i. push_ok cap k (qs_sent s) r (qs_push s i)" "pop_ok cap k (qs_sent s) h r (qs_pop s)"
    "qs_got s = take (r + pop_taken (qs_pop s)) (qs_sent s)"
    using inv by (auto simp: mq_inv_def)
  obtain j where j: "r \<le> j" "j < length (qs_sent s)" "w = qpos cap k j" "m = qs_sent s ! j" "st = w"
    using I(4) [of i] pc by auto
  have hw: "h w = Some False"
    using ownersD [OF I(3), of i w] pc by auto
  let ?sl = "\<lparr>sl_stamp = w, sl_message = Vacated\<rparr>"
  have sl: "mq_buffer (qs_queue s) ! (j mod cap) = ?sl"
    using slot_at(1) [OF inv rk j(1)] j I(2) hw by (simp add: slot_ok_def)
  have idx: "slot_index (qs_queue s) w = j mod cap"
    using qpos_index [OF rk fits_small [OF ft] I(1), of j] j by simp
  let ?q = "(qs_queue s)\<lparr>mq_buffer := (mq_buffer (qs_queue s))[j mod cap := \<lparr>sl_stamp = w, sl_message = Populated m\<rparr>]\<rparr>"
  have "push_step weak (PushClaimed m w st) (qs_queue s) = Some (PushWritten w st, ?q)"
    using slot_at(2) [OF inv rk j(1)] j I(2) idx sl by simp
  moreover have "mq_inv cap k r (h(w \<mapsto> True)) (s\<lparr>qs_queue := ?q, qs_push := (qs_push s)(i := PushWritten w st),
      qs_pop := qs_pop s, qs_got := qs_got s\<rparr>)"
  proof (rule inv_slot [OF inv rk ft j(1,2)])
    show "owners ((qs_push s)(i := PushWritten w st)) (h(w \<mapsto> True))"
      using owners_written [OF I(3), of i w False "PushWritten w st" True] pc by simp
    show "pop_ok cap k (qs_sent s) (h(w \<mapsto> True)) r (qs_pop s)"
      using I(5) hw by (cases "qs_pop s") auto
    show "push_ok cap k (qs_sent s) r (((qs_push s)(i := PushWritten w st)) i')" for i'
      using I(4) [of i'] j by auto
  qed (use j I(6) in \<open>auto simp: slot_ok_def\<close>)
  ultimately show ?thesis by auto
qed

lemma inv_stamp:
  assumes inv: "mq_inv cap k r h s" and rk: "ring_ok cap k" and ft: "fits cap (qs_sent s)"
    and pc: "qs_push s i = PushWritten w st"
  shows "\<exists>q. push_step weak (PushWritten w st) (qs_queue s) = Some (PushDone None, q) \<and>
    mq_inv cap k r (h(w := None)) (s\<lparr>qs_queue := q, qs_push := (qs_push s)(i := PushDone None)\<rparr>)"
proof -
  have I: "mq_shape cap k (qs_queue s)" "length (qs_sent s) \<le> r + cap" "owners (qs_push s) h"
    "\<And>i. push_ok cap k (qs_sent s) r (qs_push s i)" "pop_ok cap k (qs_sent s) h r (qs_pop s)"
    "qs_got s = take (r + pop_taken (qs_pop s)) (qs_sent s)"
    using inv by (auto simp: mq_inv_def)
  obtain j where j: "r \<le> j" "j < length (qs_sent s)" "w = qpos cap k j" "st = w"
    using I(4) [of i] pc by auto
  have hw: "h w = Some True"
    using ownersD [OF I(3), of i w] pc by auto
  have sl: "mq_buffer (qs_queue s) ! (j mod cap) = \<lparr>sl_stamp = w, sl_message = Populated (qs_sent s ! j)\<rparr>"
    using slot_at(1) [OF inv rk j(1)] j I(2) hw by (simp add: slot_ok_def)
  have idx: "slot_index (qs_queue s) w = j mod cap"
    using qpos_index [OF rk fits_small [OF ft] I(1), of j] j by simp
  have pop: "pop_content (qs_pop s) = Populated" if "j = r"
    using I(5) hw j(3) that by (cases "qs_pop s") (auto simp: fun_eq_iff)
  let ?sl = "\<lparr>sl_stamp = w + 1, sl_message = Populated (qs_sent s ! j)\<rparr>"
  let ?q = "(qs_queue s)\<lparr>mq_buffer := (mq_buffer (qs_queue s))[j mod cap := ?sl]\<rparr>"
  have "push_step weak (PushWritten w st) (qs_queue s) = Some (PushDone None, ?q)"
    using slot_at(2) [OF inv rk j(1)] j I(2) idx sl by simp
  moreover have "mq_inv cap k r (h(w := None)) (s\<lparr>qs_queue := ?q, qs_push := (qs_push s)(i := PushDone None),
      qs_pop := qs_pop s, qs_got := qs_got s\<rparr>)"
  proof (rule inv_slot [OF inv rk ft j(1,2)])
    show "owners ((qs_push s)(i := PushDone None)) (h(w := None))"
      using owners_release [OF I(3), of i w True "PushDone None"] pc by simp
    show "pop_ok cap k (qs_sent s) (h(w := None)) r (qs_pop s)"
      using I(5) by (cases "qs_pop s") auto
    show "push_ok cap k (qs_sent s) r (((qs_push s)(i := PushDone None)) i')" for i'
      using I(4) [of i'] by auto
    show "slot_ok cap k (qs_sent s) (h(w := None)) r (qs_pop s) j ?sl"
      using j pop by (simp add: slot_ok_def)
  qed (use j I(6) in auto)
  ultimately show ?thesis by auto
qed

lemma inv_push:
  assumes inv: "mq_inv cap k r h s" and rk: "ring_ok cap k" and ft: "fits cap (qs_sent s)"
    and pc: "\<And>e. qs_push s i \<noteq> PushDone e"
  shows "\<exists>pc q h'. push_step weak (qs_push s i) (qs_queue s) = Some (pc, q) \<and>
    mq_inv cap k r h' (s\<lparr>qs_queue := q, qs_push := (qs_push s)(i := pc),
      qs_sent := qs_sent s @ push_claims (qs_push s i) pc\<rparr>)"
proof -
  have idle: ?thesis if "push_step weak (qs_push s i) (qs_queue s) = Some (pc, qs_queue s)"
    "push_holds (qs_push s i) = None" "push_holds pc = None" "push_ok cap k (qs_sent s) r pc"
    "push_claims (qs_push s i) pc = []" for pc
    using inv_idle_pc [OF inv that(2-4)] that by (intro exI conjI) auto
  have I: "push_ok cap k (qs_sent s) r (qs_push s i)" "mq_shape cap k (qs_queue s)"
    using inv by (auto simp: mq_inv_def)
  show ?thesis
  proof (cases "qs_push s i")
    case (PushStart m)
    then show ?thesis
      using idle [of "PushCheck m (mq_enqueue_pos (qs_queue s))"] enqueue_pos_ok [OF inv rk ft] by simp
  next
    case (PushCheck m w)
    show ?thesis
    proof (cases "w AND 2 ^ k = 0")
      case True
      then obtain j where j: "j \<le> length (qs_sent s)" "w = qpos cap k j"
        using I(1) PushCheck by auto
      let ?st = "sl_stamp (mq_buffer (qs_queue s) ! (j mod cap))"
      have "slot_index (qs_queue s) w = j mod cap"
        using qpos_index [OF rk fits_small [OF ft] I(2), of j] j by simp
      moreover have "j mod cap < length (mq_buffer (qs_queue s))"
        using I(2) rk by (simp add: mq_shape_def ring_ok_def)
      moreover have "push_ok cap k (qs_sent s) r (PushLoaded m w ?st)"
        using loaded_stamp [OF inv rk ft j(1)] j by auto
      ultimately show ?thesis
        using idle [of "PushLoaded m w ?st"] PushCheck True I(2) by (simp add: mq_shape_def)
    next
      case False
      then show ?thesis
        using idle [of "PushDone (Some PushClosed)"] PushCheck I(2) by (simp add: mq_shape_def)
    qed
  next
    case (PushLoaded m w st)
    note retry = idle [of "PushCheck m (mq_enqueue_pos (qs_queue s))"] and full = idle [of "PushDone (Some (PushFull m))"]
    show ?thesis
    proof (cases "sint (st - w) = 0 \<and> mq_enqueue_pos (qs_queue s) = w \<and> \<not> weak")
      case True
      then have "st = w" by (simp add: signed_eq_0_iff)
      with inv_claim [OF inv rk ft, of i m w] PushLoaded True show ?thesis
        by (intro exI conjI) auto
    next
      case False
      then show ?thesis
        using retry full enqueue_pos_ok [OF inv rk ft, of m] PushLoaded
        by (cases "sint (st - w) = 0"; cases "sint (st - w) < 0") (auto simp: Let_def simp del: push_ok.simps(3))
    qed
  next
    case (PushClaimed m w st)
    with inv_write [OF inv rk ft, of i m w st weak] show ?thesis
      by (auto simp del: push_step.simps)
  next
    case (PushWritten w st)
    with inv_stamp [OF inv rk ft, of i w st weak] show ?thesis
      by (auto simp del: push_step.simps)
  next
    case (PushDone e)
    with pc [of e] show ?thesis by simp
  qed
qed

text \<open>The consumer. The last step of a pop releases the slot of message \<open>r\<close>.\<close>

lemma inv_pop_pc:
  assumes "mq_inv cap k r h s" "pop_content pc = pop_content (qs_pop s)" "pop_lead pc = pop_lead (qs_pop s)"
    "pop_taken pc = pop_taken (qs_pop s)" "pop_ok cap k (qs_sent s) h r pc"
  shows "mq_inv cap k r h (s\<lparr>qs_pop := pc\<rparr>)"
proof -
  have "slot_ok cap k (qs_sent s) h r pc j sl = slot_ok cap k (qs_sent s) h r (qs_pop s) j sl" for j sl
    using assms(2) by (intro slot_ok_cong) auto
  with assms show ?thesis
    by (simp add: mq_inv_def slots_ok_def)
qed

lemma inv_release:
  assumes inv: "mq_inv cap k r h s" and rk: "ring_ok cap k" and ft: "fits cap (qs_sent s)"
    and pc: "qs_pop s = PopVacated i st"
  shows "\<exists>q. pop_step (PopVacated i st) (qs_queue s) = Some (PopIdle None, q) \<and>
    mq_inv cap k (Suc r) h (s\<lparr>qs_queue := q, qs_pop := PopIdle None\<rparr>)"
proof -
  have I: "mq_shape cap k (qs_queue s)" "length (qs_sent s) \<le> r + cap" "owners (qs_push s) h"
    "\<And>i. push_ok cap k (qs_sent s) r (qs_push s i)" "pop_ok cap k (qs_sent s) h r (qs_pop s)"
    "slots_ok cap k (qs_sent s) h r (qs_pop s) (mq_buffer (qs_queue s))"
    using inv by (auto simp: mq_inv_def)
  have cap: "0 < cap" using rk by (simp add: ring_ok_def)
  have p: "i = r mod cap" "st = qpos cap k (r + cap)" "r < length (qs_sent s)" "h (qpos cap k r) = None"
    using I(5) pc by auto
  let ?b = "mq_buffer (qs_queue s)"
  have sl: "?b ! (r mod cap) = \<lparr>sl_stamp = qpos cap k r + 1, sl_message = Vacated\<rparr>"
    using slot_at(1) [OF inv rk, of r] p pc cap by (simp add: slot_ok_def)
  let ?b' = "?b[r mod cap := \<lparr>sl_stamp = st, sl_message = Vacated\<rparr>]"
  have step: "pop_step (PopVacated i st) (qs_queue s) = Some (PopIdle None, (qs_queue s)\<lparr>mq_buffer := ?b'\<rparr>)"
    using slot_at(2) [OF inv rk, of r] p cap sl by simp
  have "slots_ok cap k (qs_sent s) h (Suc r) (PopIdle None) ?b'"
    unfolding slots_ok_def
  proof (intro allI impI)
    fix j
    assume j: "Suc r \<le> j" "j < Suc r + cap"
    show "slot_ok cap k (qs_sent s) h (Suc r) (PopIdle None) j (?b' ! (j mod cap))"
    proof (cases "j = r + cap")
      case True
      then have "?b' ! (j mod cap) = \<lparr>sl_stamp = st, sl_message = Vacated\<rparr>"
        using I(1) cap by (simp add: mq_shape_def)
      then show ?thesis
        using True I(2) p(2) by (simp add: slot_ok_def)
    next
      case False
      then have "r mod cap \<noteq> j mod cap"
        using window_unique [of r r cap j] j cap by auto
      moreover have "slot_ok cap k (qs_sent s) h r (qs_pop s) j (?b ! (j mod cap))"
        using I(6) j False by (simp add: slots_ok_def)
      ultimately show ?thesis
        using j by (auto simp: slot_ok_def split: if_splits option.splits bool.splits)
    qed
  qed
  moreover have "push_ok cap k (qs_sent s) (Suc r) (qs_push s i')" for i'
  proof -
    have ne: "w \<noteq> qpos cap k r" if "push_holds (qs_push s i') = Some (w, b)" for w b
      using ownersD [OF I(3) that] p(4) by auto
    have suc: "Suc r \<le> j" if "r \<le> j" "qpos cap k j \<noteq> qpos cap k r" for j
      using that by (cases "j = r") auto
    show ?thesis
    proof (cases "qs_push s i'")
      case (PushClaimed m w st')
      with I(4) [of i'] ne suc show ?thesis by fastforce
    next
      case (PushWritten w st')
      with I(4) [of i'] ne suc show ?thesis by fastforce
    qed (use I(4) [of i'] in auto)
  qed
  ultimately have "mq_inv cap k (Suc r) h (s\<lparr>qs_queue := (qs_queue s)\<lparr>mq_buffer := ?b'\<rparr>, qs_pop := PopIdle None\<rparr>)"
    using inv pc p(3) by (simp add: mq_inv_def mq_shape_def)
  with step show ?thesis by auto
qed

lemma inv_pop:
  assumes inv: "mq_inv cap k r h s" and rk: "ring_ok cap k" and ft: "fits cap (qs_sent s)"
  shows "\<exists>pc q r'. pop_step (qs_pop s) (qs_queue s) = Some (pc, q) \<and>
    mq_inv cap k r' h (s\<lparr>qs_queue := q, qs_pop := pc, qs_got := qs_got s @ pop_takes pc\<rparr>)"
proof -
  have I: "mq_shape cap k (qs_queue s)" "length (qs_sent s) \<le> r + cap" "r + pop_lead (qs_pop s) \<le> length (qs_sent s)"
    "owners (qs_push s) h"
    "\<And>i. push_ok cap k (qs_sent s) r (qs_push s i)" "pop_ok cap k (qs_sent s) h r (qs_pop s)"
    "mq_dequeue_pos (qs_queue s) = qpos cap k (r + pop_lead (qs_pop s))"
    "qs_got s = take (r + pop_taken (qs_pop s)) (qs_sent s)"
    using inv by (auto simp: mq_inv_def)
  have cap: "0 < cap" using rk by (simp add: ring_ok_def)
  have at: "slot_ok cap k (qs_sent s) h r (qs_pop s) r (mq_buffer (qs_queue s) ! (r mod cap))"
    "vec_get (mq_buffer (qs_queue s)) (r mod cap) = Some (mq_buffer (qs_queue s) ! (r mod cap))"
    using slot_at [OF inv rk, of r] cap by auto
  have sm: "small cap r" using fits_small [OF ft] I(3) by simp
  note idx = qpos_index [OF rk sm I(1)]
  show ?thesis
  proof (cases "qs_pop s")
    case (PopIdle e)
    let ?st = "sl_stamp (mq_buffer (qs_queue s) ! (r mod cap))"
    have "pop_ok cap k (qs_sent s) h r (PopLoaded (qpos cap k r) ?st)"
      using at(1) by (auto simp: slot_ok_def split: if_splits option.splits bool.splits)
    then have "mq_inv cap k r h (s\<lparr>qs_pop := PopLoaded (qpos cap k r) ?st\<rparr>)"
      using PopIdle by (intro inv_pop_pc [OF inv]) (auto simp: fun_eq_iff)
    then show ?thesis
      using PopIdle I(7) idx at(2) by (intro exI conjI) auto
  next
    case (PopLoaded w st)
    then have w: "w = qpos cap k r" "st = w \<or> st = w + 1 \<and> r < length (qs_sent s) \<and> h w = None"
      using I(6) by auto
    show ?thesis
    proof (cases "st = w")
      case True
      have "mq_inv cap k r h (s\<lparr>qs_pop := PopIdle x\<rparr>)" for x
        using PopLoaded by (intro inv_pop_pc [OF inv]) (auto simp: fun_eq_iff)
      with True PopLoaded show ?thesis
        by (cases "mq_enqueue_pos (qs_queue s) = w OR mq_closed_channel_mask (qs_queue s)") auto
    next
      case False
      with w have st: "st = w + 1" "r < length (qs_sent s)" "h w = None" by auto
      let ?pc = "PopAdvanced (r mod cap) (qpos cap k (r + cap)) :: 'a pop_pc"
      have "slot_ok cap k (qs_sent s) h r ?pc j sl = slot_ok cap k (qs_sent s) h r (qs_pop s) j sl" for j sl
        using PopLoaded by (intro slot_ok_cong) (auto simp: fun_eq_iff)
      then have "mq_inv cap k r h (s\<lparr>qs_queue := (qs_queue s)\<lparr>mq_dequeue_pos := qpos cap k (Suc r)\<rparr>, qs_pop := ?pc\<rparr>)"
        using inv st w(1) PopLoaded by (simp add: mq_inv_def mq_shape_def slots_ok_def)
      moreover have "pop_step (qs_pop s) (qs_queue s) =
          Some (?pc, (qs_queue s)\<lparr>mq_dequeue_pos := qpos cap k (Suc r)\<rparr>)"
        using PopLoaded False st w(1) idx qpos_next [OF rk sm I(1)] qpos_lap [OF rk, of r] I(1)
        by (simp add: mq_shape_def)
      ultimately show ?thesis by auto
    qed
  next
    case (PopAdvanced i st)
    then have p: "i = r mod cap" "st = qpos cap k (r + cap)" "r < length (qs_sent s)" "h (qpos cap k r) = None"
      using I(6) by auto
    let ?m = "qs_sent s ! r"
    have sl: "mq_buffer (qs_queue s) ! (r mod cap) = \<lparr>sl_stamp = qpos cap k r + 1, sl_message = Populated ?m\<rparr>"
      using at(1) p PopAdvanced by (simp add: slot_ok_def)
    let ?sl = "\<lparr>sl_stamp = qpos cap k r + 1, sl_message = MNone\<rparr>" and ?pc = "PopBorrow ?m i st"
    have "mq_inv cap k r h (s\<lparr>qs_queue := (qs_queue s)\<lparr>mq_buffer := (mq_buffer (qs_queue s))[r mod cap := ?sl]\<rparr>,
        qs_push := qs_push s, qs_pop := ?pc, qs_got := qs_got s @ [?m]\<rparr>)"
      by (rule inv_slot [OF inv rk ft])
        (use p PopAdvanced I in \<open>auto simp: slot_ok_def take_Suc_conv_app_nth\<close>)
    then show ?thesis
      using PopAdvanced p(1) at(2) sl by (intro exI conjI) auto
  next
    case (PopBorrow m i st)
    then have p: "i = r mod cap" "st = qpos cap k (r + cap)" "r < length (qs_sent s)" "h (qpos cap k r) = None"
      using I(6) by auto
    have sl: "mq_buffer (qs_queue s) ! (r mod cap) = \<lparr>sl_stamp = qpos cap k r + 1, sl_message = MNone\<rparr>"
      using at(1) p PopBorrow by (simp add: slot_ok_def)
    let ?sl = "\<lparr>sl_stamp = qpos cap k r + 1, sl_message = Vacated\<rparr>" and ?pc = "PopVacated i st :: 'a pop_pc"
    have "mq_inv cap k r h (s\<lparr>qs_queue := (qs_queue s)\<lparr>mq_buffer := (mq_buffer (qs_queue s))[r mod cap := ?sl]\<rparr>,
        qs_push := qs_push s, qs_pop := ?pc, qs_got := qs_got s\<rparr>)"
      by (rule inv_slot [OF inv rk ft]) (use p PopBorrow I in \<open>auto simp: slot_ok_def\<close>)
    then show ?thesis
      using PopBorrow p(1) at(2) sl by (intro exI conjI) auto
  next
    case (PopVacated i st)
    with inv_release [OF inv rk ft, of i st] show ?thesis
      by (auto simp del: pop_step.simps)
  qed
qed

subsection \<open>Reachable states\<close>

lemma mq_init_inv:
  assumes "mq_new cap = Some q"
  obtains k where "ring_ok cap k" "mq_inv cap k 0 (\<lambda>_. None) (mq_init q)"
proof -
  obtain k where k: "ring_ok cap k" "mq_shape cap k q" "mq_enqueue_pos q = 0" "mq_dequeue_pos q = 0"
    "\<And>i. i < cap \<Longrightarrow> mq_buffer q ! i = \<lparr>sl_stamp = word_of_nat i, sl_message = Vacated\<rparr>"
    using mq_new_shape [OF assms] by metis
  have "qpos cap k j = word_of_nat j" if "j < cap" for j
    using that by (simp add: qpos_def ring_pos_def)
  moreover have "qpos cap k 0 = 0"
    by (simp add: qpos_def ring_pos_def)
  ultimately have "mq_inv cap k 0 (\<lambda>_. None) (mq_init q)"
    using k by (simp add: mq_inv_def mq_init_def owners_def slots_ok_def slot_ok_def)
  with k(1) that show thesis by blast
qed

lemma mq_step_sent: "mq_step s s' \<Longrightarrow> \<exists>ms. qs_sent s' = qs_sent s @ ms"
  by (induction rule: mq_step.induct) auto

lemma mq_step_inv:
  assumes "mq_step s s'" "mq_inv cap k r h s" "ring_ok cap k" "fits cap (qs_sent s)"
  shows "\<exists>r' h'. mq_inv cap k r' h' s'"
  using assms(1)
proof cases
  case (call i e msg)
  then show ?thesis using inv_idle_pc [OF assms(2), of i "PushStart msg"] by auto
next
  case (push weak i pc q)
  then have "qs_push s i \<noteq> PushDone e" for e by auto
  from inv_push [OF assms(2-4) this, of weak] push show ?thesis by auto
next
  case (pop pc q)
  with inv_pop [OF assms(2-4)] show ?thesis by auto
next
  case close
  then show ?thesis using inv_close [OF assms(2)] by auto
qed

lemma mq_reach_inv:
  assumes "mq_reach q s" "mq_new cap = Some q" "fits cap (qs_sent s)"
  obtains k r h where "ring_ok cap k" "mq_inv cap k r h s"
proof -
  obtain k where k: "ring_ok cap k" "mq_inv cap k 0 (\<lambda>_. None) (mq_init q)"
    using mq_init_inv [OF assms(2)] by blast
  have "\<exists>r h. mq_inv cap k r h s"
    using assms(1,3)
  proof (induction rule: mq_reach.induct)
    case init
    with k show ?case by blast
  next
    case (step s s')
    obtain ms where "qs_sent s' = qs_sent s @ ms"
      using mq_step_sent [OF step.hyps(2)] by blast
    then have ft: "fits cap (qs_sent s)"
      using step.prems unfolding fits_def by (elim small_mono) simp
    with step.IH obtain r h where "mq_inv cap k r h s" by blast
    with mq_step_inv [OF step.hyps(2) _ k(1) ft] show ?case by blast
  qed
  with k(1) that show thesis by blast
qed

subsection \<open>Properties\<close>

text \<open>C25: Under every interleaving of any number of producers with the consumer, the consumer takes
  the messages in the order in which producers claimed their slots, each once and none
  invented; at most as many messages as the capacity are in flight; and no thread ever
  reads a slot out of bounds, finds a slot in an unexpected state or fails an assertion.\<close>

theorem mpsc_fifo:
  assumes "mq_new cap = Some q" "mq_reach q s" "fits cap (qs_sent s)"
  shows "(\<exists>rest. qs_sent s = qs_got s @ rest) \<and> length (qs_sent s) \<le> length (qs_got s) + cap \<and>
    (\<forall>i weak. push_step weak (qs_push s i) (qs_queue s) = None \<longrightarrow> (\<exists>e. qs_push s i = PushDone e)) \<and>
    pop_step (qs_pop s) (qs_queue s) \<noteq> None"
proof -
  obtain k r h where k: "ring_ok cap k" and inv: "mq_inv cap k r h s"
    using mq_reach_inv [OF assms(2,1,3)] by blast
  have I: "qs_got s = take (r + pop_taken (qs_pop s)) (qs_sent s)" "length (qs_sent s) \<le> r + cap"
    "r + pop_lead (qs_pop s) \<le> length (qs_sent s)"
    using inv by (auto simp: mq_inv_def)
  have "r + pop_taken (qs_pop s) \<le> length (qs_sent s)"
    using I(3) by (cases "qs_pop s") auto
  then have "length (qs_sent s) \<le> length (qs_got s) + cap"
    using I by simp
  moreover have "\<exists>rest. qs_sent s = qs_got s @ rest"
    using I(1) by (metis append_take_drop_id)
  moreover have "\<exists>e. qs_push s i = PushDone e" if "push_step weak (qs_push s i) (qs_queue s) = None" for i weak
    using inv_push [OF inv k assms(3), of i weak] that by (auto simp del: push_step.simps)
  ultimately show ?thesis
    using inv_pop [OF inv k assms(3)] by auto
qed

text \<open>A schedule as a list of actions, and a run of one producer and the consumer on a queue of
  capacity 2.\<close>

datatype 'm mq_act = ActCall nat 'm | ActPush nat | ActPop | ActClose

fun mq_act_exec :: "'m mq_act \<Rightarrow> 'm mq_sys \<Rightarrow> 'm mq_sys option" where
  "mq_act_exec (ActCall i m) s = (case qs_push s i of
     PushDone r \<Rightarrow> Some (s\<lparr>qs_push := (qs_push s)(i := PushStart m)\<rparr>) | _ \<Rightarrow> None)"
| "mq_act_exec (ActPush i) s = (case push_step False (qs_push s i) (qs_queue s) of
     Some (pc, q) \<Rightarrow> Some (s\<lparr>qs_queue := q, qs_push := (qs_push s)(i := pc),
       qs_sent := qs_sent s @ push_claims (qs_push s i) pc\<rparr>) | None \<Rightarrow> None)"
| "mq_act_exec ActPop s = (case pop_step (qs_pop s) (qs_queue s) of
     Some (pc, q) \<Rightarrow> Some (s\<lparr>qs_queue := q, qs_pop := pc, qs_got := qs_got s @ pop_takes pc\<rparr>) | None \<Rightarrow> None)"
| "mq_act_exec ActClose s = Some (s\<lparr>qs_queue := mq_close (qs_queue s)\<rparr>)"

fun mq_run :: "'m mq_act list \<Rightarrow> 'm mq_sys \<Rightarrow> 'm mq_sys option" where
  "mq_run [] s = Some s"
| "mq_run (a # as) s = (case mq_act_exec a s of Some s' \<Rightarrow> mq_run as s' | None \<Rightarrow> None)"

lemma mq_act_step: "mq_act_exec a s = Some s' \<Longrightarrow> mq_step s s'"
  by (cases a) (auto intro: mq_step.intros split: push_pc.splits option.splits prod.splits)

lemma mq_run_reach: "mq_run as s = Some s' \<Longrightarrow> mq_reach q s \<Longrightarrow> mq_reach q s'"
proof (induction as arbitrary: s)
  case (Cons a as)
  then obtain s1 where s1: "mq_act_exec a s = Some s1" "mq_run as s1 = Some s'"
    by (auto split: option.splits)
  show ?case
    by (rule Cons.IH [OF s1(2) mq_reach.step [OF Cons.prems(2) mq_act_step [OF s1(1)]]])
qed simp

definition queue2 :: "nat mq" where
  "queue2 = \<lparr>mq_enqueue_pos = 0, mq_dequeue_pos = 0,
     mq_buffer = [\<lparr>sl_stamp = 0, sl_message = Vacated\<rparr>, \<lparr>sl_stamp = 1, sl_message = Vacated\<rparr>],
     mq_right_mask = 3, mq_closed_channel_mask = 2\<rparr>"

lemma queue2_new: "mq_new 2 = Some queue2"
proof -
  have "next_power_of_two 2 = 2"
    by (simp add: next_power_of_two_def next_power_of_two_from.simps)
  moreover have "[0..<2] = [0, 1]"
    by (simp add: upt_rec)
  ultimately show ?thesis
    by (simp add: mq_new_def queue2_def Let_def)
qed

text \<open>The message 5 is sent; when the consumer borrows it, the message 6 has claimed its slot.\<close>

definition queue2_run :: "nat mq_act list" where
  "queue2_run = [ActCall 0 5, ActPush 0, ActPush 0, ActPush 0, ActPush 0, ActPush 0,
     ActCall 1 6, ActPush 1, ActPush 1, ActPush 1, ActPop, ActPop, ActPop]"

lemma queue2_after:
  "mq_run queue2_run (mq_init queue2) = Some \<lparr>qs_queue = queue2\<lparr>mq_enqueue_pos := 4, mq_dequeue_pos := 1,
     mq_buffer := [\<lparr>sl_stamp = 1, sl_message = MNone\<rparr>, \<lparr>sl_stamp = 1, sl_message = Vacated\<rparr>]\<rparr>,
     qs_push = (\<lambda>_. PushDone None)(0 := PushDone None, 1 := PushClaimed 6 1 1), qs_pop = PopBorrow 5 0 4, qs_sent = [5, 6], qs_got = [5]\<rparr>"
  by (simp add: queue2_run_def mq_init_def queue2_def slot_index_def next_queue_pos_def Let_def)

theorem mpsc_fifo_witness:
  "\<exists>s. mq_reach queue2 s \<and> fits 2 (qs_sent s) \<and> qs_got s = [5] \<and> (\<exists>rest. qs_sent s = qs_got s @ rest) \<and>
     pop_step (qs_pop s) (qs_queue s) \<noteq> None"
proof -
  obtain s where s: "mq_run queue2_run (mq_init queue2) = Some s" "qs_sent s = [5, 6]" "qs_got s = [5]"
    using queue2_after by simp
  have r: "mq_reach queue2 s"
    by (rule mq_run_reach [OF s(1) mq_reach.init])
  have ft: "fits 2 (qs_sent s)"
    by (simp add: fits_def small_def s)
  from mpsc_fifo [OF queue2_new r ft] r ft s show ?thesis by blast
qed

text \<open>A producer reports a full queue only if, when it read the stamp of its slot, as many
  messages as the capacity were sent and not yet released by the consumer.\<close>

lemma mpsc_full_is_full:
  assumes "mq_new cap = Some q" "mq_reach q s" "fits cap (qs_sent s)" "qs_push s i = PushCheck m w"
    and "push_step weak (PushCheck m w) (qs_queue s) = Some (PushLoaded m w st, q')"
    and "push_step weak' (PushLoaded m w st) q'' = Some (PushDone (Some (PushFull m)), q'')"
  shows "length (qs_sent s) + pop_taken (qs_pop s) = length (qs_got s) + cap"
proof -
  obtain k r h where k: "ring_ok cap k" and inv: "mq_inv cap k r h s"
    using mq_reach_inv [OF assms(2,1,3)] by blast
  have I: "mq_shape cap k (qs_queue s)" "qs_got s = take (r + pop_taken (qs_pop s)) (qs_sent s)"
    "length (qs_sent s) \<le> r + cap" "r + pop_lead (qs_pop s) \<le> length (qs_sent s)"
    "push_ok cap k (qs_sent s) r (qs_push s i)"
    using inv by (auto simp: mq_inv_def)
  have open_w: "w AND 2 ^ k = 0" and st: "vec_get (mq_buffer (qs_queue s)) (slot_index (qs_queue s) w) = Some sl \<Longrightarrow> st = sl_stamp sl" for sl
    using assms(5) I(1) by (auto simp: mq_shape_def split: if_splits)
  then obtain j where j: "j \<le> length (qs_sent s)" "w = qpos cap k j"
    using I(5) assms(4) by auto
  obtain j' where j': "r \<le> j'" "j' < r + cap" "j' mod cap = j mod cap"
    using window_exists [of cap r j] k by (auto simp: ring_ok_def)
  have sm: "small cap j" "small cap j'"
    using fits_small [OF assms(3)] j j' I(4) by auto
  have "st = sl_stamp (mq_buffer (qs_queue s) ! (j' mod cap))"
    using st [of "mq_buffer (qs_queue s) ! (j' mod cap)"] slot_at(2) [OF inv k j'(1,2)] j j'(3)
      qpos_index [OF k sm(1) I(1)] by simp
  then have stamp: "st = qpos cap k j' \<or> st = qpos cap k j' + 1"
    using slot_stamp [OF slot_at(1) [OF inv k j'(1,2)]] by simp
  have "sint (st - w) < 0"
    using assms(6) by (auto simp: Let_def bind_eq_Some_conv split: if_splits)
  moreover have "unat st < 2 ^ 63" "unat w < 2 ^ 63"
    using stamp j stamp_bound [OF k sm(1)] stamp_bound [OF k sm(2)] by auto
  ultimately have "unat st < unat w"
    using stamp_order [of st w] by linarith
  then have "ring_pos cap k j' < ring_pos cap k j"
    using stamp j unat_qpos [OF k sm(1)] unat_qpos [OF k sm(2)] by auto
  then have "j' < j"
    using ring_pos_less [OF k] by (metis less_asym less_irrefl linorder_neqE_nat)
  then have "j' + cap \<le> j"
    using j'(3) by (metis (no_types) add_diff_inverse_nat add_le_cancel_left dvd_imp_le less_imp_le mod_eq_dvd_iff_nat not_less zero_less_diff)
  then have "length (qs_sent s) = r + cap"
    using j(1) j'(1) I(3) by linarith
  moreover have "r + pop_taken (qs_pop s) \<le> length (qs_sent s)"
    using I(4) by (cases "qs_pop s") auto
  ultimately show ?thesis
    using I(2) by simp
qed

text \<open>Two messages fill the queue; a third producer reads the stamp of the first slot.\<close>

definition queue2_full_run :: "nat mq_act list" where
  "queue2_full_run = [ActCall 0 5, ActPush 0, ActPush 0, ActPush 0, ActPush 0, ActPush 0,
     ActCall 0 6, ActPush 0, ActPush 0, ActPush 0, ActPush 0, ActPush 0, ActCall 0 7, ActPush 0]"

definition queue2_full :: "nat mq" where
  "queue2_full = queue2\<lparr>mq_enqueue_pos := 4,
     mq_buffer := [\<lparr>sl_stamp = 1, sl_message = Populated 5\<rparr>, \<lparr>sl_stamp = 2, sl_message = Populated 6\<rparr>]\<rparr>"

lemma queue2_full_after:
  "mq_run queue2_full_run (mq_init queue2) = Some \<lparr>qs_queue = queue2_full,
     qs_push = (\<lambda>_. PushDone None)(0 := PushCheck 7 4), qs_pop = PopIdle None, qs_sent = [5, 6], qs_got = []\<rparr>"
  by (simp add: queue2_full_run_def queue2_full_def mq_init_def queue2_def slot_index_def next_queue_pos_def Let_def)

lemma push_step_closed:
  assumes "push_step weak pc q = Some (pc', q')"
  shows "mq_closed_channel_mask q' = mq_closed_channel_mask q"
    and "(\<And>m w st. pc = PushLoaded m w st \<Longrightarrow> mq_enqueue_pos q \<noteq> w) \<Longrightarrow>
      mq_enqueue_pos q' = mq_enqueue_pos q \<and> push_claims pc pc' = []"
proof -
  show "mq_closed_channel_mask q' = mq_closed_channel_mask q"
    using assms by (cases pc) (auto simp: Let_def split: bind_split_asm if_split_asm message_box.split_asm)
  assume "\<And>m w st. pc = PushLoaded m w st \<Longrightarrow> mq_enqueue_pos q \<noteq> w"
  with assms show "mq_enqueue_pos q' = mq_enqueue_pos q \<and> push_claims pc pc' = []"
    by (cases pc) (auto simp: Let_def split: bind_split_asm if_split_asm message_box.split_asm)
qed

lemma pop_step_closed:
  assumes "pop_step pc q = Some (pc', q')"
  shows "mq_closed_channel_mask q' = mq_closed_channel_mask q \<and> mq_enqueue_pos q' = mq_enqueue_pos q"
  using assms
  by (cases pc) (auto simp: Let_def split: bind_split_asm if_split_asm message_box.split_asm)

text \<open>C26: Once the queue is closed, no message enters it any more, not even from producers that
  had started before; the consumer is told that the queue is closed only when it has taken
  everything that was sent.\<close>

theorem mpsc_close_final:
  assumes "mq_new cap = Some q" "mq_reach q s" "fits cap (qs_sent s)" "mq_is_closed (qs_queue s)"
  shows "(\<forall>s'. mq_step s s' \<longrightarrow> qs_sent s' = qs_sent s \<and> mq_is_closed (qs_queue s')) \<and>
    (\<forall>w st q'. qs_pop s = PopLoaded w st \<longrightarrow>
       pop_step (qs_pop s) (qs_queue s) = Some (PopIdle (Some PopClosed), q') \<longrightarrow> qs_got s = qs_sent s)"
proof (intro conjI allI impI)
  obtain k r h where k: "ring_ok cap k" and inv: "mq_inv cap k r h s"
    using mq_reach_inv [OF assms(2,1,3)] by blast
  have I: "mq_shape cap k (qs_queue s)" "qs_got s = take (r + pop_taken (qs_pop s)) (qs_sent s)"
    "pop_ok cap k (qs_sent s) h r (qs_pop s)" "\<And>i. push_ok cap k (qs_sent s) r (qs_push s i)"
    "mq_enqueue_pos (qs_queue s) = qpos cap k (length (qs_sent s)) \<or>
      mq_enqueue_pos (qs_queue s) = qpos cap k (length (qs_sent s)) OR 2 ^ k" "r \<le> length (qs_sent s)"
    using inv by (auto simp: mq_inv_def)
  note sm = fits_small [OF assms(3)]
  show "qs_sent s' = qs_sent s" and "mq_is_closed (qs_queue s')" if "mq_step s s'" for s'
  proof -
    have "qs_sent s' = qs_sent s \<and> mq_is_closed (qs_queue s')"
      using that
    proof cases
      case (push weak i pc q')
      have "mq_enqueue_pos (qs_queue s) \<noteq> w" if "qs_push s i = PushLoaded m w st" for m w st
        using I(4) [of i] that assms(4) qpos_open [OF k sm] I(1) by (auto simp: mq_is_closed_def mq_shape_def)
      with push_step_closed [OF push(2)] push(1) assms(4) show ?thesis
        by (simp add: mq_is_closed_def)
    next
      case (pop pc q')
      with pop_step_closed [OF pop(2)] assms(4) show ?thesis
        by (simp add: mq_is_closed_def)
    next
      case close
      with assms(4) I(1) closed_bit [OF k sm [of 0]] show ?thesis
        by (simp add: mq_is_closed_def mq_close_def mq_shape_def)
    qed (use assms(4) in simp)
    then show "qs_sent s' = qs_sent s" and "mq_is_closed (qs_queue s')" by auto
  qed
  show "qs_got s = qs_sent s"
    if "qs_pop s = PopLoaded w st" "pop_step (qs_pop s) (qs_queue s) = Some (PopIdle (Some PopClosed), q')" for w st q'
  proof -
    have w: "w = qpos cap k r" "mq_enqueue_pos (qs_queue s) = w OR 2 ^ k"
      using that I(1,3) by (auto simp: mq_shape_def bind_eq_Some_conv split: if_splits)
    have unflag: "(qpos cap k j OR 2 ^ k) AND NOT (2 ^ k) = qpos cap k j" if "small cap j" for j
    proof -
      have "\<not> bit (qpos cap k j) k"
        using qpos_open [OF k that] by (simp add: and_exp_eq_0_iff_not_bit)
      then show ?thesis
        by (intro bit_eqI) (auto simp: bit_simps bit_exp_iff)
    qed
    have eq: "qpos cap k (length (qs_sent s)) OR 2 ^ k = qpos cap k r OR 2 ^ k"
      using I(5) w closed_not_open [OF k sm sm, of r "length (qs_sent s)"] I(6) by auto
    have "qpos cap k (length (qs_sent s)) = (qpos cap k (length (qs_sent s)) OR 2 ^ k) AND NOT (2 ^ k)"
      by (rule unflag [OF sm, symmetric]) simp
    also have "\<dots> = (qpos cap k r OR 2 ^ k) AND NOT (2 ^ k)"
      by (simp only: eq)
    also have "\<dots> = qpos cap k r"
      by (rule unflag [OF sm]) (use I(6) in simp)
    finally have "qpos cap k (length (qs_sent s)) = qpos cap k r" .
    then have "length (qs_sent s) = r"
      using qpos_inj [OF k sm sm, of "length (qs_sent s)" r] I(6) by simp
    then show ?thesis
      using I(2) that(1) by simp
  qed
qed

text \<open>The queue is closed with one message in it; the consumer takes it and then reads the stamp
  of the empty slot.\<close>

definition queue2_closed_run :: "nat mq_act list" where
  "queue2_closed_run = [ActCall 0 5, ActPush 0, ActPush 0, ActPush 0, ActPush 0, ActPush 0, ActClose,
     ActPop, ActPop, ActPop, ActPop, ActPop, ActPop]"

definition queue2_closed :: "nat mq" where
  "queue2_closed = queue2\<lparr>mq_enqueue_pos := 3, mq_dequeue_pos := 1,
     mq_buffer := [\<lparr>sl_stamp = 4, sl_message = Vacated\<rparr>, \<lparr>sl_stamp = 1, sl_message = Vacated\<rparr>]\<rparr>"

lemma queue2_closed_after:
  "mq_run queue2_closed_run (mq_init queue2) = Some \<lparr>qs_queue = queue2_closed,
     qs_push = (\<lambda>_. PushDone None)(0 := PushDone None), qs_pop = PopLoaded 1 1, qs_sent = [5], qs_got = [5]\<rparr>"
  by (simp add: queue2_closed_run_def queue2_closed_def mq_init_def queue2_def slot_index_def next_queue_pos_def
      mq_close_def Let_def)

theorem mpsc_close_final_witness:
  "\<exists>s. mq_reach queue2 s \<and> mq_is_closed (qs_queue s) \<and> qs_pop s = PopLoaded 1 1 \<and>
     pop_step (qs_pop s) (qs_queue s) = Some (PopIdle (Some PopClosed), qs_queue s) \<and> qs_got s = qs_sent s"
proof -
  obtain s where s: "mq_run queue2_closed_run (mq_init queue2) = Some s" "qs_sent s = [5]" "qs_pop s = PopLoaded 1 1"
    "qs_queue s = queue2_closed"
    using queue2_closed_after by simp
  have r: "mq_reach queue2 s"
    by (rule mq_run_reach [OF s(1) mq_reach.init])
  have ft: "fits 2 (qs_sent s)"
    by (simp add: s fits_def small_def)
  have c: "mq_is_closed (qs_queue s)"
    by (simp add: s mq_is_closed_def queue2_closed_def queue2_def)
  have p: "pop_step (qs_pop s) (qs_queue s) = Some (PopIdle (Some PopClosed), qs_queue s)"
    by (simp add: s queue2_closed_def queue2_def)
  from mpsc_close_final [OF queue2_new r ft c] r c s(3) p show ?thesis by blast
qed

lemma lap_distance:
  fixes cap :: nat
  assumes "0 < cap" "r \<le> n" "n \<le> r + cap"
  shows "n mod cap + (if n div cap \<noteq> r div cap then cap else 0) - r mod cap = n - r"
proof (cases "n div cap = r div cap")
  case True
  have "n = r div cap * cap + n mod cap" using div_mult_mod_eq [of n cap] by (simp add: True)
  moreover have "r = r div cap * cap + r mod cap" by simp
  ultimately have "n - r = n mod cap - r mod cap" by linarith
  then show ?thesis using True by simp
next
  case False
  moreover have "n div cap \<le> (r + cap) div cap" "r div cap \<le> n div cap"
    using assms by (auto intro: div_le_mono)
  moreover have "(r + cap) div cap = r div cap + 1"
    using assms(1) by (simp add: div_add_self2)
  ultimately have "n div cap = r div cap + 1"
    by linarith
  then have "n = r div cap * cap + cap + n mod cap"
    using div_mult_mod_eq [of n cap] by (simp add: algebra_simps)
  moreover have "r = r div cap * cap + r mod cap" by simp
  ultimately have "n - r = cap + n mod cap - r mod cap" by linarith
  then show ?thesis using False by (simp add: add.commute)
qed

text \<open>C27: Between two pops, \<open>len\<close> is exactly the number of messages sent and not yet taken, whether
  or not the queue is closed, and never exceeds the capacity.\<close>

theorem mpsc_len:
  assumes "mq_new cap = Some q" "mq_reach q s" "fits cap (qs_sent s)" "qs_pop s = PopIdle e"
  shows "mq_len (qs_queue s) + length (qs_got s) = length (qs_sent s) \<and> mq_len (qs_queue s) \<le> cap"
proof -
  obtain k r h where k: "ring_ok cap k" and inv: "mq_inv cap k r h s"
    using mq_reach_inv [OF assms(2,1,3)] by blast
  let ?n = "length (qs_sent s)"
  have I: "mq_shape cap k (qs_queue s)" "qs_got s = take r (qs_sent s)" "?n \<le> r + cap" "r \<le> ?n"
    "mq_enqueue_pos (qs_queue s) = qpos cap k ?n \<or> mq_enqueue_pos (qs_queue s) = qpos cap k ?n OR 2 ^ k"
    "mq_dequeue_pos (qs_queue s) = qpos cap k r"
    using inv assms(4) by (auto simp: mq_inv_def)
  have cap: "0 < cap" using k by (simp add: ring_ok_def)
  have sm: "small cap ?n" "small cap r" using fits_small [OF assms(3)] I(4) by auto
  have low: "unat (mq_enqueue_pos (qs_queue s) AND drop_bit 1 (mask (Suc k))) = ?n mod cap"
    using I(5) qpos_low [OF k sm(1)] flag_masks(1) [of _ k] by auto
  have lap: "mq_enqueue_pos (qs_queue s) AND NOT (mask (Suc k)) = qpos cap k ?n AND NOT (mask (Suc k))"
    using I(5) flag_masks(2) [of _ k] by auto
  have "mq_len (qs_queue s) = ?n mod cap + (if ?n div cap \<noteq> r div cap then cap else 0) - r mod cap"
    using I(1,6) low lap qpos_low [OF k sm(2)] qpos_seq_eq [OF k sm]
    by (simp add: mq_len_def mq_shape_def Let_def)
  then show ?thesis
    using lap_distance [OF cap I(4,3)] I(2-4) by simp
qed

theorem mpsc_len_witness:
  "\<exists>s. mq_reach queue2 s \<and> qs_pop s = PopIdle None \<and> mq_len (qs_queue s) + length (qs_got s) = length (qs_sent s) \<and>
     length (qs_sent s) = 2"
proof -
  obtain s where s: "mq_run queue2_full_run (mq_init queue2) = Some s" "qs_sent s = [5, 6]" "qs_pop s = PopIdle None"
    using queue2_full_after by simp
  have r: "mq_reach queue2 s"
    by (rule mq_run_reach [OF s(1) mq_reach.init])
  have ft: "fits 2 (qs_sent s)"
    by (simp add: s fits_def small_def)
  from mpsc_len [OF queue2_new r ft s(3)] r s show ?thesis by auto
qed

end
