(* ===== verification/Endpoints.thy ===== *)
theory Endpoints
  imports Queue_Items "HOL-Library.AList"
begin

text \<open>
  Model of \<^verbatim>\<open>src/nexosim/src/endpoints.rs\<close> and of the four registries under
  \<^verbatim>\<open>src/nexosim/src/endpoints/\<close>, which associate the sources and sinks of a bench to paths.

  \<^item> A \<open>HashMap\<close> is an association list with distinct keys; its iteration order is not
    specified, and the theorems only speak of the set of its keys.
  \<^item> A type parameter \<open>T\<close> is a record of what the code asks of it: \<open>TypeId::of\<close>, \<open>type_name\<close>,
    the schema of the trait \<open>Message\<close> and the functions of the \<open>ciborium\<close> crate at that type,
    whose errors are their texts. A boxed value of any type is a value of \<open>'a\<close>.
  \<^item> A sink is a value of \<open>'s\<close> with the methods of the trait \<open>EventSinkReader\<close>.
  \<^item> \<open>path_registry\<close> is the contract that the registries share: the first entry bound to a
    path stays, and a second one is refused.
\<close>

subsection \<open>Errors and types\<close>

datatype endpoint_error =
    EventSourceNotFound path
  | QuerySourceNotFound path
  | EventSinkNotFound path
  | InvalidEventSourceType path string string
  | InvalidQuerySourceType path string string string string
  | InvalidEventSinkType path string string

record 'a rust_type =
  ty_id :: nat
  ty_name :: string
  ty_schema :: string
  ty_from_cbor :: "bytes \<Rightarrow> string + 'a"
  ty_to_cbor :: "'a \<Rightarrow> string + bytes"

definition ok_or_else :: "'e \<Rightarrow> 'x option \<Rightarrow> 'e + 'x" where
  "ok_or_else e x = (case x of None \<Rightarrow> Inl e | Some v \<Rightarrow> Inr v)"

subsection \<open>Event sources\<close>

record 'a event_source_entry =
  ee_inner :: nat
  ee_type :: "'a rust_type"
  ee_schema_gen :: "unit \<Rightarrow> string"

type_synonym 'a event_source_registry = "(path \<times> 'a event_source_entry) list"

definition esr_add_any ::
    "'a rust_type \<Rightarrow> ('a, 'f, 't, 'p) event_source \<Rightarrow> path \<Rightarrow> (unit \<Rightarrow> string)
      \<Rightarrow> 'a event_source_registry \<times> ('a, 'f, 't, 'p) registry
      \<Rightarrow> ((path \<times> ('a, 'f, 't, 'p) event_source + unit)
          \<times> 'a event_source_registry \<times> ('a, 'f, 't, 'p) registry) exec" where
  "esr_add_any T source path schema_gen st = (case st of (esr, registry) \<Rightarrow>
     (case map_of esr path of
        None \<Rightarrow> do {
          (event_id, registry) \<leftarrow> add_event_source source registry;
          let entry = \<lparr>ee_inner = event_id, ee_type = T, ee_schema_gen = schema_gen\<rparr>;
          Some (Inr (), AList.update path entry esr, registry)
        }
      | Some _ \<Rightarrow> Some (Inl (path, source), esr, registry)))"

definition esr_add ::
    "'a rust_type \<Rightarrow> ('a, 'f, 't, 'p) event_source \<Rightarrow> path
      \<Rightarrow> 'a event_source_registry \<times> ('a, 'f, 't, 'p) registry
      \<Rightarrow> ((path \<times> ('a, 'f, 't, 'p) event_source + unit)
          \<times> 'a event_source_registry \<times> ('a, 'f, 't, 'p) registry) exec" where
  "esr_add T source path = esr_add_any T source path (\<lambda>_. ty_schema T)"

definition esr_add_raw ::
    "'a rust_type \<Rightarrow> ('a, 'f, 't, 'p) event_source \<Rightarrow> path
      \<Rightarrow> 'a event_source_registry \<times> ('a, 'f, 't, 'p) registry
      \<Rightarrow> ((path \<times> ('a, 'f, 't, 'p) event_source + unit)
          \<times> 'a event_source_registry \<times> ('a, 'f, 't, 'p) registry) exec" where
  "esr_add_raw T source path = esr_add_any T source path (\<lambda>_. [])"

definition esr_get :: "path \<Rightarrow> 'a event_source_registry \<Rightarrow> endpoint_error + 'a event_source_entry" where
  "esr_get path esr = ok_or_else (EventSourceNotFound path) (map_of esr path)"

definition esr_get_source_id :: "'a rust_type \<Rightarrow> path \<Rightarrow> 'a event_source_registry \<Rightarrow> endpoint_error + nat" where
  "esr_get_source_id T path esr =
     (case esr_get path esr of
        Inl e \<Rightarrow> Inl e
      | Inr entry \<Rightarrow>
          if ty_id (ee_type entry) = ty_id T then Inr (ee_inner entry)
          else Inl (InvalidEventSourceType path (ty_name T) (ty_name (ee_type entry))))"

definition esr_list_sources :: "'a event_source_registry \<Rightarrow> path list" where
  "esr_list_sources esr = map fst esr"

definition esr_get_source_schema :: "path \<Rightarrow> 'a event_source_registry \<Rightarrow> endpoint_error + string" where
  "esr_get_source_schema path esr =
     (case esr_get path esr of Inl e \<Rightarrow> Inl e | Inr entry \<Rightarrow> Inr (ee_schema_gen entry ()))"

definition esr_list_schemas :: "'a event_source_registry \<Rightarrow> (path \<times> string) list" where
  "esr_list_schemas esr = map (\<lambda>(path, src). (path, ee_schema_gen src ())) esr"

text \<open>The methods of an entry that the server calls with a serialized argument. A new key is
  made before the argument is read.\<close>

definition entry_deserialize_arg :: "'a event_source_entry \<Rightarrow> bytes \<Rightarrow> string + 'a" where
  "entry_deserialize_arg en serialized_arg = ty_from_cbor (ee_type en) serialized_arg"

definition entry_event :: "'a event_source_entry \<Rightarrow> bytes \<Rightarrow> string + 'a event" where
  "entry_event en serialized_arg =
     map_sum id (\<lambda>arg. event_new (ee_inner en) arg) (ty_from_cbor (ee_type en) serialized_arg)"

definition entry_keyed_event ::
    "'a event_source_entry \<Rightarrow> bytes \<Rightarrow> key_flags \<Rightarrow> (string + 'a event \<times> nat) \<times> key_flags" where
  "entry_keyed_event en serialized_arg flags =
     (let (key, flags) = event_key_new flags in
      (map_sum id (\<lambda>arg. (with_key key (event_new (ee_inner en) arg), key))
         (ty_from_cbor (ee_type en) serialized_arg), flags))"

definition entry_periodic_event :: "'a event_source_entry \<Rightarrow> duration \<Rightarrow> bytes \<Rightarrow> string + 'a event" where
  "entry_periodic_event en period serialized_arg =
     map_sum id (\<lambda>arg. with_period period (event_new (ee_inner en) arg))
       (ty_from_cbor (ee_type en) serialized_arg)"

definition entry_keyed_periodic_event ::
    "'a event_source_entry \<Rightarrow> duration \<Rightarrow> bytes \<Rightarrow> key_flags \<Rightarrow> (string + 'a event \<times> nat) \<times> key_flags" where
  "entry_keyed_periodic_event en period serialized_arg flags =
     (let (key, flags) = event_key_new flags in
      (map_sum id (\<lambda>arg. (with_key key (with_period period (event_new (ee_inner en) arg)), key))
         (ty_from_cbor (ee_type en) serialized_arg), flags))"

subsection \<open>Query sources\<close>

record 'a query_source_entry =
  qe_inner :: nat
  qe_request_type :: "'a rust_type"
  qe_reply_type :: "'a rust_type"
  qe_schema_gen :: "unit \<Rightarrow> string \<times> string"

type_synonym 'a query_source_registry = "(path \<times> 'a query_source_entry) list"

definition qsr_add_any ::
    "'a rust_type \<Rightarrow> 'a rust_type \<Rightarrow> ('a, 'f, 't, 'p) query_source \<Rightarrow> path \<Rightarrow> (unit \<Rightarrow> string \<times> string)
      \<Rightarrow> 'a query_source_registry \<times> ('a, 'f, 't, 'p) registry
      \<Rightarrow> ((path \<times> ('a, 'f, 't, 'p) query_source + unit)
          \<times> 'a query_source_registry \<times> ('a, 'f, 't, 'p) registry) exec" where
  "qsr_add_any T R source path schema_gen st = (case st of (qsr, registry) \<Rightarrow>
     (case map_of qsr path of
        None \<Rightarrow> do {
          (query_id, registry) \<leftarrow> add_query_source source registry;
          let entry = \<lparr>qe_inner = query_id, qe_request_type = T, qe_reply_type = R, qe_schema_gen = schema_gen\<rparr>;
          Some (Inr (), AList.update path entry qsr, registry)
        }
      | Some _ \<Rightarrow> Some (Inl (path, source), qsr, registry)))"

definition qsr_add ::
    "'a rust_type \<Rightarrow> 'a rust_type \<Rightarrow> ('a, 'f, 't, 'p) query_source \<Rightarrow> path
      \<Rightarrow> 'a query_source_registry \<times> ('a, 'f, 't, 'p) registry
      \<Rightarrow> ((path \<times> ('a, 'f, 't, 'p) query_source + unit)
          \<times> 'a query_source_registry \<times> ('a, 'f, 't, 'p) registry) exec" where
  "qsr_add T R source path = qsr_add_any T R source path (\<lambda>_. (ty_schema T, ty_schema R))"

definition qsr_add_raw ::
    "'a rust_type \<Rightarrow> 'a rust_type \<Rightarrow> ('a, 'f, 't, 'p) query_source \<Rightarrow> path
      \<Rightarrow> 'a query_source_registry \<times> ('a, 'f, 't, 'p) registry
      \<Rightarrow> ((path \<times> ('a, 'f, 't, 'p) query_source + unit)
          \<times> 'a query_source_registry \<times> ('a, 'f, 't, 'p) registry) exec" where
  "qsr_add_raw T R source path = qsr_add_any T R source path (\<lambda>_. ([], []))"

definition qsr_get :: "path \<Rightarrow> 'a query_source_registry \<Rightarrow> endpoint_error + 'a query_source_entry" where
  "qsr_get path qsr = ok_or_else (QuerySourceNotFound path) (map_of qsr path)"

definition qsr_get_source_id ::
    "'a rust_type \<Rightarrow> 'a rust_type \<Rightarrow> path \<Rightarrow> 'a query_source_registry \<Rightarrow> endpoint_error + nat" where
  "qsr_get_source_id T R path qsr =
     (case qsr_get path qsr of
        Inl e \<Rightarrow> Inl e
      | Inr entry \<Rightarrow>
          if ty_id (qe_request_type entry) = ty_id T \<and> ty_id (qe_reply_type entry) = ty_id R
          then Inr (qe_inner entry)
          else Inl (InvalidQuerySourceType path (ty_name T) (ty_name R)
            (ty_name (qe_request_type entry)) (ty_name (qe_reply_type entry))))"

definition qsr_list_sources :: "'a query_source_registry \<Rightarrow> path list" where
  "qsr_list_sources qsr = map fst qsr"

definition qsr_get_source_schema :: "path \<Rightarrow> 'a query_source_registry \<Rightarrow> endpoint_error + string \<times> string" where
  "qsr_get_source_schema path qsr =
     (case qsr_get path qsr of Inl e \<Rightarrow> Inl e | Inr entry \<Rightarrow> Inr (qe_schema_gen entry ()))"

definition qsr_list_schemas :: "'a query_source_registry \<Rightarrow> (path \<times> string \<times> string) list" where
  "qsr_list_schemas qsr = map (\<lambda>(path, src). let schemas = qe_schema_gen src () in (path, fst schemas, snd schemas)) qsr"

definition entry_deserialize_request :: "'a query_source_entry \<Rightarrow> bytes \<Rightarrow> string + 'a" where
  "entry_deserialize_request en serialized_arg = ty_from_cbor (qe_request_type en) serialized_arg"

text \<open>The replier made by \<open>Query::new\<close> is named by the counter \<open>n\<close>, which advances only when
  the argument could be read.\<close>

definition entry_query :: "'a query_source_entry \<Rightarrow> bytes \<Rightarrow> nat \<Rightarrow> (string + 'a query \<times> nat) \<times> nat" where
  "entry_query en serialized_arg n =
     (case ty_from_cbor (qe_request_type en) serialized_arg of
        Inl e \<Rightarrow> (Inl e, n)
      | Inr arg \<Rightarrow> (Inr (query_new (qe_inner en) arg n), Suc n))"

fun encode_replies :: "('a \<Rightarrow> string + bytes) \<Rightarrow> 'a list \<Rightarrow> bytes list \<Rightarrow> string + bytes list" where
  "encode_replies into_writer [] encoded_replies = Inr encoded_replies"
| "encode_replies into_writer (reply # replies) encoded_replies =
     (case into_writer reply of
        Inl e \<Rightarrow> Inl e
      | Inr encoded_reply \<Rightarrow> encode_replies into_writer replies (encoded_replies @ [encoded_reply]))"

definition take_collect :: "'a rust_type \<Rightarrow> 'a list option \<Rightarrow> (string + bytes list) option" where
  "take_collect R replies =
     (case replies of None \<Rightarrow> None | Some replies \<Rightarrow> Some (encode_replies (ty_to_cbor R) replies []))"

subsection \<open>Event sinks\<close>

record ('s, 'a) sink_ops =
  sk_enable :: "'s \<Rightarrow> 's"
  sk_disable :: "'s \<Rightarrow> 's"
  sk_try_read :: "'s \<Rightarrow> 'a option \<times> 's"

record ('s, 'a) event_sink_entry =
  ke_sink :: 's
  ke_ops :: "('s, 'a) sink_ops"
  ke_type :: "'a rust_type"

type_synonym ('s, 'a) event_sink_registry = "(path \<times> ('s, 'a) event_sink_entry option) list"

definition ksr_add ::
    "'a rust_type \<Rightarrow> ('s, 'a) sink_ops \<Rightarrow> 's \<Rightarrow> path \<Rightarrow> ('s, 'a) event_sink_registry
      \<Rightarrow> (path \<times> 's + unit) \<times> ('s, 'a) event_sink_registry" where
  "ksr_add T ops sink path ksr =
     (case map_of ksr path of
        None \<Rightarrow> (Inr (), AList.update path (Some \<lparr>ke_sink = sink, ke_ops = ops, ke_type = T\<rparr>) ksr)
      | Some _ \<Rightarrow> (Inl (path, sink), ksr))"

text \<open>\<open>take\<close> removes the key; a rented entry is not found and stays.\<close>

definition ksr_take ::
    "'a rust_type \<Rightarrow> path \<Rightarrow> ('s, 'a) event_sink_registry
      \<Rightarrow> (endpoint_error + ('s, 'a) sink_ops \<times> 's) \<times> ('s, 'a) event_sink_registry" where
  "ksr_take T path ksr =
     (case map_of ksr path of
        Some (Some inner) \<Rightarrow>
          if ty_id (ke_type inner) = ty_id T then (Inr (ke_ops inner, ke_sink inner), AList.delete path ksr)
          else (Inl (InvalidEventSinkType path (ty_name T) (ty_name (ke_type inner))), ksr)
      | Some None \<Rightarrow> (Inl (EventSinkNotFound path), ksr)
      | None \<Rightarrow> (Inl (EventSinkNotFound path), ksr))"

definition ksr_has_sink :: "path \<Rightarrow> ('s, 'a) event_sink_registry \<Rightarrow> bool" where
  "ksr_has_sink path ksr \<longleftrightarrow> map_of ksr path \<noteq> None"

definition ksr_get_entry_mut :: "path \<Rightarrow> ('s, 'a) event_sink_registry \<Rightarrow> endpoint_error + ('s, 'a) event_sink_entry" where
  "ksr_get_entry_mut path ksr = ok_or_else (EventSinkNotFound path) (Option.bind (map_of ksr path) (\<lambda>s. s))"

definition ksr_rent_entry ::
    "path \<Rightarrow> ('s, 'a) event_sink_registry
      \<Rightarrow> (endpoint_error + ('s, 'a) event_sink_entry) \<times> ('s, 'a) event_sink_registry" where
  "ksr_rent_entry path ksr =
     (case map_of ksr path of
        Some (Some entry) \<Rightarrow> (Inr entry, AList.update path None ksr)
      | _ \<Rightarrow> (Inl (EventSinkNotFound path), ksr))"

definition ksr_replace_entry ::
    "path \<Rightarrow> ('s, 'a) event_sink_entry \<Rightarrow> ('s, 'a) event_sink_registry
      \<Rightarrow> (endpoint_error + unit) \<times> ('s, 'a) event_sink_registry" where
  "ksr_replace_entry path entry ksr =
     (case map_of ksr path of
        Some _ \<Rightarrow> (Inr (), AList.update path (Some entry) ksr)
      | None \<Rightarrow> (Inl (EventSinkNotFound path), ksr))"

definition entry_enable :: "('s, 'a) event_sink_entry \<Rightarrow> ('s, 'a) event_sink_entry" where
  "entry_enable en = en\<lparr>ke_sink := sk_enable (ke_ops en) (ke_sink en)\<rparr>"

definition entry_disable :: "('s, 'a) event_sink_entry \<Rightarrow> ('s, 'a) event_sink_entry" where
  "entry_disable en = en\<lparr>ke_sink := sk_disable (ke_ops en) (ke_sink en)\<rparr>"

definition entry_try_read ::
    "('s, 'a) event_sink_entry \<Rightarrow> (string + bytes) option \<times> ('s, 'a) event_sink_entry" where
  "entry_try_read en =
     (case sk_try_read (ke_ops en) (ke_sink en) of (event, sink) \<Rightarrow>
        (map_option (ty_to_cbor (ke_type en)) event, en\<lparr>ke_sink := sink\<rparr>))"

type_synonym sink_info_registry = "(path \<times> (unit \<Rightarrow> string)) list"

definition kir_register_any :: "path \<Rightarrow> (unit \<Rightarrow> string) \<Rightarrow> sink_info_registry \<Rightarrow> (path + unit) \<times> sink_info_registry" where
  "kir_register_any path schema_gen kir =
     (case map_of kir path of
        None \<Rightarrow> (Inr (), AList.update path schema_gen kir)
      | Some _ \<Rightarrow> (Inl path, kir))"

definition kir_register :: "'a rust_type \<Rightarrow> path \<Rightarrow> sink_info_registry \<Rightarrow> (path + unit) \<times> sink_info_registry" where
  "kir_register T path = kir_register_any path (\<lambda>_. ty_schema T)"

definition kir_register_raw :: "path \<Rightarrow> sink_info_registry \<Rightarrow> (path + unit) \<times> sink_info_registry" where
  "kir_register_raw path = kir_register_any path (\<lambda>_. [])"

definition kir_list_sinks :: "sink_info_registry \<Rightarrow> path list" where
  "kir_list_sinks kir = map fst kir"

definition kir_get_sink_schema :: "path \<Rightarrow> sink_info_registry \<Rightarrow> endpoint_error + string" where
  "kir_get_sink_schema path kir = ok_or_else (EventSinkNotFound path) (map_option (\<lambda>gen. gen ()) (map_of kir path))"

definition kir_list_schemas :: "sink_info_registry \<Rightarrow> (path \<times> string) list" where
  "kir_list_schemas kir = map (\<lambda>(path, gen). (path, gen ())) kir"

subsection \<open>The endpoint directory\<close>

record ('s, 'a) endpoints =
  en_sinks :: "('s, 'a) event_sink_registry"
  en_sink_infos :: sink_info_registry
  en_event_sources :: "'a event_source_registry"
  en_query_sources :: "'a query_source_registry"

definition endpoints_into_parts ::
    "('s, 'a) endpoints \<Rightarrow> ('s, 'a) event_sink_registry \<times> sink_info_registry
      \<times> 'a event_source_registry \<times> 'a query_source_registry" where
  "endpoints_into_parts en = (en_sinks en, en_sink_infos en, en_event_sources en, en_query_sources en)"

definition take_event_sink ::
    "'a rust_type \<Rightarrow> path \<Rightarrow> ('s, 'a) endpoints
      \<Rightarrow> (endpoint_error + ('s, 'a) sink_ops \<times> 's) \<times> ('s, 'a) endpoints" where
  "take_event_sink T path en =
     (case ksr_take T path (en_sinks en) of (res, ksr) \<Rightarrow> (res, en\<lparr>en_sinks := ksr\<rparr>))"

definition get_event_source_id :: "'a rust_type \<Rightarrow> path \<Rightarrow> ('s, 'a) endpoints \<Rightarrow> endpoint_error + nat" where
  "get_event_source_id T path en = esr_get_source_id T path (en_event_sources en)"

definition list_event_sources :: "('s, 'a) endpoints \<Rightarrow> path list" where
  "list_event_sources en = esr_list_sources (en_event_sources en)"

definition get_event_source_schema :: "path \<Rightarrow> ('s, 'a) endpoints \<Rightarrow> endpoint_error + string" where
  "get_event_source_schema path en = esr_get_source_schema path (en_event_sources en)"

definition list_query_sources :: "('s, 'a) endpoints \<Rightarrow> path list" where
  "list_query_sources en = qsr_list_sources (en_query_sources en)"

definition get_query_source_schema :: "path \<Rightarrow> ('s, 'a) endpoints \<Rightarrow> endpoint_error + string \<times> string" where
  "get_query_source_schema path en = qsr_get_source_schema path (en_query_sources en)"

definition get_query_source_id ::
    "'a rust_type \<Rightarrow> 'a rust_type \<Rightarrow> path \<Rightarrow> ('s, 'a) endpoints \<Rightarrow> endpoint_error + nat" where
  "get_query_source_id T R path en = qsr_get_source_id T R path (en_query_sources en)"

definition list_event_sinks :: "('s, 'a) endpoints \<Rightarrow> path list" where
  "list_event_sinks en = kir_list_sinks (en_sink_infos en)"

definition get_event_sink_schema :: "path \<Rightarrow> ('s, 'a) endpoints \<Rightarrow> endpoint_error + string" where
  "get_event_sink_schema path en = kir_get_sink_schema path (en_sink_infos en)"

subsection \<open>The contract of a registry\<close>

text \<open>A registry binds paths to entries. \<open>lookup\<close> is what a path denotes, \<open>store\<close> the attempt to
  bind one, \<open>None\<close> when it is refused.\<close>

fun bind_all :: "(path \<Rightarrow> 'e \<Rightarrow> 'r \<Rightarrow> 'r option) \<Rightarrow> (path \<times> 'e) list \<Rightarrow> 'r \<Rightarrow> 'r" where
  "bind_all store [] r = r"
| "bind_all store ((p, e) # bs) r =
     bind_all store bs (case store p e r of None \<Rightarrow> r | Some r' \<Rightarrow> r')"

definition bound_first :: "('p \<rightharpoonup> 'e) \<Rightarrow> 'p \<Rightarrow> 'e \<Rightarrow> ('p \<rightharpoonup> 'e)" where
  "bound_first m p e = (case m p of None \<Rightarrow> m(p \<mapsto> e) | Some _ \<Rightarrow> m)"

locale path_registry =
  fixes inv :: "'r \<Rightarrow> bool"
    and room :: "nat \<Rightarrow> 'r \<Rightarrow> bool"
    and lookup :: "'r \<Rightarrow> path \<Rightarrow> 'e option"
    and store :: "path \<Rightarrow> 'e \<Rightarrow> 'r \<Rightarrow> 'r option"
  assumes store_free: "inv r \<Longrightarrow> room (Suc n) r \<Longrightarrow> lookup r p = None \<Longrightarrow>
      \<exists>r'. store p e r = Some r' \<and> inv r' \<and> room n r' \<and> lookup r' = (lookup r)(p \<mapsto> e)"
    and store_used: "inv r \<Longrightarrow> lookup r p \<noteq> None \<Longrightarrow> store p e r = None"
    and room_Suc: "room (Suc n) r \<Longrightarrow> room n r"
begin

lemma store_step:
  assumes "inv r" "room (Suc n) r"
  shows "inv (case store p e r of None \<Rightarrow> r | Some r' \<Rightarrow> r') \<and> room n (case store p e r of None \<Rightarrow> r | Some r' \<Rightarrow> r') \<and>
    lookup (case store p e r of None \<Rightarrow> r | Some r' \<Rightarrow> r') = bound_first (lookup r) p e"
proof (cases "lookup r p")
  case None
  with store_free [OF assms None, of e] show ?thesis by (auto simp: bound_first_def)
next
  case (Some x)
  with store_used [of r p e] assms room_Suc show ?thesis by (auto simp: bound_first_def)
qed

text \<open>After a sequence of attempts every path denotes the first entry bound to it.\<close>

lemma first_binding_stays:
  "inv r \<Longrightarrow> room (length bs) r \<Longrightarrow>
     inv (bind_all store bs r) \<and>
     lookup (bind_all store bs r) = (\<lambda>p. case lookup r p of None \<Rightarrow> map_of bs p | Some e \<Rightarrow> Some e)"
proof (induction bs arbitrary: r)
  case Nil
  then show ?case by (auto split: option.splits)
next
  case (Cons b bs)
  obtain p e where b: "b = (p, e)" by (cases b)
  let ?r = "case store p e r of None \<Rightarrow> r | Some r' \<Rightarrow> r'"
  have s: "inv ?r \<and> room (length bs) ?r \<and> lookup ?r = bound_first (lookup r) p e"
    using store_step Cons.prems by simp
  then have l: "lookup ?r = bound_first (lookup r) p e" by blast
  have "lookup (bind_all store (b # bs) r) = (\<lambda>q. case lookup ?r q of None \<Rightarrow> map_of bs q | Some e \<Rightarrow> Some e)"
    using Cons.IH [of ?r] s by (simp add: b)
  also have "\<dots> = (\<lambda>q. case lookup r q of None \<Rightarrow> map_of (b # bs) q | Some e \<Rightarrow> Some e)"
    unfolding l by (cases "lookup r p") (auto simp: b bound_first_def fun_eq_iff split: option.splits)
  finally show ?case
    using Cons.IH [of ?r] s by (simp add: b)
qed

end

subsection \<open>The registries satisfy it\<close>

lemma update_simps [simp]:
  "map_of (AList.update k v al) = (map_of al)(k \<mapsto> v)"
  "map_of (AList.delete k al) = (map_of al)(k := None)"
  by (simp_all add: update_conv' delete_conv')

text \<open>Event sources: a path denotes a type, a source of the scheduler registry and a schema.\<close>

definition esr_inv :: "'a event_source_registry \<times> ('a, 'f, 't, 'p) registry \<Rightarrow> bool" where
  "esr_inv st \<longleftrightarrow> distinct (map fst (fst st)) \<and>
     (\<forall>p en. map_of (fst st) p = Some en \<longrightarrow> ee_inner en < length (event_registry (snd st)))"

definition esr_room :: "nat \<Rightarrow> 'a event_source_registry \<times> ('a, 'f, 't, 'p) registry \<Rightarrow> bool" where
  "esr_room n st \<longleftrightarrow> length (event_registry (snd st)) + n \<le> Suc max_source_id"

definition esr_lookup ::
    "'a event_source_registry \<times> ('a, 'f, 't, 'p) registry \<Rightarrow> path
      \<Rightarrow> ('a rust_type \<times> ('a, 'f, 't, 'p) event_source \<times> (unit \<Rightarrow> string)) option" where
  "esr_lookup st p =
     map_option (\<lambda>en. (ee_type en, event_registry (snd st) ! ee_inner en, ee_schema_gen en)) (map_of (fst st) p)"

definition esr_store ::
    "path \<Rightarrow> 'a rust_type \<times> ('a, 'f, 't, 'p) event_source \<times> (unit \<Rightarrow> string)
      \<Rightarrow> 'a event_source_registry \<times> ('a, 'f, 't, 'p) registry
      \<Rightarrow> ('a event_source_registry \<times> ('a, 'f, 't, 'p) registry) option" where
  "esr_store p e st =
     (case esr_add_any (fst e) (fst (snd e)) p (snd (snd e)) st of Some (Inr _, st') \<Rightarrow> Some st' | _ \<Rightarrow> None)"

lemma esr_add_any_new:
  assumes "esr_inv st" "esr_room (Suc n) st" "esr_lookup st p = None"
  shows "\<exists>st'. esr_add_any T s p gen st = Some (Inr (), st') \<and> esr_inv st' \<and> esr_room n st' \<and>
    esr_lookup st' = (esr_lookup st)(p \<mapsto> (T, s, gen)) \<and> query_registry (snd st') = query_registry (snd st)"
proof -
  obtain esr g where st: "st = (esr, g)" by (cases st)
  let ?n = "length (event_registry g)"
  let ?st = "(AList.update p \<lparr>ee_inner = ?n, ee_type = T, ee_schema_gen = gen\<rparr> esr,
    g\<lparr>event_registry := event_registry g @ [s]\<rparr>)"
  have free: "map_of esr p = None" and room: "?n \<le> max_source_id"
    using assms by (auto simp: st esr_lookup_def esr_room_def)
  have bound: "map_of esr q = Some en \<Longrightarrow> ee_inner en < ?n" for q en
    using assms(1) by (auto simp: esr_inv_def st)
  have "esr_add_any T s p gen st = Some (Inr (), ?st)"
    using free room by (simp add: esr_add_any_def st add_event_source_def)
  moreover have "esr_inv ?st"
    using assms(1) by (auto simp: esr_inv_def st distinct_update less_Suc_eq dest: bound)
  moreover have "esr_lookup ?st q = ((esr_lookup st)(p \<mapsto> (T, s, gen))) q" for q
    using bound [of q] by (cases "map_of esr q") (auto simp: esr_lookup_def st nth_append)
  ultimately show ?thesis
    using room assms(2) by (intro exI [of _ ?st]) (auto simp: st esr_room_def fun_eq_iff)
qed

lemma esr_add_any_used:
  "esr_lookup st p \<noteq> None \<Longrightarrow> esr_add_any T s p gen st = Some (Inl (p, s), st)"
  by (auto simp: esr_lookup_def esr_add_any_def split: prod.splits)

interpretation esr: path_registry esr_inv esr_room esr_lookup esr_store
proof unfold_locales
  fix st :: "'a event_source_registry \<times> ('a, 'f, 't, 'p) registry" and n p e
  assume "esr_inv st" "esr_room (Suc n) st" "esr_lookup st p = None"
  from esr_add_any_new [OF this, of "fst e" "fst (snd e)" "snd (snd e)"]
  show "\<exists>r'. esr_store p e st = Some r' \<and> esr_inv r' \<and> esr_room n r' \<and>
      esr_lookup r' = (esr_lookup st)(p \<mapsto> e)"
    by (auto simp: esr_store_def)
next
  fix st :: "'a event_source_registry \<times> ('a, 'f, 't, 'p) registry" and p e
  assume "esr_lookup st p \<noteq> None"
  then show "esr_store p e st = None"
    by (simp add: esr_store_def esr_add_any_used)
qed (simp add: esr_room_def)

lemma esr_get_source_id_lookup:
  assumes "esr_inv (esr, g)"
  shows "esr_get_source_id T p esr =
     (case esr_lookup (esr, g) p of
        None \<Rightarrow> Inl (EventSourceNotFound p)
      | Some (U, s, gen) \<Rightarrow>
          if ty_id U = ty_id T then Inr (ee_inner (the (map_of esr p)))
          else Inl (InvalidEventSourceType p (ty_name T) (ty_name U)))"
    and "esr_lookup (esr, g) p = Some (U, s, gen) \<Longrightarrow>
      get_event_source (ee_inner (the (map_of esr p))) g = Some s"
  using assms
  by (auto simp: esr_get_source_id_def esr_get_def ok_or_else_def esr_lookup_def esr_inv_def
      get_event_source_def split: option.splits)

text \<open>Query sources: a path denotes the request and reply types, a source of the scheduler registry and a schema.\<close>

definition qsr_inv :: "'a query_source_registry \<times> ('a, 'f, 't, 'p) registry \<Rightarrow> bool" where
  "qsr_inv st \<longleftrightarrow> distinct (map fst (fst st)) \<and>
     (\<forall>p en. map_of (fst st) p = Some en \<longrightarrow> qe_inner en < length (query_registry (snd st)))"

definition qsr_room :: "nat \<Rightarrow> 'a query_source_registry \<times> ('a, 'f, 't, 'p) registry \<Rightarrow> bool" where
  "qsr_room n st \<longleftrightarrow> length (query_registry (snd st)) + n \<le> Suc max_source_id"

definition qsr_lookup ::
    "'a query_source_registry \<times> ('a, 'f, 't, 'p) registry \<Rightarrow> path
      \<Rightarrow> (('a rust_type \<times> 'a rust_type) \<times> ('a, 'f, 't, 'p) query_source \<times> (unit \<Rightarrow> string \<times> string)) option" where
  "qsr_lookup st p =
     map_option (\<lambda>en. ((qe_request_type en, qe_reply_type en), query_registry (snd st) ! qe_inner en, qe_schema_gen en)) (map_of (fst st) p)"

definition qsr_store ::
    "path \<Rightarrow> ('a rust_type \<times> 'a rust_type) \<times> ('a, 'f, 't, 'p) query_source \<times> (unit \<Rightarrow> string \<times> string)
      \<Rightarrow> 'a query_source_registry \<times> ('a, 'f, 't, 'p) registry
      \<Rightarrow> ('a query_source_registry \<times> ('a, 'f, 't, 'p) registry) option" where
  "qsr_store p e st =
     (case qsr_add_any (fst (fst e)) (snd (fst e)) (fst (snd e)) p (snd (snd e)) st of Some (Inr _, st') \<Rightarrow> Some st' | _ \<Rightarrow> None)"

lemma qsr_add_any_new:
  assumes "qsr_inv st" "qsr_room (Suc n) st" "qsr_lookup st p = None"
  shows "\<exists>st'. qsr_add_any T R s p gen st = Some (Inr (), st') \<and> qsr_inv st' \<and> qsr_room n st' \<and>
    qsr_lookup st' = (qsr_lookup st)(p \<mapsto> ((T, R), s, gen)) \<and> event_registry (snd st') = event_registry (snd st)"
proof -
  obtain qsr g where st: "st = (qsr, g)" by (cases st)
  let ?n = "length (query_registry g)"
  let ?st = "(AList.update p \<lparr>qe_inner = ?n, qe_request_type = T, qe_reply_type = R, qe_schema_gen = gen\<rparr> qsr,
    g\<lparr>query_registry := query_registry g @ [s]\<rparr>)"
  have free: "map_of qsr p = None" and room: "?n \<le> max_source_id"
    using assms by (auto simp: st qsr_lookup_def qsr_room_def)
  have bound: "map_of qsr q = Some en \<Longrightarrow> qe_inner en < ?n" for q en
    using assms(1) by (auto simp: qsr_inv_def st)
  have "qsr_add_any T R s p gen st = Some (Inr (), ?st)"
    using free room by (simp add: qsr_add_any_def st add_query_source_def)
  moreover have "qsr_inv ?st"
    using assms(1) by (auto simp: qsr_inv_def st distinct_update less_Suc_eq dest: bound)
  moreover have "qsr_lookup ?st q = ((qsr_lookup st)(p \<mapsto> ((T, R), s, gen))) q" for q
    using bound [of q] by (cases "map_of qsr q") (auto simp: qsr_lookup_def st nth_append)
  ultimately show ?thesis
    using room assms(2) by (intro exI [of _ ?st]) (auto simp: st qsr_room_def fun_eq_iff)
qed

lemma qsr_add_any_used:
  "qsr_lookup st p \<noteq> None \<Longrightarrow> qsr_add_any T R s p gen st = Some (Inl (p, s), st)"
  by (auto simp: qsr_lookup_def qsr_add_any_def split: prod.splits)

interpretation qsr: path_registry qsr_inv qsr_room qsr_lookup qsr_store
proof unfold_locales
  fix st :: "'a query_source_registry \<times> ('a, 'f, 't, 'p) registry" and n p e
  assume "qsr_inv st" "qsr_room (Suc n) st" "qsr_lookup st p = None"
  from qsr_add_any_new [OF this, of "fst (fst e)" "snd (fst e)" "fst (snd e)" "snd (snd e)"]
  show "\<exists>r'. qsr_store p e st = Some r' \<and> qsr_inv r' \<and> qsr_room n r' \<and>
      qsr_lookup r' = (qsr_lookup st)(p \<mapsto> e)"
    by (auto simp: qsr_store_def)
next
  fix st :: "'a query_source_registry \<times> ('a, 'f, 't, 'p) registry" and p e
  assume "qsr_lookup st p \<noteq> None"
  then show "qsr_store p e st = None"
    by (simp add: qsr_store_def qsr_add_any_used)
qed (simp add: qsr_room_def)

lemma qsr_get_source_id_lookup:
  assumes "qsr_inv (qsr, g)"
  shows "qsr_get_source_id T R p qsr =
     (case qsr_lookup (qsr, g) p of
        None \<Rightarrow> Inl (QuerySourceNotFound p)
      | Some ((U, V), s, gen) \<Rightarrow>
          if ty_id U = ty_id T \<and> ty_id V = ty_id R then Inr (qe_inner (the (map_of qsr p)))
          else Inl (InvalidQuerySourceType p (ty_name T) (ty_name R) (ty_name U) (ty_name V)))"
    and "qsr_lookup (qsr, g) p = Some ((U, V), s, gen) \<Longrightarrow>
      get_query_source (qe_inner (the (map_of qsr p))) g = Some s"
  using assms
  by (auto simp: qsr_get_source_id_def qsr_get_def ok_or_else_def qsr_lookup_def qsr_inv_def
      get_query_source_def split: option.splits)

text \<open>Sinks: the sink and its schema are bound together, the schema first.\<close>

definition sink_inv :: "('s, 'a) event_sink_registry \<times> sink_info_registry \<Rightarrow> bool" where
  "sink_inv st \<longleftrightarrow> (\<forall>p. map_of (fst st) p = None \<longleftrightarrow> map_of (snd st) p = None)"

definition sink_lookup ::
    "('s, 'a) event_sink_registry \<times> sink_info_registry \<Rightarrow> path
      \<Rightarrow> (('s, 'a) event_sink_entry option \<times> (unit \<Rightarrow> string)) option" where
  "sink_lookup st p = (case (map_of (fst st) p, map_of (snd st) p) of (Some en, Some gen) \<Rightarrow> Some (en, gen) | _ \<Rightarrow> None)"

definition sink_store ::
    "path \<Rightarrow> ('s, 'a) event_sink_entry option \<times> (unit \<Rightarrow> string) \<Rightarrow> ('s, 'a) event_sink_registry \<times> sink_info_registry
      \<Rightarrow> (('s, 'a) event_sink_registry \<times> sink_info_registry) option" where
  "sink_store p e st =
     (case kir_register_any p (snd e) (snd st) of
        (Inl _, _) \<Rightarrow> None
      | (Inr _, kir) \<Rightarrow>
          (case fst e of
             None \<Rightarrow> Some (AList.update p None (fst st), kir)
           | Some en \<Rightarrow>
               (case ksr_add (ke_type en) (ke_ops en) (ke_sink en) p (fst st) of
                  (Inl _, _) \<Rightarrow> None
                | (Inr _, ksr) \<Rightarrow> Some (ksr, kir))))"

lemma sink_entry_eta: "\<lparr>ke_sink = ke_sink en, ke_ops = ke_ops en, ke_type = ke_type en\<rparr> = en"
  by (cases en) simp

interpretation sink: path_registry
  "sink_inv :: ('s, 'a) event_sink_registry \<times> sink_info_registry \<Rightarrow> bool" "\<lambda>_ _. True" sink_lookup sink_store
proof unfold_locales
  fix st :: "('s, 'a) event_sink_registry \<times> sink_info_registry" and p
    and e :: "('s, 'a) event_sink_entry option \<times> (unit \<Rightarrow> string)"
  assume inv: "sink_inv st" and "sink_lookup st p = None"
  obtain ksr kir where st: "st = (ksr, kir)" by (cases st)
  obtain en gen where e: "e = (en, gen)" by (cases e)
  have free: "map_of ksr p = None" "map_of kir p = None"
    using inv \<open>sink_lookup st p = None\<close> by (auto simp: st sink_inv_def sink_lookup_def split: option.splits)
  let ?st = "(AList.update p en ksr, AList.update p gen kir)"
  have "sink_store p e st = Some ?st"
    using free by (cases en) (auto simp: sink_entry_eta st e sink_store_def kir_register_any_def ksr_add_def)
  moreover have "sink_inv ?st"
    using inv by (simp add: st sink_inv_def)
  moreover have "sink_lookup ?st = (sink_lookup st)(p \<mapsto> e)"
    by (auto simp: st e sink_lookup_def fun_eq_iff)
  ultimately show "\<exists>r'. sink_store p e st = Some r' \<and> sink_inv r' \<and> True \<and> sink_lookup r' = (sink_lookup st)(p \<mapsto> e)"
    by blast
next
  fix st :: "('s, 'a) event_sink_registry \<times> sink_info_registry" and p
    and e :: "('s, 'a) event_sink_entry option \<times> (unit \<Rightarrow> string)"
  assume "sink_inv st" "sink_lookup st p \<noteq> None"
  then show "sink_store p e st = None"
    by (auto simp: sink_lookup_def sink_store_def kir_register_any_def split: option.splits)
qed simp

end
