(* ===== verification/Sim_Init.thy ===== *)
theory Sim_Init
  imports Save_Restore Endpoints
begin

text \<open>
  Model of \<^verbatim>\<open>src/nexosim/src/simulation/sim_init.rs\<close>, of \<open>add_model\<close> in
  \<^verbatim>\<open>src/nexosim/src/simulation.rs\<close>, of \<open>BuildContext\<close> in \<^verbatim>\<open>src/nexosim/src/model/context.rs\<close> and
  of the registration code that the macro of \<^verbatim>\<open>src/nexosim-macros/src/lib.rs\<close> generates.

  \<^item> A model prototype is the list of its decorated inputs, the calls its \<open>build\<close> method makes on
    its build context, in order, and the model it returns. An input is the event source that it
    gives for an address; a mailbox and its address are a number.
  \<^item> A model is a record: the future that its task runs, and the futures that save and restore it.
  \<^item> \<open>sim_init\<close> is the builder; its executor is the list of the spawned futures and the number of
    worker threads. A callback is an operation on the simulation.
\<close>

subsection \<open>Models and their prototypes\<close>

record 'f model_impl =
  mi_task :: "nat \<Rightarrow> path \<Rightarrow> model_context \<Rightarrow> 'f"
  mi_serialize :: "path \<Rightarrow> 'f"
  mi_deserialize :: "path \<Rightarrow> bytes \<Rightarrow> 'f"

datatype ('e, 'm) build_call =
    RegisterSchedulable 'e
  | AddSubmodel "('e, 'm) proto_model" nat string
and ('e, 'm) proto_model = Proto "'e list" "('e, 'm) build_call list" 'm

record ('a, 'f, 't, 'p) bench =
  be_registry :: "('a, 'f, 't, 'p) registry"
  be_models :: "'f registered_model list"
  be_spawned :: "'f list list"

definition registered_model_new :: "'f model_impl \<Rightarrow> path \<Rightarrow> 'f registered_model" where
  "registered_model_new m path = \<lparr>rm_path = path, rm_serialize = mi_serialize m path, rm_deserialize = mi_deserialize m path\<rparr>"

definition register_schedulable ::
    "(nat \<Rightarrow> ('a, 'f, 't, 'p) event_source) \<Rightarrow> nat \<Rightarrow> ('a, 'f, 't, 'p) registry
      \<Rightarrow> (64 word \<times> ('a, 'f, 't, 'p) registry) exec" where
  "register_schedulable func address r = do {
     (i, r) \<leftarrow> add_event_source (func address) r;
     Some (word_of_nat i, r)
   }"

fun register_schedulables ::
    "(nat \<Rightarrow> ('a, 'f, 't, 'p) event_source) list \<Rightarrow> nat \<Rightarrow> 64 word list \<times> ('a, 'f, 't, 'p) registry
      \<Rightarrow> (64 word list \<times> ('a, 'f, 't, 'p) registry) exec" where
  "register_schedulables [] address (registry, r) = Some (registry, r)"
| "register_schedulables (func # funcs) address (registry, r) = do {
     (sid, r) \<leftarrow> register_schedulable func address r;
     register_schedulables funcs address (model_registry_add sid registry, r)
   }"

text \<open>The identifier of a model is the number of models registered before it is built.\<close>

fun add_model ::
    "(nat \<Rightarrow> ('a, 'f, 't, 'p) event_source, 'f model_impl) proto_model \<Rightarrow> nat \<Rightarrow> path
      \<Rightarrow> ('a, 'f, 't, 'p) bench \<Rightarrow> ('a, 'f, 't, 'p) bench exec"
  and build ::
    "(nat \<Rightarrow> ('a, 'f, 't, 'p) event_source, 'f model_impl) build_call list \<Rightarrow> nat \<Rightarrow> path
      \<Rightarrow> ('a, 'f, 't, 'p) bench \<Rightarrow> ('a, 'f, 't, 'p) bench exec" where
  "add_model (Proto schedulables calls m) mailbox path b = do {
     model_id \<leftarrow> model_id_new (length (be_models b));
     (model_registry, r) \<leftarrow> register_schedulables schedulables mailbox ([], be_registry b);
     b \<leftarrow> build calls mailbox path (b\<lparr>be_registry := r\<rparr>);
     let cx = \<lparr>cx_origin_id = model_id, cx_model_registry = model_registry\<rparr>;
     Some (b\<lparr>be_models := be_models b @ [registered_model_new m path],
             be_spawned := be_spawned b @ [[mi_task m model_id path cx]]\<rparr>)
   }"
| "build [] mailbox path b = Some b"
| "build (RegisterSchedulable func # calls) mailbox path b = do {
     (sid, r) \<leftarrow> register_schedulable func mailbox (be_registry b);
     build calls mailbox path (b\<lparr>be_registry := r\<rparr>)
   }"
| "build (AddSubmodel sub sub_mailbox name # calls) mailbox path b = do {
     b \<leftarrow> add_model sub sub_mailbox (path_join path (path_from_str name)) b;
     build calls mailbox path b
   }"

subsection \<open>The builder\<close>

datatype bench_error = DuplicateEventSource path | DuplicateQuerySource path | DuplicateEventSink path

datatype ('t, 'p) simulation_error =
    BenchErr bench_error
  | ExecutionErr "('t, 'p) execution_error"
  | SchedulingErr scheduling_error

record ('t, 'a, 'f, 'p, 'w, 'c, 'k, 's) sim_init =
  in_num_threads :: nat
  in_sched :: "('t, 'a) sched"
  in_bench :: "('a, 'f, 't, 'p) bench"
  in_injector :: "('a, 'f) injector_queue"
  in_endpoints :: "('s, 'a) endpoints"
  in_resumed :: bool
  in_clock :: 'c
  in_tolerance :: "duration option"
  in_ticker :: "'k option"
  in_timeout :: duration
  in_observers :: "(path \<times> nat) list"
  in_world :: 'w
  in_post_init :: "(('t, 'a, 'f, 'p, 'w, 'c, 'k) simulation
    \<Rightarrow> ((('t, 'p) simulation_error + unit) \<times> ('t, 'a, 'f, 'p, 'w, 'c, 'k) simulation) exec) option"
  in_post_restore :: "(('t, 'a, 'f, 'p, 'w, 'c, 'k) simulation
    \<Rightarrow> ((('t, 'p) simulation_error + unit) \<times> ('t, 'a, 'f, 'p, 'w, 'c, 'k) simulation) exec) option"

definition endpoints_default :: "('s, 'a) endpoints" where
  "endpoints_default = \<lparr>en_sinks = [], en_sink_infos = [], en_event_sources = [], en_query_sources = []\<rparr>"

definition clamp_threads :: "nat \<Rightarrow> nat" where
  "clamp_threads n = (if n < 1 then 1 else if 64 < n then 64 else n)"

text \<open>\<open>epoch\<close> is \<open>MonotonicTime::EPOCH\<close>, \<open>no_clock\<close> the clock made by \<open>NoClock::new\<close>.\<close>

definition with_num_threads ::
    "'t::linorder \<Rightarrow> 'c \<Rightarrow> 'w \<Rightarrow> nat \<Rightarrow> ('t, 'a, 'f, 'p, 'w, 'c, 'k, 's) sim_init" where
  "with_num_threads epoch no_clock w num_threads = \<lparr>
     in_num_threads = clamp_threads num_threads,
     in_sched = \<lparr>sd_queue = pq_new, sd_time = epoch, sd_flags = [], sd_replies = 0,
       sd_halted = False, sd_terminated = False\<rparr>,
     in_bench = \<lparr>be_registry = \<lparr>event_registry = [], query_registry = []\<rparr>, be_models = [], be_spawned = []\<rparr>,
     in_injector = pq_new,
     in_endpoints = endpoints_default,
     in_resumed = False,
     in_clock = no_clock,
     in_tolerance = None,
     in_ticker = None,
     in_timeout = 0,
     in_observers = [],
     in_world = w,
     in_post_init = None,
     in_post_restore = None\<rparr>"

definition init_with_clock ::
    "'c \<Rightarrow> 'k \<Rightarrow> ('t, 'a, 'f, 'p, 'w, 'c, 'k, 's) sim_init \<Rightarrow> ('t, 'a, 'f, 'p, 'w, 'c, 'k, 's) sim_init" where
  "init_with_clock clock ticker st = st\<lparr>in_clock := clock, in_ticker := Some ticker\<rparr>"

definition init_with_tickless_clock ::
    "'c \<Rightarrow> ('t, 'a, 'f, 'p, 'w, 'c, 'k, 's) sim_init \<Rightarrow> ('t, 'a, 'f, 'p, 'w, 'c, 'k, 's) sim_init" where
  "init_with_tickless_clock clock st = st\<lparr>in_clock := clock, in_ticker := None\<rparr>"

definition with_clock_tolerance ::
    "duration \<Rightarrow> ('t, 'a, 'f, 'p, 'w, 'c, 'k, 's) sim_init \<Rightarrow> ('t, 'a, 'f, 'p, 'w, 'c, 'k, 's) sim_init" where
  "with_clock_tolerance tolerance st = st\<lparr>in_tolerance := Some tolerance\<rparr>"

definition init_with_timeout ::
    "duration \<Rightarrow> ('t, 'a, 'f, 'p, 'w, 'c, 'k, 's) sim_init \<Rightarrow> ('t, 'a, 'f, 'p, 'w, 'c, 'k, 's) sim_init" where
  "init_with_timeout timeout st = st\<lparr>in_timeout := timeout\<rparr>"

definition with_post_init ::
    "(('t, 'a, 'f, 'p, 'w, 'c, 'k) simulation
        \<Rightarrow> ((('t, 'p) simulation_error + unit) \<times> ('t, 'a, 'f, 'p, 'w, 'c, 'k) simulation) exec)
      \<Rightarrow> ('t, 'a, 'f, 'p, 'w, 'c, 'k, 's) sim_init \<Rightarrow> ('t, 'a, 'f, 'p, 'w, 'c, 'k, 's) sim_init" where
  "with_post_init callback st = st\<lparr>in_post_init := Some callback\<rparr>"

definition with_post_restore ::
    "(('t, 'a, 'f, 'p, 'w, 'c, 'k) simulation
        \<Rightarrow> ((('t, 'p) simulation_error + unit) \<times> ('t, 'a, 'f, 'p, 'w, 'c, 'k) simulation) exec)
      \<Rightarrow> ('t, 'a, 'f, 'p, 'w, 'c, 'k, 's) sim_init \<Rightarrow> ('t, 'a, 'f, 'p, 'w, 'c, 'k, 's) sim_init" where
  "with_post_restore callback st = st\<lparr>in_post_restore := Some callback\<rparr>"

definition link_event_source ::
    "('a, 'f, 't, 'p) event_source \<Rightarrow> ('t, 'a, 'f, 'p, 'w, 'c, 'k, 's) sim_init
      \<Rightarrow> (nat \<times> ('t, 'a, 'f, 'p, 'w, 'c, 'k, 's) sim_init) exec" where
  "link_event_source source st = do {
     (i, r) \<leftarrow> add_event_source source (be_registry (in_bench st));
     Some (i, st\<lparr>in_bench := (in_bench st)\<lparr>be_registry := r\<rparr>\<rparr>)
   }"

definition link_query_source ::
    "('a, 'f, 't, 'p) query_source \<Rightarrow> ('t, 'a, 'f, 'p, 'w, 'c, 'k, 's) sim_init
      \<Rightarrow> (nat \<times> ('t, 'a, 'f, 'p, 'w, 'c, 'k, 's) sim_init) exec" where
  "link_query_source source st = do {
     (i, r) \<leftarrow> add_query_source source (be_registry (in_bench st));
     Some (i, st\<lparr>in_bench := (in_bench st)\<lparr>be_registry := r\<rparr>\<rparr>)
   }"

definition init_add_model ::
    "(nat \<Rightarrow> ('a, 'f, 't, 'p) event_source, 'f model_impl) proto_model \<Rightarrow> nat \<Rightarrow> string
      \<Rightarrow> ('t, 'a, 'f, 'p, 'w, 'c, 'k, 's) sim_init \<Rightarrow> ('t, 'a, 'f, 'p, 'w, 'c, 'k, 's) sim_init exec" where
  "init_add_model model mailbox name st =
     (let path = path_from_str name; st = st\<lparr>in_observers := in_observers st @ [(path, mailbox)]\<rparr> in
      do {
        b \<leftarrow> add_model model mailbox path (in_bench st);
        Some (st\<lparr>in_bench := b\<rparr>)
      })"

definition bind_event_sink ::
    "'a rust_type \<Rightarrow> ('s, 'a) sink_ops \<Rightarrow> 's \<Rightarrow> path \<Rightarrow> ('t, 'a, 'f, 'p, 'w, 'c, 'k, 's) sim_init
      \<Rightarrow> (bench_error + unit) \<times> ('t, 'a, 'f, 'p, 'w, 'c, 'k, 's) sim_init" where
  "bind_event_sink T ops sink path st =
     (case kir_register T path (en_sink_infos (in_endpoints st)) of
        (Inl path, _) \<Rightarrow> (Inl (DuplicateEventSink path), st)
      | (Inr _, kir) \<Rightarrow>
          (let st = st\<lparr>in_endpoints := (in_endpoints st)\<lparr>en_sink_infos := kir\<rparr>\<rparr> in
           (case ksr_add T ops sink path (en_sinks (in_endpoints st)) of
              (Inl (path, _), _) \<Rightarrow> (Inl (DuplicateEventSink path), st)
            | (Inr _, ksr) \<Rightarrow> (Inr (), st\<lparr>in_endpoints := (in_endpoints st)\<lparr>en_sinks := ksr\<rparr>\<rparr>))))"

definition bind_event_sink_raw ::
    "'a rust_type \<Rightarrow> ('s, 'a) sink_ops \<Rightarrow> 's \<Rightarrow> path \<Rightarrow> ('t, 'a, 'f, 'p, 'w, 'c, 'k, 's) sim_init
      \<Rightarrow> (bench_error + unit) \<times> ('t, 'a, 'f, 'p, 'w, 'c, 'k, 's) sim_init" where
  "bind_event_sink_raw T ops sink path st =
     (case kir_register_raw path (en_sink_infos (in_endpoints st)) of
        (Inl path, _) \<Rightarrow> (Inl (DuplicateEventSink path), st)
      | (Inr _, kir) \<Rightarrow>
          (let st = st\<lparr>in_endpoints := (in_endpoints st)\<lparr>en_sink_infos := kir\<rparr>\<rparr> in
           (case ksr_add T ops sink path (en_sinks (in_endpoints st)) of
              (Inl (path, _), _) \<Rightarrow> (Inl (DuplicateEventSink path), st)
            | (Inr _, ksr) \<Rightarrow> (Inr (), st\<lparr>in_endpoints := (in_endpoints st)\<lparr>en_sinks := ksr\<rparr>\<rparr>))))"

text \<open>The builder with the parts that binding a source changes.\<close>

definition with_event_sources ::
    "'a event_source_registry \<times> ('a, 'f, 't, 'p) registry \<Rightarrow> ('t, 'a, 'f, 'p, 'w, 'c, 'k, 's) sim_init
      \<Rightarrow> ('t, 'a, 'f, 'p, 'w, 'c, 'k, 's) sim_init" where
  "with_event_sources er st =
     st\<lparr>in_endpoints := (in_endpoints st)\<lparr>en_event_sources := fst er\<rparr>,
        in_bench := (in_bench st)\<lparr>be_registry := snd er\<rparr>\<rparr>"

definition with_query_sources ::
    "'a query_source_registry \<times> ('a, 'f, 't, 'p) registry \<Rightarrow> ('t, 'a, 'f, 'p, 'w, 'c, 'k, 's) sim_init
      \<Rightarrow> ('t, 'a, 'f, 'p, 'w, 'c, 'k, 's) sim_init" where
  "with_query_sources qr st =
     st\<lparr>in_endpoints := (in_endpoints st)\<lparr>en_query_sources := fst qr\<rparr>,
        in_bench := (in_bench st)\<lparr>be_registry := snd qr\<rparr>\<rparr>"

definition bind_event_source ::
    "'a rust_type \<Rightarrow> ('a, 'f, 't, 'p) event_source \<Rightarrow> path \<Rightarrow> ('t, 'a, 'f, 'p, 'w, 'c, 'k, 's) sim_init
      \<Rightarrow> ((bench_error + unit) \<times> ('t, 'a, 'f, 'p, 'w, 'c, 'k, 's) sim_init) exec" where
  "bind_event_source T source path st = do {
     (res, er) \<leftarrow> esr_add T source path (en_event_sources (in_endpoints st), be_registry (in_bench st));
     Some (map_sum (\<lambda>(path, source). DuplicateEventSource path) id res, with_event_sources er st)
   }"

definition bind_event_source_raw ::
    "'a rust_type \<Rightarrow> ('a, 'f, 't, 'p) event_source \<Rightarrow> path \<Rightarrow> ('t, 'a, 'f, 'p, 'w, 'c, 'k, 's) sim_init
      \<Rightarrow> ((bench_error + unit) \<times> ('t, 'a, 'f, 'p, 'w, 'c, 'k, 's) sim_init) exec" where
  "bind_event_source_raw T source path st = do {
     (res, er) \<leftarrow> esr_add_raw T source path (en_event_sources (in_endpoints st), be_registry (in_bench st));
     Some (map_sum (\<lambda>(path, source). DuplicateEventSource path) id res, with_event_sources er st)
   }"

definition bind_query_source ::
    "'a rust_type \<Rightarrow> 'a rust_type \<Rightarrow> ('a, 'f, 't, 'p) query_source \<Rightarrow> path \<Rightarrow> ('t, 'a, 'f, 'p, 'w, 'c, 'k, 's) sim_init
      \<Rightarrow> ((bench_error + unit) \<times> ('t, 'a, 'f, 'p, 'w, 'c, 'k, 's) sim_init) exec" where
  "bind_query_source T R source path st = do {
     (res, qr) \<leftarrow> qsr_add T R source path (en_query_sources (in_endpoints st), be_registry (in_bench st));
     Some (map_sum (\<lambda>(path, source). DuplicateQuerySource path) id res, with_query_sources qr st)
   }"

definition bind_query_source_raw ::
    "'a rust_type \<Rightarrow> 'a rust_type \<Rightarrow> ('a, 'f, 't, 'p) query_source \<Rightarrow> path \<Rightarrow> ('t, 'a, 'f, 'p, 'w, 'c, 'k, 's) sim_init
      \<Rightarrow> ((bench_error + unit) \<times> ('t, 'a, 'f, 'p, 'w, 'c, 'k, 's) sim_init) exec" where
  "bind_query_source_raw T R source path st = do {
     (res, qr) \<leftarrow> qsr_add_raw T R source path (en_query_sources (in_endpoints st), be_registry (in_bench st));
     Some (map_sum (\<lambda>(path, source). DuplicateQuerySource path) id res, with_query_sources qr st)
   }"

definition take_endpoints ::
    "('t, 'a, 'f, 'p, 'w, 'c, 'k, 's) sim_init \<Rightarrow> ('s, 'a) endpoints \<times> ('t, 'a, 'f, 'p, 'w, 'c, 'k, 's) sim_init" where
  "take_endpoints st = (in_endpoints st, st\<lparr>in_endpoints := endpoints_default\<rparr>)"

definition init_build ::
    "('t, 'a, 'f, 'p, 'w, 'c, 'k, 's) sim_init \<Rightarrow> ('t, 'a, 'f, 'p, 'w, 'c, 'k) simulation" where
  "init_build st = \<lparr>
     si_sched = in_sched st, si_registry = be_registry (in_bench st), si_injector = in_injector st,
     si_clock = in_clock st, si_tolerance = in_tolerance st, si_ticker = in_ticker st,
     si_timeout = in_timeout st, si_observers = in_observers st, si_models = be_models (in_bench st),
     si_spawned = be_spawned (in_bench st), si_keys = Map.empty, si_world = in_world st\<rparr>"

definition sync_lost :: "sync_status \<Rightarrow> duration option \<Rightarrow> duration option" where
  "sync_lost status tolerance =
     (case (status, tolerance) of
        (OutOfSync lag, Some tol) \<Rightarrow> if tol < lag then Some lag else None
      | _ \<Rightarrow> None)"

definition run_callback ::
    "(('t, 'a, 'f, 'p, 'w, 'c, 'k) simulation
        \<Rightarrow> ((('t, 'p) simulation_error + unit) \<times> ('t, 'a, 'f, 'p, 'w, 'c, 'k) simulation) exec) option
      \<Rightarrow> ('t, 'a, 'f, 'p, 'w, 'c, 'k) simulation
      \<Rightarrow> ((('t, 'p) simulation_error + unit) \<times> ('t, 'a, 'f, 'p, 'w, 'c, 'k) simulation) exec" where
  "run_callback callback s = (case callback of None \<Rightarrow> Some (Inr (), s) | Some f \<Rightarrow> f s)"

text \<open>While \<open>init\<close> synchronizes with the clock, other threads may use injectors.\<close>

definition init ::
    "('t::linorder, 'a, 'f, 'p, 'w, 'c, 'k) sim_env \<Rightarrow> 't \<Rightarrow> ('t, 'a, 'f, 'p, 'w, 'c, 'k, 's) sim_init
      \<Rightarrow> (('t, 'p) simulation_error + ('t, 'a, 'f, 'p, 'w, 'c, 'k) simulation) exec" where
  "init E start_time st0 =
     (let st = st0\<lparr>in_sched := (in_sched st0)\<lparr>sd_time := start_time\<rparr>\<rparr>;
          (status, clock, calls, w) = en_synchronize E start_time (in_clock st) (in_sched st) (in_world st) in
      (case sync_lost status (in_tolerance st) of
         Some lag \<Rightarrow> Some (Inl (ExecutionErr (OutOfSyncError lag)))
       | None \<Rightarrow>
           (let s = env_calls (en_tai E) calls (init_build (st\<lparr>in_clock := clock, in_world := w\<rparr>)) in do {
              (res, s) \<leftarrow> run_callback (in_post_init st) s;
              (case res of
                 Inl e \<Rightarrow> Some (Inl e)
               | Inr _ \<Rightarrow> do {
                   (res, s) \<leftarrow> run_executor E s;
                   (case res of Inl e \<Rightarrow> Some (Inl (ExecutionErr e)) | Inr _ \<Rightarrow> Some (Inr s))
                 })
            })))"

definition init_restore ::
    "('t::linorder, 'a, 'f, 'p, 'w, 'c, 'k) sim_env \<Rightarrow> ('t, 'p, 'w) model_io \<Rightarrow> bincode \<Rightarrow> 't state_codec
      \<Rightarrow> bytes \<Rightarrow> ('t, 'a, 'f, 'p, 'w, 'c, 'k, 's) sim_init
      \<Rightarrow> (('t, 'p) simulation_error + ('t, 'a, 'f, 'p, 'w, 'c, 'k) simulation) exec" where
  "init_restore E io B C state st0 =
     (let st = st0\<lparr>in_resumed := True\<rparr> in do {
        (res, s) \<leftarrow> restore E io B C state (init_build st);
        (case res of
           Inl e \<Rightarrow> Some (Inl (ExecutionErr e))
         | Inr restored_time \<Rightarrow>
             (let s = write_time restored_time s;
                  (status, clock, calls, w) = en_synchronize E (sim_time s) (si_clock s) (si_sched s) (si_world s) in
              (case sync_lost status (si_tolerance s) of
                 Some lag \<Rightarrow> Some (Inl (ExecutionErr (OutOfSyncError lag)))
               | None \<Rightarrow>
                   (let s = (env_calls (en_tai E) calls s)\<lparr>si_clock := clock, si_world := w\<rparr> in do {
                      (res, s) \<leftarrow> run_callback (in_post_restore st) s;
                      (case res of Inl e \<Rightarrow> Some (Inl e) | Inr _ \<Rightarrow> Some (Inr s))
                    }))))
      })"

subsection \<open>Registered models\<close>

text \<open>The path of the model that is registered first when a prototype is added.\<close>

fun first_path :: "('e, 'm) proto_model \<Rightarrow> path \<Rightarrow> path"
  and first_sub :: "('e, 'm) build_call list \<Rightarrow> path \<Rightarrow> path" where
  "first_path (Proto schedulables calls m) path = first_sub calls path"
| "first_sub [] path = path"
| "first_sub (RegisterSchedulable func # calls) path = first_sub calls path"
| "first_sub (AddSubmodel sub mailbox name # calls) path = first_path sub (path @ [name])"

fun has_submodel :: "('e, 'm) build_call list \<Rightarrow> bool" where
  "has_submodel [] = False"
| "has_submodel (RegisterSchedulable func # calls) = has_submodel calls"
| "has_submodel (AddSubmodel sub mailbox name # calls) = True"

lemma first_path_length:
  fixes p :: "('e, 'm) proto_model" and calls :: "('e, 'm) build_call list"
  shows "length path \<le> length (first_path p path)"
  "length path \<le> length (first_sub calls path)"
proof (induction p path and calls path rule: first_path_first_sub.induct)
  case (4 sub mailbox name calls path)
  then show ?case by simp
qed auto

lemma first_sub_self: "first_sub calls path = path \<longleftrightarrow> \<not> has_submodel calls"
proof (induction calls rule: has_submodel.induct)
  case (3 sub mailbox name calls)
  show ?case
    using first_path_length(1) [of "path @ [name]" sub] by auto
qed auto

definition grows :: "('a, 'f, 't, 'p) bench \<Rightarrow> ('a, 'f, 't, 'p) bench \<Rightarrow> bool" where
  "grows b b' \<longleftrightarrow>
     (\<exists>xs. event_registry (be_registry b') = event_registry (be_registry b) @ xs) \<and>
     query_registry (be_registry b') = query_registry (be_registry b) \<and>
     (\<exists>ms. be_models b' = be_models b @ ms) \<and>
     (\<exists>fs. be_spawned b' = be_spawned b @ fs)"

lemma grows_refl [simp]: "grows b b"
  by (simp add: grows_def)

lemma grows_trans [trans]: "grows b b' \<Longrightarrow> grows b' b'' \<Longrightarrow> grows b b''"
  by (auto simp: grows_def)

lemma register_schedulable_ok:
  assumes "register_schedulable func address r = Some (sid, r')"
  shows "length (event_registry r) \<le> max_source_id" "sid = word_of_nat (length (event_registry r))"
    "r' = r\<lparr>event_registry := event_registry r @ [func address]\<rparr>"
  using assms by (auto simp: register_schedulable_def add_event_source_def split: if_splits)

lemma register_schedulables_ok:
  "register_schedulables funcs address (reg, r) = Some (reg', r') \<Longrightarrow>
     (funcs \<noteq> [] \<longrightarrow> length (event_registry r) + length funcs \<le> Suc max_source_id) \<and>
     reg' = reg @ map (\<lambda>i. word_of_nat (length (event_registry r) + i)) [0..<length funcs] \<and>
     r' = r\<lparr>event_registry := event_registry r @ map (\<lambda>f. f address) funcs\<rparr>"
proof (induction funcs address "(reg, r)" arbitrary: reg r rule: register_schedulables.induct)
  case (2 func funcs address reg r)
  then obtain sid r1 where s: "register_schedulable func address r = Some (sid, r1)"
    and rest: "register_schedulables funcs address (model_registry_add sid reg, r1) = Some (reg', r')"
    by (auto simp: bind_eq_Some_conv)
  note f = register_schedulable_ok [OF s]
  have shift: "map (\<lambda>i. word_of_nat (length (event_registry r) + i)) [0..<Suc (length funcs)] =
    (word_of_nat (length (event_registry r)) :: 64 word) #
      map (\<lambda>i. word_of_nat (length (event_registry r1) + i)) [0..<length funcs]"
    using f(3) by (simp add: upt_conv_Cons map_Suc_upt [symmetric] del: upt_Suc)
  show ?case
    using 2(1) [OF s refl rest] f shift
    by (auto simp: model_registry_add_def simp del: upt_Suc)
qed simp

lemma add_model_models:
  fixes p :: "(nat \<Rightarrow> ('a, 'f, 't, 'p) event_source, 'f model_impl) proto_model"
    and calls :: "(nat \<Rightarrow> ('a, 'f, 't, 'p) event_source, 'f model_impl) build_call list"
  shows "add_model p mailbox path b = Some b' \<Longrightarrow>
      grows b b' \<and> (\<exists>ms. be_models b' = be_models b @ ms \<and> ms \<noteq> [] \<and> rm_path (hd ms) = first_path p path)"
    and "build calls mailbox' path' c = Some c' \<Longrightarrow>
      grows c c' \<and> (\<exists>ms. be_models c' = be_models c @ ms \<and>
        (if ms = [] then first_sub calls path' = path' else rm_path (hd ms) = first_sub calls path'))"
proof (induction p mailbox path b and calls mailbox' path' c arbitrary: b' and c' rule: add_model_build.induct)
  case (1 schedulables calls m mailbox path b)
  then obtain i reg r b1 where i: "model_id_new (length (be_models b)) = Some i"
    and reg: "register_schedulables schedulables mailbox ([], be_registry b) = Some (reg, r)"
    and b1: "build calls mailbox path (b\<lparr>be_registry := r\<rparr>) = Some b1"
    and b': "b' = b1\<lparr>be_models := be_models b1 @ [registered_model_new m path],
      be_spawned := be_spawned b1 @ [[mi_task m i path \<lparr>cx_origin_id = i, cx_model_registry = reg\<rparr>]]\<rparr>"
    by (auto simp: bind_eq_Some_conv)
  have "grows b (b\<lparr>be_registry := r\<rparr>)"
    using register_schedulables_ok [OF reg] by (auto simp: grows_def)
  moreover obtain ms where "grows (b\<lparr>be_registry := r\<rparr>) b1" and ms: "be_models b1 = be_models b @ ms"
      "if ms = [] then first_sub calls path = path else rm_path (hd ms) = first_sub calls path"
    using 1(1) [OF i reg refl b1] by auto
  moreover have "grows b1 b'"
    by (auto simp: b' grows_def)
  ultimately have "grows b b'"
    by (blast intro: grows_trans)
  moreover have "rm_path (hd (ms @ [registered_model_new m path])) = first_sub calls path"
    using ms(2) by (auto simp: registered_model_new_def split: if_splits)
  ultimately show ?case
    by (auto simp: b' ms(1) intro!: exI [of _ "ms @ [registered_model_new m path]"])
next
  case (2 mailbox path b)
  then show ?case by simp
next
  case (3 func calls mailbox path b)
  then obtain sid r where s: "register_schedulable func mailbox (be_registry b) = Some (sid, r)"
    and rest: "build calls mailbox path (b\<lparr>be_registry := r\<rparr>) = Some c'"
    by (auto simp: bind_eq_Some_conv)
  have "grows b (b\<lparr>be_registry := r\<rparr>)"
    using register_schedulable_ok [OF s] by (auto simp: grows_def)
  moreover note IH = 3(1) [OF s refl rest]
  ultimately have "grows b c'"
    using grows_trans by blast
  moreover have "be_models (b\<lparr>be_registry := r\<rparr>) = be_models b" by simp
  ultimately show ?case
    using conjunct2 [OF IH] by (simp only: first_sub.simps)
next
  case (4 sub sub_mailbox name calls mailbox path b)
  then obtain b1 where b1: "add_model sub sub_mailbox (path_join path (path_from_str name)) b = Some b1"
    and rest: "build calls mailbox path b1 = Some c'"
    by (auto simp: bind_eq_Some_conv)
  obtain ms where ms: "be_models b1 = be_models b @ ms" "ms \<noteq> []" "rm_path (hd ms) = first_path sub (path @ [name])"
    using 4(1) [OF b1] by (auto simp: path_join_def path_from_str_def)
  moreover obtain ns where "be_models c' = be_models b1 @ ns"
    using 4(2) [OF b1 rest] by auto
  moreover have "grows b c'"
    by (rule grows_trans [OF conjunct1 [OF 4(1) [OF b1]] conjunct1 [OF 4(2) [OF b1 rest]]])
  ultimately show ?case
    by (auto intro!: exI [of _ "ms @ ns"])
qed

text \<open>What adding a model leaves: the last spawned task runs the model with the identifier that was
  free before, and the identifier denotes the first model registered on its behalf.\<close>

lemma add_model_task:
  assumes "add_model (Proto schedulables calls m) mailbox path b = Some b'"
  obtains cx where "last (be_spawned b') = [mi_task m (length (be_models b)) path cx]"
    "cx_origin_id cx = length (be_models b)" "length (be_models b) \<noteq> usize_max"
    "length (be_models b) < length (be_models b')"
    "rm_path (be_models b' ! length (be_models b)) = first_sub calls path"
    "\<And>i. i < length schedulables \<Longrightarrow> i \<le> max_source_id \<and> i < length (cx_model_registry cx) \<and>
      get_event_source (unat (cx_model_registry cx ! i)) (be_registry b') = Some ((schedulables ! i) mailbox)"
proof -
  obtain i reg r b1 where i: "model_id_new (length (be_models b)) = Some i"
    and reg: "register_schedulables schedulables mailbox ([], be_registry b) = Some (reg, r)"
    and b1: "build calls mailbox path (b\<lparr>be_registry := r\<rparr>) = Some b1"
    and b': "b' = b1\<lparr>be_models := be_models b1 @ [registered_model_new m path],
      be_spawned := be_spawned b1 @ [[mi_task m i path \<lparr>cx_origin_id = i, cx_model_registry = reg\<rparr>]]\<rparr>"
    using assms by (auto simp: bind_eq_Some_conv)
  let ?cx = "\<lparr>cx_origin_id = i, cx_model_registry = reg\<rparr>"
  let ?n = "length (event_registry (be_registry b))"
  have id: "i = length (be_models b)" "length (be_models b) \<noteq> usize_max"
    using i by (auto simp: model_id_new_def split: if_splits)
  obtain ms where ms: "be_models b' = be_models b @ ms" "ms \<noteq> []" "rm_path (hd ms) = first_sub calls path"
    using add_model_models(1) [OF assms] by auto
  note rs = register_schedulables_ok [OF reg]
  obtain xs where xs: "event_registry (be_registry b1) = event_registry r @ xs"
    using add_model_models(2) [OF b1] by (auto simp: grows_def)
  show thesis
  proof (rule that [of ?cx])
    fix j assume j: "j < length schedulables"
    then have bound: "?n + length schedulables \<le> Suc max_source_id" using rs by auto
    then have "?n + j < 2 ^ 64" using j by (simp add: max_source_id_def)
    then have "unat (word_of_nat (?n + j) :: 64 word) = ?n + j" by (simp add: unat_of_nat del: of_nat_add)
    moreover have "reg ! j = word_of_nat (?n + j)" using rs j by simp
    ultimately have "unat (reg ! j) = ?n + j" by (simp only:)
    then show "j \<le> max_source_id \<and> j < length (cx_model_registry ?cx) \<and>
      get_event_source (unat (cx_model_registry ?cx ! j)) (be_registry b') = Some ((schedulables ! j) mailbox)"
      using j rs xs bound by (auto simp: b' get_event_source_def nth_append)
  qed (use id ms in \<open>auto simp: b' nth_append hd_conv_nth\<close>)
qed

subsection \<open>Models in error reports\<close>

text \<open>C23: The path in the report of a panic. The task of a model runs under the identifier
  that was free when the model was added, and a panic under that identifier is reported with
  the path of the first model that was registered on its behalf: its own path exactly when
  it adds no submodel, and otherwise the path of a submodel.\<close>

theorem panic_path:
  assumes "add_model (Proto schedulables calls m) mailbox path b = Some b'"
    and "si_models s = be_models b' @ ms" "\<not> en_is_send_error E payload"
  shows "(\<exists>cx. last (be_spawned b') = [mi_task m (length (be_models b)) path cx]) \<and>
    executor_error_result E s (ExecutorPanic (length (be_models b)) payload) =
      Some (PanicError (first_sub calls path) payload) \<and>
    (first_sub calls path = path \<longleftrightarrow> \<not> has_submodel calls)"
proof -
  from add_model_task [OF assms(1)] obtain cx where
    cx: "last (be_spawned b') = [mi_task m (length (be_models b)) path cx]"
    and n: "length (be_models b) \<noteq> usize_max" "length (be_models b) < length (be_models b')"
    and p: "rm_path (be_models b' ! length (be_models b)) = first_sub calls path"
    by metis
  have "executor_error_result E s (ExecutorPanic (length (be_models b)) payload) =
      Some (PanicError (first_sub calls path) payload)"
    using n p assms(2,3) by (simp add: executor_error_result_def model_id_get_def vec_get_def nth_append)
  with cx first_sub_self show ?thesis by blast
qed

definition leaf_model :: "nat model_impl" where
  "leaf_model = \<lparr>mi_task = (\<lambda>i path cx. i), mi_serialize = (\<lambda>path. 0), mi_deserialize = (\<lambda>path b. 0)\<rparr>"

definition car :: "(nat \<Rightarrow> (nat, nat, int, unit) event_source, nat model_impl) proto_model" where
  "car = Proto [] [AddSubmodel (Proto [] [] leaf_model) 1 ''motor''] leaf_model"

definition empty_bench :: "('a, 'f, 't, 'p) bench" where
  "empty_bench = \<lparr>be_registry = \<lparr>event_registry = [], query_registry = []\<rparr>, be_models = [], be_spawned = []\<rparr>"

definition still_env :: "(nat \<Rightarrow> nat) \<Rightarrow> (int, nat, nat, unit, unit, unit, unit) sim_env" where
  "still_env len = \<lparr>
     en_tai = ns_tai 100,
     en_next_tick = (\<lambda>_ _. None),
     en_synchronize = (\<lambda>t c s w. (no_clock_synchronize t, c, [], w)),
     en_run = (\<lambda>d fs s w. (None, [], w)),
     en_unlocked = (\<lambda>s w. []),
     en_mailbox_len = (\<lambda>w i. len i),
     en_is_send_error = (\<lambda>p. False),
     en_reply = (\<lambda>w i. None)\<rparr>"

definition new_init :: "(int, nat, nat, unit, unit, unit, unit, nat) sim_init" where
  "new_init = with_num_threads 0 () () 4"

definition lamp_input :: "nat \<Rightarrow> nat \<Rightarrow> (nat, nat, int, unit) event_source" where
  "lamp_input c address = input_source byte_arg (\<lambda>v key. v + c * address)"

lemma usize_max_pos [simp]: "usize_max \<noteq> 0" "0 \<noteq> usize_max"
  by (simp_all add: usize_max_def)

lemma add_car:
  "\<exists>b. add_model car 0 [''car''] empty_bench = Some b \<and> length (be_models b) = 2"
  by (simp add: car_def empty_bench_def model_id_new_def path_join_def path_from_str_def)

theorem panic_path_witness:
  "\<exists>b s. add_model car 0 [''car''] empty_bench = Some b \<and>
    executor_error_result (still_env (\<lambda>_. 0)) s (ExecutorPanic 0 ()) = Some (PanicError [''car'', ''motor''] ())"
proof -
  obtain b where b: "add_model car 0 [''car''] empty_bench = Some b" using add_car by blast
  let ?s = "(init_build new_init)\<lparr>si_models := be_models b\<rparr>"
  have "executor_error_result (still_env (\<lambda>_. 0)) ?s (ExecutorPanic (length (be_models (empty_bench :: (nat, nat, int, unit) bench))) ()) =
    Some (PanicError (first_sub [AddSubmodel (Proto [] [] leaf_model :: (nat \<Rightarrow> (nat, nat, int, unit) event_source, nat model_impl) proto_model) 1 ''motor''] [''car'']) ())"
    using panic_path [OF b [unfolded car_def], of ?s "[]" "still_env (\<lambda>_. 0)" "()"] by (simp add: still_env_def)
  with b show ?thesis by (auto simp: empty_bench_def)
qed

text \<open>C24: Only the mailboxes of the models that are added to the builder itself are observed. When
  they are all empty, messages that are left in the mailbox of a submodel are reported as
  lost messages, not as a deadlock.\<close>

theorem deadlock_scope:
  assumes "init_add_model model mailbox name st = Some st'"
    and "\<forall>(path, ob) \<in> set (in_observers st). en_mailbox_len E (in_world st) ob = 0"
    and "en_mailbox_len E (in_world st) mailbox = 0"
  shows "executor_error_result E (init_build st') (UnprocessedMessages n) = Some (MessageLoss n)"
proof -
  have "in_observers st' = in_observers st @ [(path_from_str name, mailbox)]" "in_world st' = in_world st"
    using assms(1) by (auto simp: init_add_model_def Let_def bind_eq_Some_conv)
  with assms(2,3) show ?thesis
    by (auto simp: executor_error_result_def deadlock_infos_def init_build_def filter_empty_conv)
qed

theorem deadlock_scope_witness:
  "\<exists>st'. init_add_model car 0 ''car'' new_init = Some st' \<and>
     en_mailbox_len (still_env (\<lambda>i. if i = 1 then 3 else 0)) () 1 = 3 \<and>
     executor_error_result (still_env (\<lambda>i. if i = 1 then 3 else 0)) (init_build st') (UnprocessedMessages 3) = Some (MessageLoss 3)"
proof -
  have "add_model car 0 [''car''] (in_bench new_init) \<noteq> None"
    using add_car by (auto simp: new_init_def with_num_threads_def empty_bench_def)
  then obtain st' where st': "init_add_model car 0 ''car'' new_init = Some st'"
    by (auto simp: init_add_model_def Let_def path_from_str_def new_init_def with_num_threads_def)
  from deadlock_scope [OF st', of "still_env (\<lambda>i. if i = 1 then 3 else 0)" 3] st' show ?thesis
    by (auto simp: new_init_def with_num_threads_def still_env_def)
qed

text \<open>A decorated input. The identifier that the macro makes for the input of index \<open>i\<close>, resolved
  with the registry in the context of the model, denotes the event source of that input at the
  address of the model, in the scheduler registry and for as long as it grows.\<close>

lemma decorated_input_resolves:
  assumes "add_model (Proto schedulables calls m) mailbox path b = Some b'" "grows b' b''" "i < length schedulables"
  shows "\<exists>cx sid. last (be_spawned b') = [mi_task m (length (be_models b)) path cx] \<and>
    source_id (from_decorated (word_of_nat i)) (cx_model_registry cx) = Some sid \<and>
    get_event_source (unat sid) (be_registry b'') = Some ((schedulables ! i) mailbox)"
proof -
  from add_model_task [OF assms(1)] obtain cx where
    cx: "last (be_spawned b') = [mi_task m (length (be_models b)) path cx]"
    and i: "i \<le> max_source_id" "i < length (cx_model_registry cx)"
    and src: "get_event_source (unat (cx_model_registry cx ! i)) (be_registry b') = Some ((schedulables ! i) mailbox)"
    using assms(3) by metis
  have "unat (word_of_nat i :: 64 word) = i"
    using i(1) by (simp add: unat_of_nat max_source_id_def)
  then have "source_id (from_decorated (word_of_nat i)) (cx_model_registry cx) = Some (cx_model_registry cx ! i)"
    using source_id_resolves [of "word_of_nat i"] i by simp
  moreover have "get_event_source (unat (cx_model_registry cx ! i)) (be_registry b'') = Some ((schedulables ! i) mailbox)"
    using src assms(2) by (auto simp: get_event_source_def grows_def nth_append split: if_splits)
  ultimately show ?thesis using cx by blast
qed

subsection \<open>Sequences of builder calls\<close>

datatype ('t, 'a, 'f, 'p, 'c, 'k, 's) builder_call =
    BcClock 'c 'k
  | BcTickless 'c
  | BcTolerance duration
  | BcTimeout duration
  | BcLinkEvent "('a, 'f, 't, 'p) event_source"
  | BcLinkQuery "('a, 'f, 't, 'p) query_source"
  | BcModel "(nat \<Rightarrow> ('a, 'f, 't, 'p) event_source, 'f model_impl) proto_model" nat string
  | BcEvent "'a rust_type" "('a, 'f, 't, 'p) event_source" path
  | BcEventRaw "'a rust_type" "('a, 'f, 't, 'p) event_source" path
  | BcQuery "'a rust_type" "'a rust_type" "('a, 'f, 't, 'p) query_source" path
  | BcQueryRaw "'a rust_type" "'a rust_type" "('a, 'f, 't, 'p) query_source" path
  | BcSink "'a rust_type" "('s, 'a) sink_ops" 's path
  | BcSinkRaw "'a rust_type" "('s, 'a) sink_ops" 's path

fun builder_exec ::
    "('t, 'a, 'f, 'p, 'c, 'k, 's) builder_call \<Rightarrow> ('t, 'a, 'f, 'p, 'w, 'c, 'k, 's) sim_init
      \<Rightarrow> ('t, 'a, 'f, 'p, 'w, 'c, 'k, 's) sim_init exec" where
  "builder_exec (BcClock clock ticker) st = Some (init_with_clock clock ticker st)"
| "builder_exec (BcTickless clock) st = Some (init_with_tickless_clock clock st)"
| "builder_exec (BcTolerance d) st = Some (with_clock_tolerance d st)"
| "builder_exec (BcTimeout d) st = Some (init_with_timeout d st)"
| "builder_exec (BcLinkEvent s) st = map_option snd (link_event_source s st)"
| "builder_exec (BcLinkQuery s) st = map_option snd (link_query_source s st)"
| "builder_exec (BcModel model mailbox name) st = init_add_model model mailbox name st"
| "builder_exec (BcEvent T s p) st = map_option snd (bind_event_source T s p st)"
| "builder_exec (BcEventRaw T s p) st = map_option snd (bind_event_source_raw T s p st)"
| "builder_exec (BcQuery T R s p) st = map_option snd (bind_query_source T R s p st)"
| "builder_exec (BcQueryRaw T R s p) st = map_option snd (bind_query_source_raw T R s p st)"
| "builder_exec (BcSink T ops sink p) st = Some (snd (bind_event_sink T ops sink p st))"
| "builder_exec (BcSinkRaw T ops sink p) st = Some (snd (bind_event_sink_raw T ops sink p st))"

fun builder_run ::
    "('t, 'a, 'f, 'p, 'c, 'k, 's) builder_call list \<Rightarrow> ('t, 'a, 'f, 'p, 'w, 'c, 'k, 's) sim_init
      \<Rightarrow> ('t, 'a, 'f, 'p, 'w, 'c, 'k, 's) sim_init exec" where
  "builder_run [] st = Some st"
| "builder_run (c # cs) st = do { st' \<leftarrow> builder_exec c st; builder_run cs st' }"

text \<open>What the calls bind, in order.\<close>

fun event_binds ::
    "('t, 'a, 'f, 'p, 'c, 'k, 's) builder_call list
      \<Rightarrow> (path \<times> 'a rust_type \<times> ('a, 'f, 't, 'p) event_source \<times> (unit \<Rightarrow> string)) list" where
  "event_binds [] = []"
| "event_binds (BcEvent T s p # cs) = (p, T, s, \<lambda>_. ty_schema T) # event_binds cs"
| "event_binds (BcEventRaw T s p # cs) = (p, T, s, \<lambda>_. []) # event_binds cs"
| "event_binds (c # cs) = event_binds cs"

fun query_binds ::
    "('t, 'a, 'f, 'p, 'c, 'k, 's) builder_call list
      \<Rightarrow> (path \<times> ('a rust_type \<times> 'a rust_type) \<times> ('a, 'f, 't, 'p) query_source \<times> (unit \<Rightarrow> string \<times> string)) list" where
  "query_binds [] = []"
| "query_binds (BcQuery T R s p # cs) = (p, (T, R), s, \<lambda>_. (ty_schema T, ty_schema R)) # query_binds cs"
| "query_binds (BcQueryRaw T R s p # cs) = (p, (T, R), s, \<lambda>_. ([], [])) # query_binds cs"
| "query_binds (c # cs) = query_binds cs"

fun sink_binds ::
    "('t, 'a, 'f, 'p, 'c, 'k, 's) builder_call list
      \<Rightarrow> (path \<times> ('s, 'a) event_sink_entry option \<times> (unit \<Rightarrow> string)) list" where
  "sink_binds [] = []"
| "sink_binds (BcSink T ops sink p # cs) =
     (p, Some \<lparr>ke_sink = sink, ke_ops = ops, ke_type = T\<rparr>, \<lambda>_. ty_schema T) # sink_binds cs"
| "sink_binds (BcSinkRaw T ops sink p # cs) =
     (p, Some \<lparr>ke_sink = sink, ke_ops = ops, ke_type = T\<rparr>, \<lambda>_. []) # sink_binds cs"
| "sink_binds (c # cs) = sink_binds cs"

definition in_events ::
    "('t, 'a, 'f, 'p, 'w, 'c, 'k, 's) sim_init \<Rightarrow> 'a event_source_registry \<times> ('a, 'f, 't, 'p) registry" where
  "in_events st = (en_event_sources (in_endpoints st), be_registry (in_bench st))"

definition in_queries ::
    "('t, 'a, 'f, 'p, 'w, 'c, 'k, 's) sim_init \<Rightarrow> 'a query_source_registry \<times> ('a, 'f, 't, 'p) registry" where
  "in_queries st = (en_query_sources (in_endpoints st), be_registry (in_bench st))"

definition in_sinks ::
    "('t, 'a, 'f, 'p, 'w, 'c, 'k, 's) sim_init \<Rightarrow> ('s, 'a) event_sink_registry \<times> sink_info_registry" where
  "in_sinks st = (en_sinks (in_endpoints st), en_sink_infos (in_endpoints st))"

definition init_inv :: "('t::linorder, 'a, 'f, 'p, 'w, 'c, 'k, 's) sim_init \<Rightarrow> bool" where
  "init_inv st \<longleftrightarrow> esr_inv (in_events st) \<and> qsr_inv (in_queries st) \<and> sink_inv (in_sinks st) \<and>
     sd_queue (in_sched st) = pq_new \<and> in_injector st = pq_new \<and> in_post_init st = None"

text \<open>Sources that are added behind the bound ones do not change what a path denotes.\<close>

lemma esr_grow:
  assumes "esr_inv (esr, g)" "event_registry g' = event_registry g @ xs"
  shows "esr_inv (esr, g')" "esr_lookup (esr, g') = esr_lookup (esr, g)"
proof -
  have b: "map_of esr p = Some en \<Longrightarrow> ee_inner en < length (event_registry g)" for p en
    using assms(1) by (auto simp: esr_inv_def)
  show "esr_inv (esr, g')"
    using assms by (auto simp: esr_inv_def dest: b intro: trans_less_add1)
  show "esr_lookup (esr, g') = esr_lookup (esr, g)"
  proof
    fix p show "esr_lookup (esr, g') p = esr_lookup (esr, g) p"
      using b [of p] assms(2) by (cases "map_of esr p") (auto simp: esr_lookup_def nth_append)
  qed
qed

lemma qsr_grow:
  assumes "qsr_inv (qsr, g)" "query_registry g' = query_registry g @ xs"
  shows "qsr_inv (qsr, g')" "qsr_lookup (qsr, g') = qsr_lookup (qsr, g)"
proof -
  have b: "map_of qsr p = Some en \<Longrightarrow> qe_inner en < length (query_registry g)" for p en
    using assms(1) by (auto simp: qsr_inv_def)
  show "qsr_inv (qsr, g')"
    using assms by (auto simp: qsr_inv_def dest: b intro: trans_less_add1)
  show "qsr_lookup (qsr, g') = qsr_lookup (qsr, g)"
  proof
    fix p show "qsr_lookup (qsr, g') p = qsr_lookup (qsr, g) p"
      using b [of p] assms(2) by (cases "map_of qsr p") (auto simp: qsr_lookup_def nth_append)
  qed
qed

text \<open>A successful attempt to bind, whatever its result.\<close>

lemma esr_add_any_ok:
  assumes "esr_inv st" "esr_add_any T s p gen st = Some (res, st')"
  shows "esr_inv st' \<and> esr_lookup st' = bound_first (esr_lookup st) p (T, s, gen) \<and>
    query_registry (snd st') = query_registry (snd st)"
proof (cases "esr_lookup st p")
  case None
  then have "esr_room (Suc 0) st"
    using assms(2) by (auto simp: esr_room_def esr_add_any_def esr_lookup_def add_event_source_def split: prod.splits if_splits)
  from esr_add_any_new [OF assms(1) this None, of T s gen] assms(2) None show ?thesis
    by (auto simp: bound_first_def)
next
  case (Some e)
  with assms esr_add_any_used [of st p T s gen] show ?thesis by (simp add: bound_first_def)
qed

lemma qsr_add_any_ok:
  assumes "qsr_inv st" "qsr_add_any T R s p gen st = Some (res, st')"
  shows "qsr_inv st' \<and> qsr_lookup st' = bound_first (qsr_lookup st) p ((T, R), s, gen) \<and>
    event_registry (snd st') = event_registry (snd st)"
proof (cases "qsr_lookup st p")
  case None
  then have "qsr_room (Suc 0) st"
    using assms(2) by (auto simp: qsr_room_def qsr_add_any_def qsr_lookup_def add_query_source_def split: prod.splits if_splits)
  from qsr_add_any_new [OF assms(1) this None, of T R s gen] assms(2) None show ?thesis
    by (auto simp: bound_first_def)
next
  case (Some e)
  with assms qsr_add_any_used [of st p T R s gen] show ?thesis by (simp add: bound_first_def)
qed

text \<open>Binding one entry after the other.\<close>

definition bound_all :: "('p \<rightharpoonup> 'e) \<Rightarrow> ('p \<times> 'e) list \<Rightarrow> ('p \<rightharpoonup> 'e)" where
  "bound_all m bs = foldl (\<lambda>m (p, e). bound_first m p e) m bs"

lemma bound_all_simps [simp]:
  "bound_all m [] = m" "bound_all m ((p, e) # bs) = bound_all (bound_first m p e) bs"
  "bound_all m (bs @ cs) = bound_all (bound_all m bs) cs"
  by (simp_all add: bound_all_def)

lemma bound_all_eq: "bound_all m bs = (\<lambda>p. case m p of None \<Rightarrow> map_of bs p | Some e \<Rightarrow> Some e)"
proof (induction bs arbitrary: m)
  case Nil
  then show ?case by (auto split: option.splits)
next
  case (Cons b bs)
  obtain p e where b: "b = (p, e)" by (cases b)
  show ?case
    by (cases "m p") (auto simp: b Cons.IH bound_first_def fun_eq_iff split: option.splits)
qed

lemma binds_Cons:
  "event_binds (c # cs) = event_binds [c] @ event_binds cs"
  "query_binds (c # cs) = query_binds [c] @ query_binds cs"
  "sink_binds (c # cs) = sink_binds [c] @ sink_binds cs"
  by (cases c; simp)+

text \<open>The invariant and the bindings after a call.\<close>

definition bind_step ::
    "('t::linorder, 'a, 'f, 'p, 'c, 'k, 's) builder_call \<Rightarrow> ('t, 'a, 'f, 'p, 'w, 'c, 'k, 's) sim_init
      \<Rightarrow> ('t, 'a, 'f, 'p, 'w, 'c, 'k, 's) sim_init \<Rightarrow> bool" where
  "bind_step c st st' \<longleftrightarrow> init_inv st' \<and>
     esr_lookup (in_events st') = bound_all (esr_lookup (in_events st)) (event_binds [c]) \<and>
     qsr_lookup (in_queries st') = bound_all (qsr_lookup (in_queries st)) (query_binds [c]) \<and>
     sink_lookup (in_sinks st') = bound_all (sink_lookup (in_sinks st)) (sink_binds [c])"

lemma bind_step_grow:
  assumes "init_inv st" "event_binds [c] = []" "query_binds [c] = []" "sink_binds [c] = []"
    and "in_endpoints st' = in_endpoints st" "sd_queue (in_sched st') = sd_queue (in_sched st)"
    "in_injector st' = in_injector st" "in_post_init st' = in_post_init st"
    and "event_registry (be_registry (in_bench st')) = event_registry (be_registry (in_bench st)) @ xs"
    and "query_registry (be_registry (in_bench st')) = query_registry (be_registry (in_bench st)) @ ys"
  shows "bind_step c st st'"
proof -
  note e = esr_grow [OF _ assms(9), of "en_event_sources (in_endpoints st)"]
  note q = qsr_grow [OF _ assms(10), of "en_query_sources (in_endpoints st)"]
  show ?thesis
    using assms e q by (simp add: bind_step_def init_inv_def in_events_def in_queries_def in_sinks_def)
qed

lemma bind_step_event:
  assumes "init_inv st" "event_binds [c] = [(p, T, s, gen)]" "query_binds [c] = []" "sink_binds [c] = []"
    and "esr_add_any T s p gen (in_events st) = Some (res, er)"
  shows "bind_step c st (with_event_sources er st)"
proof -
  have inv: "esr_inv (in_events st)" "qsr_inv (in_queries st)" using assms(1) by (auto simp: init_inv_def)
  note a = esr_add_any_ok [OF inv(1) assms(5)]
  have "query_registry (snd er) = query_registry (be_registry (in_bench st)) @ []"
    using a by (simp add: in_events_def)
  note q = qsr_grow [OF inv(2) [unfolded in_queries_def] this]
  show ?thesis
    using assms(1-4) a q by (simp add: bind_step_def init_inv_def in_events_def in_queries_def in_sinks_def with_event_sources_def)
qed

lemma bind_step_query:
  assumes "init_inv st" "event_binds [c] = []" "query_binds [c] = [(p, (T, R), s, gen)]" "sink_binds [c] = []"
    and "qsr_add_any T R s p gen (in_queries st) = Some (res, qr)"
  shows "bind_step c st (with_query_sources qr st)"
proof -
  have inv: "esr_inv (in_events st)" "qsr_inv (in_queries st)" using assms(1) by (auto simp: init_inv_def)
  note a = qsr_add_any_ok [OF inv(2) assms(5)]
  have "event_registry (snd qr) = event_registry (be_registry (in_bench st)) @ []"
    using a by (simp add: in_queries_def)
  note e = esr_grow [OF inv(1) [unfolded in_events_def] this]
  show ?thesis
    using assms(1-4) a e by (simp add: bind_step_def init_inv_def in_events_def in_queries_def in_sinks_def with_query_sources_def)
qed

lemma bind_step_sink:
  assumes "init_inv st" "event_binds [c] = []" "query_binds [c] = []" "sink_binds [c] = [(p, e)]"
    and "in_sinks st' = (case sink_store p e (in_sinks st) of None \<Rightarrow> in_sinks st | Some r \<Rightarrow> r)"
    and "in_events st' = in_events st" "in_queries st' = in_queries st" "in_sched st' = in_sched st"
    "in_injector st' = in_injector st" "in_post_init st' = in_post_init st"
  shows "bind_step c st st'"
  using assms sink.store_step [of "in_sinks st" p e] by (simp add: bind_step_def init_inv_def)

lemma bind_event_sink_store:
  assumes "init_inv st"
  shows "in_sinks (snd (bind_event_sink T ops sink p st)) =
       (case sink_store p (Some \<lparr>ke_sink = sink, ke_ops = ops, ke_type = T\<rparr>, \<lambda>_. ty_schema T) (in_sinks st) of
          None \<Rightarrow> in_sinks st | Some r \<Rightarrow> r)"
    and "in_sinks (snd (bind_event_sink_raw T ops sink p st)) =
       (case sink_store p (Some \<lparr>ke_sink = sink, ke_ops = ops, ke_type = T\<rparr>, \<lambda>_. []) (in_sinks st) of
          None \<Rightarrow> in_sinks st | Some r \<Rightarrow> r)"
proof -
  have k: "map_of (en_sinks (in_endpoints st)) p = None \<longleftrightarrow> map_of (en_sink_infos (in_endpoints st)) p = None"
    using assms by (simp add: init_inv_def sink_inv_def in_sinks_def)
  note defs = in_sinks_def bind_event_sink_def bind_event_sink_raw_def sink_store_def
    kir_register_def kir_register_raw_def kir_register_any_def ksr_add_def Let_def
  show "in_sinks (snd (bind_event_sink T ops sink p st)) =
       (case sink_store p (Some \<lparr>ke_sink = sink, ke_ops = ops, ke_type = T\<rparr>, \<lambda>_. ty_schema T) (in_sinks st) of
          None \<Rightarrow> in_sinks st | Some r \<Rightarrow> r)"
    using k by (cases "map_of (en_sink_infos (in_endpoints st)) p") (simp_all add: defs)
  show "in_sinks (snd (bind_event_sink_raw T ops sink p st)) =
       (case sink_store p (Some \<lparr>ke_sink = sink, ke_ops = ops, ke_type = T\<rparr>, \<lambda>_. []) (in_sinks st) of
          None \<Rightarrow> in_sinks st | Some r \<Rightarrow> r)"
    using k by (cases "map_of (en_sink_infos (in_endpoints st)) p") (simp_all add: defs)
qed

lemma bind_event_sink_frame:
  "in_events (snd (bind_event_sink T ops sink p st)) = in_events st"
  "in_queries (snd (bind_event_sink T ops sink p st)) = in_queries st"
  "in_sched (snd (bind_event_sink T ops sink p st)) = in_sched st"
  "in_injector (snd (bind_event_sink T ops sink p st)) = in_injector st"
  "in_post_init (snd (bind_event_sink T ops sink p st)) = in_post_init st"
  "in_events (snd (bind_event_sink_raw T ops sink p st)) = in_events st"
  "in_queries (snd (bind_event_sink_raw T ops sink p st)) = in_queries st"
  "in_sched (snd (bind_event_sink_raw T ops sink p st)) = in_sched st"
  "in_injector (snd (bind_event_sink_raw T ops sink p st)) = in_injector st"
  "in_post_init (snd (bind_event_sink_raw T ops sink p st)) = in_post_init st"
  by (simp_all add: in_events_def in_queries_def bind_event_sink_def bind_event_sink_raw_def Let_def
      split: prod.splits sum.splits)

lemma builder_exec_step:
  assumes "init_inv st" "builder_exec c st = Some st'"
  shows "bind_step c st st'"
proof (cases c)
  case (BcModel model mailbox name)
  then obtain b where b: "add_model model mailbox (path_from_str name) (in_bench st) = Some b"
    and st': "st' = st\<lparr>in_observers := in_observers st @ [(path_from_str name, mailbox)], in_bench := b\<rparr>"
    using assms(2) by (auto simp: init_add_model_def Let_def bind_eq_Some_conv)
  obtain xs where "event_registry (be_registry b) = event_registry (be_registry (in_bench st)) @ xs"
    "query_registry (be_registry b) = query_registry (be_registry (in_bench st)) @ []"
    using add_model_models(1) [OF b] by (auto simp: grows_def)
  then show ?thesis
    using assms(1) by (intro bind_step_grow) (auto simp: BcModel st')
next
  case (BcLinkEvent s)
  then show ?thesis
    using assms
    by (intro bind_step_grow [of _ _ _ "[s]" "[]"])
      (auto simp: link_event_source_def add_event_source_def bind_eq_Some_conv split: if_splits)
next
  case (BcLinkQuery s)
  then show ?thesis
    using assms
    by (intro bind_step_grow [of _ _ _ "[]" "[s]"])
      (auto simp: link_query_source_def add_query_source_def bind_eq_Some_conv split: if_splits)
next
  case (BcEvent T s p)
  then obtain res er where "esr_add_any T s p (\<lambda>_. ty_schema T) (in_events st) = Some (res, er)" "st' = with_event_sources er st"
    using assms(2) by (auto simp: bind_event_source_def esr_add_def in_events_def bind_eq_Some_conv)
  then show ?thesis
    using bind_step_event [OF assms(1)] BcEvent by simp
next
  case (BcEventRaw T s p)
  then obtain res er where "esr_add_any T s p (\<lambda>_. []) (in_events st) = Some (res, er)" "st' = with_event_sources er st"
    using assms(2) by (auto simp: bind_event_source_raw_def esr_add_raw_def in_events_def bind_eq_Some_conv)
  then show ?thesis
    using bind_step_event [OF assms(1)] BcEventRaw by simp
next
  case (BcQuery T R s p)
  then obtain res qr where "qsr_add_any T R s p (\<lambda>_. (ty_schema T, ty_schema R)) (in_queries st) = Some (res, qr)"
      "st' = with_query_sources qr st"
    using assms(2) by (auto simp: bind_query_source_def qsr_add_def in_queries_def bind_eq_Some_conv)
  then show ?thesis
    using bind_step_query [OF assms(1)] BcQuery by simp
next
  case (BcQueryRaw T R s p)
  then obtain res qr where "qsr_add_any T R s p (\<lambda>_. ([], [])) (in_queries st) = Some (res, qr)"
      "st' = with_query_sources qr st"
    using assms(2) by (auto simp: bind_query_source_raw_def qsr_add_raw_def in_queries_def bind_eq_Some_conv)
  then show ?thesis
    using bind_step_query [OF assms(1)] BcQueryRaw by simp
next
  case (BcSink T ops sink p)
  then show ?thesis
    using assms bind_event_sink_store(1) [OF assms(1)]
    by (intro bind_step_sink) (auto simp: bind_event_sink_frame)
next
  case (BcSinkRaw T ops sink p)
  then show ?thesis
    using assms bind_event_sink_store(2) [OF assms(1)]
    by (intro bind_step_sink) (auto simp: bind_event_sink_frame)
qed (use assms in \<open>auto intro!: bind_step_grow [of _ _ _ "[]" "[]"]
      simp: init_with_clock_def init_with_tickless_clock_def with_clock_tolerance_def init_with_timeout_def\<close>)

lemma builder_run_step:
  "init_inv st \<Longrightarrow> builder_run cs st = Some st' \<Longrightarrow>
     init_inv st' \<and>
     esr_lookup (in_events st') = bound_all (esr_lookup (in_events st)) (event_binds cs) \<and>
     qsr_lookup (in_queries st') = bound_all (qsr_lookup (in_queries st)) (query_binds cs) \<and>
     sink_lookup (in_sinks st') = bound_all (sink_lookup (in_sinks st)) (sink_binds cs)"
proof (induction cs arbitrary: st)
  case (Cons c cs)
  then obtain st1 where st1: "builder_exec c st = Some st1" "builder_run cs st1 = Some st'"
    by (auto simp: bind_eq_Some_conv)
  note b = builder_exec_step [OF Cons.prems(1) st1(1), unfolded bind_step_def]
  from Cons.IH [OF conjunct1 [OF b] st1(2)] b show ?case
    by (simp add: binds_Cons [of c cs])
qed simp

lemma new_init_inv:
  "init_inv (with_num_threads epoch clock w n)"
  "esr_lookup (in_events (with_num_threads epoch clock w n)) = Map.empty"
  "qsr_lookup (in_queries (with_num_threads epoch clock w n)) = Map.empty"
  "sink_lookup (in_sinks (with_num_threads epoch clock w n)) = Map.empty"
  by (auto simp: init_inv_def with_num_threads_def in_events_def in_queries_def in_sinks_def endpoints_default_def
      esr_inv_def qsr_inv_def sink_inv_def esr_lookup_def qsr_lookup_def sink_lookup_def fun_eq_iff)

lemma built_lookup:
  assumes "builder_run cs (with_num_threads epoch clock w n) = Some st"
  shows "init_inv st" "esr_lookup (in_events st) = map_of (event_binds cs)"
    "qsr_lookup (in_queries st) = map_of (query_binds cs)" "sink_lookup (in_sinks st) = map_of (sink_binds cs)"
  using builder_run_step [OF new_init_inv(1) assms] by (simp_all add: new_init_inv bound_all_eq)

text \<open>C22: Typed identifiers. After any sequence of builder calls, asking the endpoint directory for the
  event source at a path gives, if the type asked for is that of the first source bound to the
  path, an identifier that denotes this source in the registry of the simulation, and an error that
  tells what is wrong otherwise. The same holds of query sources, with both types compared.\<close>

theorem source_ids_typed:
  assumes "builder_run cs (with_num_threads epoch clock w n) = Some st"
  shows "(case map_of (event_binds cs) p of
        None \<Rightarrow> get_event_source_id T p (fst (take_endpoints st)) = Inl (EventSourceNotFound p)
      | Some (U, s, gen) \<Rightarrow>
          if ty_id U = ty_id T
          then \<exists>i. get_event_source_id T p (fst (take_endpoints st)) = Inr i \<and>
            get_event_source i (si_registry (init_build st)) = Some s
          else get_event_source_id T p (fst (take_endpoints st)) =
            Inl (InvalidEventSourceType p (ty_name T) (ty_name U))) \<and>
    (case map_of (query_binds cs) p of
        None \<Rightarrow> get_query_source_id T R p (fst (take_endpoints st)) = Inl (QuerySourceNotFound p)
      | Some ((U, V), s, gen) \<Rightarrow>
          if ty_id U = ty_id T \<and> ty_id V = ty_id R
          then \<exists>i. get_query_source_id T R p (fst (take_endpoints st)) = Inr i \<and>
            get_query_source i (si_registry (init_build st)) = Some s
          else get_query_source_id T R p (fst (take_endpoints st)) =
            Inl (InvalidQuerySourceType p (ty_name T) (ty_name R) (ty_name U) (ty_name V)))"
proof -
  note b = built_lookup [OF assms]
  have "esr_inv (in_events st)" "qsr_inv (in_queries st)" using b(1) by (auto simp: init_inv_def)
  then have e: "esr_inv (en_event_sources (in_endpoints st), be_registry (in_bench st))"
    and q: "qsr_inv (en_query_sources (in_endpoints st), be_registry (in_bench st))"
    by (auto simp: in_events_def in_queries_def)
  note l = b(2) [unfolded in_events_def] b(3) [unfolded in_queries_def]
  note ge = esr_get_source_id_lookup [OF e, where p = p, unfolded l]
  note gq = qsr_get_source_id_lookup [OF q, where p = p, unfolded l]
  show ?thesis
    using ge gq
    by (auto simp: take_endpoints_def get_event_source_id_def get_query_source_id_def init_build_def
        split: option.splits)
qed

definition byte_type :: "nat rust_type" where
  "byte_type = \<lparr>ty_id = 1, ty_name = ''u8'', ty_schema = ''integer'',
     ty_from_cbor = (\<lambda>b. if b = [] then Inl ''empty'' else Inr (unat (hd b))),
     ty_to_cbor = (\<lambda>v. Inr [word_of_nat v])\<rparr>"

theorem source_ids_typed_witness:
  "\<exists>st i. builder_run [BcEvent byte_type (lamp_input 1 0) [''in''], BcEventRaw byte_type (lamp_input 2 0) [''in'']]
       (with_num_threads (0::int) () () 1 :: (int, nat, nat, unit, unit, unit, unit, nat) sim_init) = Some st \<and>
     get_event_source_id byte_type [''in''] (fst (take_endpoints st)) = Inr i \<and>
     get_event_source i (si_registry (init_build st)) = Some (lamp_input 1 0)"
proof -
  let ?cs = "[BcEvent byte_type (lamp_input 1 0) [''in''], BcEventRaw byte_type (lamp_input 2 0) [''in'']]
    :: (int, nat, nat, unit, unit, unit, nat) builder_call list"
  obtain st where st: "builder_run ?cs (with_num_threads (0::int) () () 1 :: (int, nat, nat, unit, unit, unit, unit, nat) sim_init) = Some st"
    by (simp add: bind_event_source_def bind_event_source_raw_def esr_add_def esr_add_raw_def esr_add_any_def
        add_event_source_def max_source_id_def with_num_threads_def endpoints_default_def with_event_sources_def)
  from source_ids_typed [OF st, where p = "[''in'']" and T = byte_type] st show ?thesis by auto
qed



end
