(* ===== verification/Server_Types.thy ===== *)
theory Server_Types
  imports Sim_Init
begin

text \<open>
  Model of the conversions and error codes of \<^verbatim>\<open>src/nexosim/src/server/services.rs\<close>, with the
  protobuf messages they read.

  \<^item> A timestamp or duration message has a signed 64-bit field for the seconds and a signed
    32-bit field for the nanoseconds; both are words here.
  \<^item> An error reply is its code; the texts of the replies are not modelled.
\<close>

subsection \<open>Messages\<close>

record timestamp =
  ts_seconds :: "64 word"
  ts_nanos :: "32 word"

record pb_duration =
  pd_seconds :: "64 word"
  pd_nanos :: "32 word"

datatype error_code =
    EcInternalError | EcMissingArgument | EcInvalidTime | EcInvalidPeriod | EcInvalidDeadline
  | EcInvalidMessage | EcInvalidKey | EcInvalidTimeout
  | EcBenchPanic | EcBenchError | EcBenchNotBuilt | EcDuplicateEventSource | EcDuplicateQuerySource
  | EcDuplicateEventSink | EcInvalidBenchConfig | EcBenchAlreadyBuilt
  | EcSimulationPanic | EcSimulationNotStarted | EcSimulationTerminated | EcSimulationDeadlock
  | EcSimulationMessageLoss | EcSimulationNoRecipient | EcSimulationTimeout | EcSimulationOutOfSync
  | EcSimulationBadQuery | EcSimulationTimeOutOfRange
  | EcEventSourceNotFound | EcQuerySourceNotFound | EcSinkNotFound | EcSinkTerminated | EcSinkReadRace
  | EcSinkReadTimeout | EcInvalidEventType | EcInvalidQueryType
  | EcSaveError | EcRestoreError

subsection \<open>Error codes\<close>

fun from_execution_error :: "('t, 'p) execution_error \<Rightarrow> error_code" where
  "from_execution_error (Deadlock _) = EcSimulationDeadlock"
| "from_execution_error (MessageLoss _) = EcSimulationMessageLoss"
| "from_execution_error (NoRecipient _) = EcSimulationNoRecipient"
| "from_execution_error (PanicError _ _) = EcSimulationPanic"
| "from_execution_error TimeoutError = EcSimulationTimeout"
| "from_execution_error (OutOfSyncError _) = EcSimulationOutOfSync"
| "from_execution_error BadQuery = EcSimulationBadQuery"
| "from_execution_error Halted = EcSimulationNotStarted"
| "from_execution_error Terminated = EcSimulationTerminated"
| "from_execution_error (InvalidDeadline _) = EcInvalidDeadline"
| "from_execution_error (InvalidEventId _) = EcEventSourceNotFound"
| "from_execution_error (InvalidQueryId _) = EcQuerySourceNotFound"
| "from_execution_error (InvalidEventType _) = EcInvalidEventType"
| "from_execution_error (InvalidQueryType _ _) = EcInvalidQueryType"
| "from_execution_error (SaveErr _) = EcSaveError"
| "from_execution_error (RestoreErr _) = EcRestoreError"

fun from_scheduling_error :: "scheduling_error \<Rightarrow> error_code" where
  "from_scheduling_error InvalidScheduledTime = EcInvalidDeadline"
| "from_scheduling_error NullRepetitionPeriod = EcInvalidPeriod"

fun from_bench_error :: "bench_error \<Rightarrow> error_code" where
  "from_bench_error (DuplicateEventSource _) = EcDuplicateEventSource"
| "from_bench_error (DuplicateQuerySource _) = EcDuplicateQuerySource"
| "from_bench_error (DuplicateEventSink _) = EcDuplicateEventSink"

fun from_simulation_error :: "('t, 'p) simulation_error \<Rightarrow> error_code" where
  "from_simulation_error (ExecutionErr e) = from_execution_error e"
| "from_simulation_error (SchedulingErr e) = from_scheduling_error e"
| "from_simulation_error (BenchErr e) = from_bench_error e"

fun from_endpoint_error :: "endpoint_error \<Rightarrow> error_code" where
  "from_endpoint_error (EventSourceNotFound _) = EcEventSourceNotFound"
| "from_endpoint_error (QuerySourceNotFound _) = EcQuerySourceNotFound"
| "from_endpoint_error (EventSinkNotFound _) = EcSinkNotFound"
| "from_endpoint_error (InvalidEventSourceType _ _ _) = EcInvalidEventType"
| "from_endpoint_error (InvalidQuerySourceType _ _ _ _ _) = EcInvalidQueryType"
| "from_endpoint_error (InvalidEventSinkType _ _ _) = EcInvalidEventType"

subsection \<open>Times and durations\<close>

definition ts_min_secs :: int where
  "ts_min_secs = - 62135596800"

definition ts_max_secs :: int where
  "ts_max_secs = 253402300799"

definition monotonic_to_timestamp :: "'t tai \<Rightarrow> 't \<Rightarrow> timestamp option" where
  "monotonic_to_timestamp T monotonic_time =
     (let secs = tai_secs T monotonic_time in
      if \<not> (ts_min_secs \<le> secs \<and> secs \<le> ts_max_secs) then None
      else Some \<lparr>ts_seconds = word_of_int secs, ts_nanos = word_of_nat (tai_nanos T monotonic_time)\<rparr>)"

definition timestamp_to_monotonic :: "'t tai \<Rightarrow> timestamp \<Rightarrow> 't option" where
  "timestamp_to_monotonic T ts =
     (if sint (ts_nanos ts) < 0 then None
      else tai_new T (sint (ts_seconds ts)) (nat (sint (ts_nanos ts))))"

text \<open>\<open>Duration::new\<close> carries whole seconds over and panics when the seconds overflow.\<close>

definition duration_new :: "nat \<Rightarrow> nat \<Rightarrow> duration exec" where
  "duration_new secs nanos =
     (if secs + nanos div nanos_per_sec \<le> u64_max then Some (secs * nanos_per_sec + nanos) else None)"

definition to_positive_duration :: "pb_duration \<Rightarrow> duration option exec" where
  "to_positive_duration d =
     (if sint (pd_seconds d) < 0 \<or> sint (pd_nanos d) < 0 then Some None
      else map_option Some (duration_new (unat (pd_seconds d)) (unat (pd_nanos d))))"

definition to_strictly_positive_duration :: "pb_duration \<Rightarrow> duration option exec" where
  "to_strictly_positive_duration d =
     (if sint (pd_seconds d) < 0 \<or> sint (pd_nanos d) < 0 \<or> (sint (pd_seconds d) = 0 \<and> sint (pd_nanos d) = 0)
      then Some None
      else map_option Some (duration_new (unat (pd_seconds d)) (unat (pd_nanos d))))"

text \<open>The number of nanoseconds of a duration message.\<close>

definition pd_ns :: "pb_duration \<Rightarrow> int" where
  "pd_ns d = sint (pd_seconds d) * int nanos_per_sec + sint (pd_nanos d)"

lemma nonneg_unat:
  fixes w :: "'a::len word"
  assumes "0 \<le> sint w"
  shows "int (unat w) = sint w" "unat w < 2 ^ (LENGTH('a) - 1)"
proof -
  let ?n = "LENGTH('a) - 1"
  have b: "\<not> bit (uint w) ?n"
    using assms by (simp add: sint_uint)
  have "uint w = take_bit (Suc ?n) (uint w)"
    using take_bit_int_eq_self [OF unsigned_greater_eq unsigned_less, of w] by simp
  also have "\<dots> = take_bit ?n (uint w)"
    using b by (simp add: take_bit_Suc_from_most del: len_gt_0)
  finally have u: "uint w = take_bit ?n (uint w)" .
  have "sint w = uint w"
    using b u by (simp add: sint_uint signed_take_bit_eq_if_positive)
  then show "int (unat w) = sint w" by simp
  have "uint w < 2 ^ ?n" using u by (metis take_bit_int_less_exp)
  then have "int (unat w) < int (2 ^ ?n)" by simp
  then show "unat w < 2 ^ ?n" by (simp only: of_nat_less_iff)
qed

text \<open>A duration message with non-negative fields never makes \<open>Duration::new\<close> panic.\<close>

lemma duration_new_pd:
  assumes "0 \<le> sint (pd_seconds d)" "0 \<le> sint (pd_nanos d)"
  shows "duration_new (unat (pd_seconds d)) (unat (pd_nanos d)) = Some (nat (pd_ns d))"
proof -
  note s = nonneg_unat [OF assms(1)] and n = nonneg_unat [OF assms(2)]
  have "unat (pd_nanos d) div nanos_per_sec \<le> unat (pd_nanos d)" by simp
  moreover have "unat (pd_nanos d) < 2 ^ 31" "unat (pd_seconds d) < 2 ^ 63" using s(2) n(2) by simp_all
  ultimately have "unat (pd_seconds d) + unat (pd_nanos d) div nanos_per_sec \<le> u64_max"
    by (simp add: u64_max_def)
  moreover have "pd_ns d = int (unat (pd_seconds d) * nanos_per_sec + unat (pd_nanos d))"
    unfolding pd_ns_def s(1) [symmetric] n(1) [symmetric] by simp
  then have "nat (pd_ns d) = unat (pd_seconds d) * nanos_per_sec + unat (pd_nanos d)"
    by (simp only: nat_int)
  ultimately show ?thesis
    by (simp add: duration_new_def)
qed

text \<open>Reading a duration message. It never panics; the result is refused exactly when a field is
  negative (or, in the strict variant, when the duration is null) and is otherwise exact, for every
  value of the two fields.\<close>

lemma duration_conversion:
  shows "to_positive_duration d =
     Some (if sint (pd_seconds d) < 0 \<or> sint (pd_nanos d) < 0 then None else Some (nat (pd_ns d))) \<and>
   to_strictly_positive_duration d =
     Some (if sint (pd_seconds d) < 0 \<or> sint (pd_nanos d) < 0 \<or> pd_ns d = 0 then None else Some (nat (pd_ns d)))"
  using duration_new_pd [of d]
  by (auto simp: to_positive_duration_def to_strictly_positive_duration_def pd_ns_def add_nonneg_eq_0_iff not_less)

text \<open>Reading back a timestamp. A time is converted to a timestamp exactly when it lies in the range that
  protobuf allows, and the timestamp converts back to the same time.\<close>

lemma timestamp_roundtrip:
  fixes t :: "'t::linorder"
  assumes "tai_laws T" "tai_new_laws T"
  shows "(monotonic_to_timestamp T t = None \<longleftrightarrow> \<not> (ts_min_secs \<le> tai_secs T t \<and> tai_secs T t \<le> ts_max_secs)) \<and>
    Option.bind (monotonic_to_timestamp T t) (timestamp_to_monotonic T) =
      (if ts_min_secs \<le> tai_secs T t \<and> tai_secs T t \<le> ts_max_secs then Some t else None)"
proof (cases "ts_min_secs \<le> tai_secs T t \<and> tai_secs T t \<le> ts_max_secs")
  case False
  then show ?thesis by (simp add: monotonic_to_timestamp_def)
next
  case True
  let ?s = "tai_secs T t" and ?n = "tai_nanos T t"
  have n: "?n < nanos_per_sec" using assms(2) by (simp add: tai_new_laws_def)
  have s: "sint (word_of_int ?s :: 64 word) = ?s"
    using True by (simp add: sint_sbintrunc' signed_take_bit_int_eq_self_iff ts_min_secs_def ts_max_secs_def)
  have "sint (word_of_int (int ?n) :: 32 word) = int ?n"
    using n by (simp add: sint_sbintrunc' signed_take_bit_int_eq_self_iff del: of_int_of_nat_eq)
  then have m: "sint (word_of_nat ?n :: 32 word) = int ?n" by simp
  obtain u where u: "tai_new T ?s ?n = Some u"
    using assms(2) n by (metis tai_new_laws_def not_le option.exhaust)
  then have "tai_secs T u = ?s" "tai_nanos T u = ?n" using assms(2) by (auto simp: tai_new_laws_def)
  then have "u = t" using tai_ns_eq [OF assms(1), of u t] by (simp add: tai_ns_def)
  with True s m u show ?thesis
    by (simp add: monotonic_to_timestamp_def timestamp_to_monotonic_def Let_def)
qed

end
