(* ===== verification/Scheduler_Service.thy ===== *)
theory Scheduler_Service
  imports Server_Types Key_Registry
begin

text \<open>
  Model of \<^verbatim>\<open>src/nexosim/src/server/services/scheduler_service.rs\<close>: the requests that schedule and
  cancel events for a remote client. The scheduler handle shares the queue, the time and the event
  keys with the simulation; they are the second component of the state. A request is one step: the
  simulation does not advance while it is served.
\<close>

datatype deadline_msg = DmTime timestamp | DmDuration pb_duration

record schedule_event_request =
  rq_source :: "path option"
  rq_event :: bytes
  rq_with_key :: bool
  rq_period :: "pb_duration option"
  rq_deadline :: "deadline_msg option"

record schedule_query_request =
  rs_source :: "path option"
  rs_request :: bytes
  rs_deadline :: "deadline_msg option"

datatype ('t, 'a) scheduler_service =
    SsHalted
  | SsStarted "'a event_source_registry" "'a query_source_registry" "('t, nat) key_registry"

type_synonym ('t, 'a, 'x) service_op =
  "('t, 'a) scheduler_service \<times> ('t, 'a) sched
    \<Rightarrow> ((error_code + 'x) \<times> ('t, 'a) scheduler_service \<times> ('t, 'a) sched) exec"

definition match_deadline :: "'t tai \<Rightarrow> 't \<Rightarrow> deadline_msg \<Rightarrow> (error_code + 't) exec" where
  "match_deadline T now d =
     (case d of
        DmTime ts \<Rightarrow> Some (ok_or_else EcInvalidTime (timestamp_to_monotonic T ts))
      | DmDuration pd \<Rightarrow> do {
          duration \<leftarrow> to_strictly_positive_duration pd;
          (case duration of
             None \<Rightarrow> Some (Inl EcInvalidDeadline)
           | Some duration \<Rightarrow> map_option Inr (tai_add T now duration))
        })"

definition service_time :: "'t tai \<Rightarrow> ('t, 'a) scheduler_service \<Rightarrow> ('t, 'a) sched \<Rightarrow> error_code + timestamp" where
  "service_time T svc s =
     (case svc of
        SsHalted \<Rightarrow> Inl EcSimulationNotStarted
      | SsStarted _ _ _ \<Rightarrow> ok_or_else EcSimulationTimeOutOfRange (monotonic_to_timestamp T (sd_time s)))"

definition service_halt :: "('t, 'a) scheduler_service \<Rightarrow> ('t, 'a) sched \<Rightarrow> (error_code + unit) \<times> ('t, 'a) sched" where
  "service_halt svc s =
     (case svc of SsHalted \<Rightarrow> (Inl EcSimulationNotStarted, s) | SsStarted _ _ _ \<Rightarrow> (Inr (), halt s))"

definition read_period :: "pb_duration option \<Rightarrow> (error_code + duration option) exec" where
  "read_period period =
     (case period of
        None \<Rightarrow> Some (Inr None)
      | Some pd \<Rightarrow> map_option (\<lambda>d. map_sum id Some (ok_or_else EcInvalidPeriod d)) (to_strictly_positive_duration pd))"

definition make_event ::
    "'a event_source_entry \<Rightarrow> bytes \<Rightarrow> bool \<Rightarrow> duration option \<Rightarrow> key_flags
      \<Rightarrow> (string + 'a event \<times> nat option) \<times> key_flags" where
  "make_event source arg keyed period flags =
     (case (keyed, period) of
        (False, None) \<Rightarrow> (map_sum id (\<lambda>ev. (ev, None)) (entry_event source arg), flags)
      | (False, Some period) \<Rightarrow> (map_sum id (\<lambda>ev. (ev, None)) (entry_periodic_event source period arg), flags)
      | (True, None) \<Rightarrow>
          (let (res, flags) = entry_keyed_event source arg flags in (map_sum id (\<lambda>(ev, key). (ev, Some key)) res, flags))
      | (True, Some period) \<Rightarrow>
          (let (res, flags) = entry_keyed_periodic_event source period arg flags in
           (map_sum id (\<lambda>(ev, key). (ev, Some key)) res, flags)))"

definition register_event_key ::
    "('t::linorder) tai \<Rightarrow> 't \<Rightarrow> nat option \<Rightarrow> duration option \<Rightarrow> 't \<Rightarrow> ('t, nat) key_registry
      \<Rightarrow> (insert_key option \<times> ('t, nat) key_registry) exec" where
  "register_event_key T now event_key period deadline kr =
     (case event_key of
        None \<Rightarrow> Some (None, kr)
      | Some event_key \<Rightarrow> do {
          kr \<leftarrow> remove_expired_keys now kr;
          (key_id, kr) \<leftarrow> (if period \<noteq> None then insert_eternal_key (tai_max T) event_key kr
                           else insert_key event_key deadline kr);
          Some (Some key_id, kr)
        })"

definition service_schedule_event ::
    "('t::linorder) tai \<Rightarrow> schedule_event_request \<Rightarrow> ('t, 'a, insert_key option) service_op" where
  "service_schedule_event T request st = (case st of (svc, s) \<Rightarrow>
     (case svc of
        SsHalted \<Rightarrow> Some (Inl EcSimulationNotStarted, svc, s)
      | SsStarted esr qsr kr \<Rightarrow>
          (case rq_source request of
             None \<Rightarrow> Some (Inl EcMissingArgument, svc, s)
           | Some source_path \<Rightarrow> do {
               period \<leftarrow> read_period (rq_period request);
               (case period of
                  Inl e \<Rightarrow> Some (Inl e, svc, s)
                | Inr period \<Rightarrow>
                    (case esr_get source_path esr of
                       Inl e \<Rightarrow> Some (Inl (from_endpoint_error e), svc, s)
                     | Inr source \<Rightarrow>
                         (let (made, flags) = make_event source (rq_event request) (rq_with_key request) period (sd_flags s);
                              s = s\<lparr>sd_flags := flags\<rparr> in
                          (case made of
                             Inl _ \<Rightarrow> Some (Inl EcInvalidMessage, svc, s)
                           | Inr (event, event_key) \<Rightarrow>
                               (case rq_deadline request of
                                  None \<Rightarrow> Some (Inl EcMissingArgument, svc, s)
                                | Some deadline \<Rightarrow> do {
                                    deadline \<leftarrow> match_deadline T (sd_time s) deadline;
                                    (case deadline of
                                       Inl e \<Rightarrow> Some (Inl e, svc, s)
                                     | Inr deadline \<Rightarrow> do {
                                         (key_id, kr) \<leftarrow> register_event_key T (sd_time s) event_key period deadline kr;
                                         (res, s) \<leftarrow> scheduler_schedule T (DlTime deadline) (QEvent event) s;
                                         Some (map_sum from_scheduling_error (\<lambda>_. key_id) res, SsStarted esr qsr kr, s)
                                       })
                                  })))))
             })))"

definition service_cancel_event ::
    "(nat \<times> nat) option \<Rightarrow> ('t::linorder, 'a, unit) service_op" where
  "service_cancel_event key st = (case st of (svc, s) \<Rightarrow>
     (case svc of
        SsHalted \<Rightarrow> Some (Inl EcSimulationNotStarted, svc, s)
      | SsStarted esr qsr kr \<Rightarrow>
          (case key of
             None \<Rightarrow> Some (Inl EcMissingArgument, svc, s)
           | Some (subkey1, subkey2) \<Rightarrow>
               if usize_max < subkey1 then Some (Inl EcInvalidKey, svc, s)
               else do {
                 kr \<leftarrow> remove_expired_keys (sd_time s) kr;
                 (key, kr) \<leftarrow> extract_key (from_raw_parts subkey1 subkey2) kr;
                 (case key of
                    None \<Rightarrow> Some (Inl EcInvalidKey, SsStarted esr qsr kr, s)
                  | Some key \<Rightarrow> Some (Inr (), SsStarted esr qsr kr, s\<lparr>sd_flags := key_cancel key (sd_flags s)\<rparr>))
               })))"

text \<open>A scheduled query gives the name of its reply channel, whose replies the server awaits, and the type they
  are encoded with.\<close>

definition service_schedule_query ::
    "('t::linorder) tai \<Rightarrow> schedule_query_request \<Rightarrow> ('t, 'a, nat \<times> 'a rust_type) service_op" where
  "service_schedule_query T request st = (case st of (svc, s) \<Rightarrow>
     (case svc of
        SsHalted \<Rightarrow> Some (Inl EcSimulationNotStarted, svc, s)
      | SsStarted esr qsr kr \<Rightarrow>
          (case rs_source request of
             None \<Rightarrow> Some (Inl EcMissingArgument, svc, s)
           | Some source_path \<Rightarrow>
               (case qsr_get source_path qsr of
                  Inl e \<Rightarrow> Some (Inl (from_endpoint_error e), svc, s)
                | Inr source \<Rightarrow>
                    (let (made, n) = entry_query source (rs_request request) (sd_replies s); s = s\<lparr>sd_replies := n\<rparr> in
                     (case made of
                        Inl _ \<Rightarrow> Some (Inl EcInvalidMessage, svc, s)
                      | Inr (query, rx) \<Rightarrow>
                          (case rs_deadline request of
                             None \<Rightarrow> Some (Inl EcMissingArgument, svc, s)
                           | Some deadline \<Rightarrow> do {
                               deadline \<leftarrow> match_deadline T (sd_time s) deadline;
                               (case deadline of
                                  Inl e \<Rightarrow> Some (Inl e, svc, s)
                                | Inr deadline \<Rightarrow> do {
                                    (res, s) \<leftarrow> scheduler_schedule T (DlTime deadline) (QQuery query) s;
                                    Some (map_sum from_scheduling_error (\<lambda>_. (rx, qe_reply_type source)) res, svc, s)
                                  })
                             })))))))"

text \<open>The reply to a scheduled query, when its replies are there.\<close>

definition query_reply :: "'a rust_type \<Rightarrow> 'a list option \<Rightarrow> error_code + bytes list" where
  "query_reply R replies =
     (case take_collect R replies of
        None \<Rightarrow> Inl EcSimulationBadQuery
      | Some (Inl _) \<Rightarrow> Inl EcInvalidMessage
      | Some (Inr encoded) \<Rightarrow> Inr encoded)"

subsection \<open>Keyed events\<close>

text \<open>The event that a request makes: it carries the new key exactly when one was asked for.\<close>

lemma make_event_ok:
  assumes "make_event source arg keyed period flags = (Inr (ev, key), flags')"
  shows "ev_id ev = ee_inner source" "ev_period ev = period" "ev_key ev = key"
    "key = (if keyed then Some (length flags) else None)" "flags' = (if keyed then flags @ [False] else flags)"
  using assms
  by (cases keyed; cases period; cases "ty_from_cbor (ee_type source) arg";
      auto simp: make_event_def entry_event_def entry_periodic_event_def entry_keyed_event_def
        entry_keyed_periodic_event_def event_new_def with_key_def with_period_def event_key_new_def)+

lemma register_event_key_ok:
  assumes "kr_inv kr" "0 < kr_room kr"
  obtains kid kr' where "register_event_key T now (Some key) period deadline kr = Some (Some kid, kr')" "kr_inv kr'"
    "kr_map kr' kid = Some (if period \<noteq> None then tai_max T else deadline, key)"
proof -
  obtain kr1 where r: "remove_expired_keys now kr = Some kr1" "kr_inv kr1" "kr_room kr1 = kr_room kr"
    using remove_expired_keys_ok [OF assms(1), of now] by blast
  obtain kid kr2 where k: "insert_key key (if period \<noteq> None then tai_max T else deadline) kr1 = Some (kid, kr2)" "kr_inv kr2"
      "kr_map kr2 = (kr_map kr1)(kid \<mapsto> (if period \<noteq> None then tai_max T else deadline, key))"
    using insert_key_ok [OF r(2), of key "if period \<noteq> None then tai_max T else deadline"] r(3) assms(2) by auto
  show thesis
    using that [of kid kr2] r(1) k by (cases period) (auto simp: register_event_key_def insert_eternal_key_eq)
qed

text \<open>What a granted request for a keyed event has done.\<close>

lemma schedule_event_granted:
  assumes "service_schedule_event T rq (SsStarted esr qsr kr, s) = Some (Inr (Some kid), svc, s')"
    and "pq_inv (sd_queue s)"
  obtains ev deadline kr' period where "ev_key ev = Some (length (sd_flags s))" "sd_time s < deadline"
    "register_event_key T (sd_time s) (Some (length (sd_flags s))) period deadline kr = Some (Some kid, kr')"
    "svc = SsStarted esr qsr kr'" "scheduled deadline global_origin_id (QEvent ev) (s\<lparr>sd_flags := sd_flags s @ [False]\<rparr>) s'"
proof -
  obtain period source ev key flags deadline kid' kr' res where
    m: "make_event source (rq_event rq) (rq_with_key rq) period (sd_flags s) = (Inr (ev, key), flags)"
    and k': "register_event_key T (sd_time s) key period deadline kr = Some (kid', kr')"
    and c: "scheduler_schedule T (DlTime deadline) (QEvent ev) (s\<lparr>sd_flags := flags\<rparr>) = Some (res, s')"
    and r: "map_sum from_scheduling_error (\<lambda>_. kid') res = Inr (Some kid)" "svc = SsStarted esr qsr kr'"
    using assms(1)
    by (auto simp: service_schedule_event_def Let_def split: option.split_asm sum.split_asm prod.split_asm bind_split_asm)
  note e = make_event_ok [OF m]
  have res: "res = Inr ()" "kid' = Some kid" using r(1) by (cases res; simp)+
  with k' have k: "register_event_key T (sd_time s) key period deadline kr = Some (Some kid, kr')" by simp
  then have "key \<noteq> None" by (cases key) (auto simp: register_event_key_def)
  then have key: "key = Some (length (sd_flags s))" "flags = sd_flags s @ [False]" using e by (auto split: if_splits)
  from c res have "schedule_from T (DlTime deadline) (QEvent ev) global_origin_id (s\<lparr>sd_flags := flags\<rparr>) = Some (Inr (), s')"
    by (simp add: scheduler_schedule_def)
  moreover have "pq_inv (sd_queue (s\<lparr>sd_flags := flags\<rparr>))" using assms(2) by simp
  ultimately have "sd_time s < deadline \<and> scheduled deadline global_origin_id (QEvent ev) (s\<lparr>sd_flags := flags\<rparr>) s'"
    using schedule_from_cases [of "s\<lparr>sd_flags := flags\<rparr>" T "DlTime deadline" "QEvent ev" global_origin_id] by auto
  then show thesis
    using that [of ev deadline period kr'] e(3) k r(2) key by auto
qed


definition small_esr :: "nat event_source_registry" where
  "small_esr = [([''in''], \<lparr>ee_inner = 0, ee_type = byte_type, ee_schema_gen = (\<lambda>_. [])\<rparr>)]"

definition small_rq :: "pb_duration option \<Rightarrow> deadline_msg \<Rightarrow> schedule_event_request" where
  "small_rq period deadline = \<lparr>rq_source = Some [''in''], rq_event = [7], rq_with_key = True, rq_period = period,
     rq_deadline = Some deadline\<rparr>"

definition small_sched :: "'t \<Rightarrow> ('t::linorder, nat) sched" where
  "small_sched t = \<lparr>sd_queue = pq_new, sd_time = t, sd_flags = [], sd_replies = 0, sd_halted = False, sd_terminated = False\<rparr>"

lemma small_sched_inv: "sched_inv (small_sched t)" "sd_time (small_sched t) = t" "sd_flags (small_sched t) = []"
  "pq_inv (sd_queue (small_sched t))"
  by (simp_all add: small_sched_def sched_inv_def entries_ok_def)

lemma kr_default_ok: "kr_inv kr_default" "0 < kr_room kr_default"
  by (simp_all add: kr_inv_def kr_default_def kr_room_def u64_max_def)

lemma small_make_event:
  "make_event \<lparr>ee_inner = 0, ee_type = byte_type, ee_schema_gen = g\<rparr> [7] True period [] =
     (Inr (case period of None \<Rightarrow> with_key 0 (event_new 0 7) | Some p \<Rightarrow> with_key 0 (with_period p (event_new 0 7)), Some 0), [False])"
  by (simp add: make_event_def entry_keyed_event_def entry_keyed_periodic_event_def byte_type_def event_key_new_def split: option.split)

text \<open>A new registry hands out the slot 0.\<close>

lemma first_key_slab:
  assumes "register_event_key T now (Some key) period deadline kr_default = Some (Some kid, kr')"
  shows "ik_slab kid = 0"
proof -
  have "remove_expired_keys now (kr_default :: ('a, nat) key_registry) = Some kr_default"
    unfolding remove_expired_keys_def
    by (subst pull_below.simps) (simp add: kr_default_def ipq_peek_key_def ipq_new_def)
  then have "ipq_insert (if period \<noteq> None then tai_max T else deadline) key ipq_new = Some (kid, kr_keys kr')"
    using assms
    by (cases period)
      (auto simp: register_event_key_def insert_eternal_key_def insert_key_def kr_default_def bind_eq_Some_conv)
  then show ?thesis
    by (auto simp: ipq_insert_def ipq_new_def Let_def bind_eq_Some_conv split: if_splits)
qed


text \<open>C34: A refused request leaves its key behind. When a keyed periodic event is requested for a time that is
  not in the future the client gets an error and no key, but the key stays in the registry, and no
  purge of expired keys ever removes it.\<close>

theorem refused_event_leaks_key:
  assumes "kr_inv kr" "0 < kr_room kr" "tai_bounded T" "pq_inv (sd_queue s)"
    and "rq_source rq = Some p" "esr_get p esr = Inr source" "ty_from_cbor (ee_type source) (rq_event rq) = Inr arg"
    and "rq_with_key rq" "read_period (rq_period rq) = Some (Inr (Some period))"
    and "rq_deadline rq = Some (DmTime ts)" "timestamp_to_monotonic T ts = Some t" "t \<le> sd_time s"
  shows "\<exists>kid kr' s'. service_schedule_event T rq (SsStarted esr qsr kr, s) = Some (Inl EcInvalidDeadline, SsStarted esr qsr kr', s') \<and>
    kr_map kr' kid = Some (tai_max T, length (sd_flags s)) \<and>
    (\<forall>now kr''. remove_expired_keys now kr' = Some kr'' \<longrightarrow> kr_map kr'' kid = Some (tai_max T, length (sd_flags s)))"
proof -
  let ?key = "length (sd_flags s)"
  obtain kr1 where r: "remove_expired_keys (sd_time s) kr = Some kr1" "kr_inv kr1" "kr_room kr1 = kr_room kr"
    using remove_expired_keys_ok [OF assms(1), of "sd_time s"] by blast
  obtain kid kr2 where k: "insert_key ?key (tai_max T) kr1 = Some (kid, kr2)" "kr_inv kr2"
      "kr_map kr2 kid = Some (tai_max T, ?key)"
    using insert_key_ok [OF r(2), of ?key "tai_max T"] r(3) assms(2) by auto
  obtain ev where m: "make_event source (rq_event rq) True (Some period) (sd_flags s) = (Inr (ev, Some ?key), sd_flags s @ [False])"
    using assms(7) by (simp add: make_event_def entry_keyed_periodic_event_def event_key_new_def)
  let ?s = "s\<lparr>sd_flags := sd_flags s @ [False]\<rparr>"
  have "scheduler_schedule T (DlTime t) (QEvent ev) ?s = Some (Inl InvalidScheduledTime, ?s)"
    using assms(12) by (simp add: scheduler_schedule_def schedule_from_def)
  moreover have "register_event_key T (sd_time s) (Some ?key) (Some period) t kr = Some (Some kid, kr2)"
    using r(1) k(1) by (simp add: register_event_key_def insert_eternal_key_eq)
  ultimately have "service_schedule_event T rq (SsStarted esr qsr kr, s) = Some (Inl EcInvalidDeadline, SsStarted esr qsr kr2, ?s)"
    using assms(5,6,8-11) m by (simp add: service_schedule_event_def match_deadline_def ok_or_else_def)
  moreover have "kr_map kr'' kid = Some (tai_max T, ?key)" if "remove_expired_keys now kr2 = Some kr''" for now kr''
    using remove_expired_keys_ok [OF k(2), of now] k(3) that assms(3) by (auto simp: tai_bounded_def not_less)
  ultimately show ?thesis using k(3) by blast
qed

definition past_rq :: schedule_event_request where
  "past_rq = small_rq (Some \<lparr>pd_seconds = 1, pd_nanos = 0\<rparr>) (DmTime \<lparr>ts_seconds = 0, ts_nanos = 3\<rparr>)"

theorem refused_event_leaks_key_witness:
  "\<exists>kid kr' s'. service_schedule_event word_tai past_rq (SsStarted small_esr [] kr_default, small_sched 10) =
      Some (Inl EcInvalidDeadline, SsStarted small_esr [] kr', s') \<and> kr_map kr' kid = Some (- 1, 0)"
proof -
  let ?source = "\<lparr>ee_inner = 0, ee_type = byte_type, ee_schema_gen = (\<lambda>_. [])\<rparr>"
  have 1: "rq_source past_rq = Some [''in'']" "esr_get [''in''] small_esr = Inr ?source"
    "ty_from_cbor (ee_type ?source) (rq_event past_rq) = Inr 7" "rq_with_key past_rq"
    "rq_deadline past_rq = Some (DmTime \<lparr>ts_seconds = 0, ts_nanos = 3\<rparr>)"
    by (simp_all add: past_rq_def small_rq_def small_esr_def esr_get_def ok_or_else_def byte_type_def)
  have 2: "read_period (rq_period past_rq) = Some (Inr (Some nanos_per_sec))"
    by (simp add: past_rq_def small_rq_def read_period_def to_strictly_positive_duration_def duration_new_def u64_max_def ok_or_else_def)
  have 3: "timestamp_to_monotonic word_tai \<lparr>ts_seconds = 0, ts_nanos = 3\<rparr> = Some 3"
    by (simp add: timestamp_to_monotonic_def word_tai_def)
  have 4: "3 \<le> sd_time (small_sched 10 :: (64 word, nat) sched)" by (simp add: small_sched_inv)
  have 5: "tai_max word_tai = - 1" by (simp add: word_tai_def)
  from refused_event_leaks_key [OF kr_default_ok word_tai_bounded small_sched_inv(4) 1(1-4) 2 1(5) 3 4, of "[]"]
  show ?thesis unfolding 5 small_sched_inv(3) list.size by blast
qed

text \<open>C35: A request can bring the service down. If the deadline is a valid duration after which no time is
  representable, serving the request panics, with the lock on the service held.\<close>

theorem overflowing_deadline_panics:
  assumes "tai_laws T" "rq_source rq = Some p" "esr_get p esr = Inr source"
    "ty_from_cbor (ee_type source) (rq_event rq) = Inr arg" "rq_period rq = None"
    and "rq_deadline rq = Some (DmDuration d)" "0 \<le> sint (pd_seconds d)" "0 \<le> sint (pd_nanos d)" "0 < pd_ns d"
    and "tai_limit T < tai_ns T (sd_time s) + pd_ns d"
  shows "service_schedule_event T rq (SsStarted esr qsr kr, s) = None"
proof -
  have "to_strictly_positive_duration d = Some (Some (nat (pd_ns d)))"
    using duration_new_pd [OF assms(7,8)] assms(7-9) by (auto simp: to_strictly_positive_duration_def pd_ns_def)
  moreover have "tai_add T (sd_time s) (nat (pd_ns d)) = None"
    using tai_add_None [OF assms(1)] assms(9,10) by simp
  ultimately have "match_deadline T (sd_time s) (DmDuration d) = None"
    by (simp add: match_deadline_def)
  moreover obtain ev key flags where "make_event source (rq_event rq) (rq_with_key rq) None (sd_flags s) = (Inr (ev, key), flags)"
    using assms(4) by (cases "rq_with_key rq") (simp_all add: make_event_def entry_event_def entry_keyed_event_def event_key_new_def)
  ultimately show ?thesis
    using assms(2,3,5,6) by (simp add: service_schedule_event_def read_period_def)
qed

theorem overflowing_deadline_panics_witness:
  "service_schedule_event word_tai (small_rq None (DmDuration \<lparr>pd_seconds = 2 ^ 62, pd_nanos = 0\<rparr>))
     (SsStarted small_esr [] kr_default, small_sched 10) = None"
proof -
  let ?source = "\<lparr>ee_inner = 0, ee_type = byte_type, ee_schema_gen = (\<lambda>_. [])\<rparr>"
  let ?d = "\<lparr>pd_seconds = 2 ^ 62, pd_nanos = 0\<rparr>"
  have 1: "rq_source (small_rq None (DmDuration ?d)) = Some [''in'']" "esr_get [''in''] small_esr = Inr ?source"
    "ty_from_cbor (ee_type ?source) (rq_event (small_rq None (DmDuration ?d))) = Inr 7"
    "rq_period (small_rq None (DmDuration ?d)) = None" "rq_deadline (small_rq None (DmDuration ?d)) = Some (DmDuration ?d)"
    by (simp_all add: small_rq_def small_esr_def esr_get_def ok_or_else_def byte_type_def)
  have s: "sint (pd_seconds ?d) = 2 ^ 62" "sint (pd_nanos ?d) = 0" by simp_all
  have 2: "0 \<le> sint (pd_seconds ?d)" "0 \<le> sint (pd_nanos ?d)" "pd_ns ?d = 2 ^ 62 * 1000000000" "0 < pd_ns ?d"
    unfolding pd_ns_def s by simp_all
  have "tai_limit word_tai < 2 ^ 64"
    unfolding tai_limit_def word_tai_ns using uint_lt2p [of "tai_max word_tai"] by simp
  moreover have "0 \<le> tai_ns word_tai (sd_time (small_sched 10 :: (64 word, nat) sched))" by simp
  ultimately have 3: "tai_limit word_tai < tai_ns word_tai (sd_time (small_sched 10 :: (64 word, nat) sched)) + pd_ns ?d"
    unfolding 2(3) by (simp add: small_sched_inv)
  from overflowing_deadline_panics [OF word_tai_laws 1 2(1,2,4) 3] show ?thesis by simp
qed

end
