(* ===== verification/Controller_Service.thy ===== *)
theory Controller_Service
  imports Server_Types
begin

text \<open>
  Model of \<^verbatim>\<open>src/nexosim/src/server/services/controller_service.rs\<close>, the requests that run the
  simulation, and of \<^verbatim>\<open>src/nexosim/src/server/services/bench_service.rs\<close>, the requests on the bench that need
  no running simulation. A request that is not answered because the simulation method it calls panics or
  does not return is \<open>None\<close>.
\<close>

subsection \<open>Controller\<close>

datatype ('t, 'a, 'f, 'p, 'w, 'c, 'k) controller_service =
    CsHalted
  | CsStarted "('t, 'a, 'f, 'p, 'w, 'c, 'k) simulation" "'a event_source_registry" "'a query_source_registry"

type_synonym ('t, 'a, 'f, 'p, 'w, 'c, 'k, 'x) controller_op =
  "('t, 'a, 'f, 'p, 'w, 'c, 'k) controller_service
    \<Rightarrow> ((error_code + 'x) \<times> ('t, 'a, 'f, 'p, 'w, 'c, 'k) controller_service) exec"

text \<open>The reply with the time of the simulation after a call.\<close>

definition time_reply ::
    "'t tai \<Rightarrow> (('t, 'p) execution_error + unit) \<Rightarrow> ('t, 'a, 'f, 'p, 'w, 'c, 'k) simulation \<Rightarrow> error_code + timestamp" where
  "time_reply T res sim =
     (case res of
        Inl e \<Rightarrow> Inl (from_execution_error e)
      | Inr _ \<Rightarrow> ok_or_else EcSimulationTimeOutOfRange (monotonic_to_timestamp T (sim_time sim)))"

definition controller_step ::
    "('t::linorder, 'a, 'f, 'p, 'w, 'c, 'k) sim_env \<Rightarrow> ('t, 'a, 'f, 'p, 'w, 'c, 'k, timestamp) controller_op" where
  "controller_step E svc =
     (case svc of
        CsHalted \<Rightarrow> Some (Inl EcSimulationNotStarted, svc)
      | CsStarted sim esr qsr \<Rightarrow> do {
          (res, sim) \<leftarrow> step E sim;
          Some (time_reply (en_tai E) res sim, CsStarted sim esr qsr)
        })"

datatype step_until_deadline = SuTime timestamp | SuDuration pb_duration

definition controller_step_until ::
    "('t::linorder, 'a, 'f, 'p, 'w, 'c, 'k) sim_env \<Rightarrow> step_until_deadline option
      \<Rightarrow> ('t, 'a, 'f, 'p, 'w, 'c, 'k, timestamp) controller_op" where
  "controller_step_until E deadline svc =
     (case svc of
        CsHalted \<Rightarrow> Some (Inl EcSimulationNotStarted, svc)
      | CsStarted sim esr qsr \<Rightarrow>
          (case deadline of
             None \<Rightarrow> Some (Inl EcMissingArgument, svc)
           | Some (SuTime ts) \<Rightarrow>
               (case timestamp_to_monotonic (en_tai E) ts of
                  None \<Rightarrow> Some (Inl EcInvalidTime, svc)
                | Some time \<Rightarrow> do {
                    (res, sim) \<leftarrow> step_until E (DlTime time) sim;
                    Some (time_reply (en_tai E) res sim, CsStarted sim esr qsr)
                  })
           | Some (SuDuration pd) \<Rightarrow> do {
               duration \<leftarrow> to_positive_duration pd;
               (case duration of
                  None \<Rightarrow> Some (Inl EcInvalidDeadline, svc)
                | Some duration \<Rightarrow> do {
                    (res, sim) \<leftarrow> step_until E (DlDuration duration) sim;
                    Some (time_reply (en_tai E) res sim, CsStarted sim esr qsr)
                  })
             }))"

definition controller_run ::
    "('t::linorder, 'a, 'f, 'p, 'w, 'c, 'k) sim_env \<Rightarrow> ('t, 'a, 'f, 'p, 'w, 'c, 'k, timestamp) controller_op" where
  "controller_run E svc =
     (case svc of
        CsHalted \<Rightarrow> Some (Inl EcSimulationNotStarted, svc)
      | CsStarted sim esr qsr \<Rightarrow> do {
          (res, sim) \<leftarrow> run E sim;
          Some (time_reply (en_tai E) res sim, CsStarted sim esr qsr)
        })"

definition controller_process_event ::
    "('t::linorder, 'a, 'f, 'p, 'w, 'c, 'k) sim_env \<Rightarrow> path option \<Rightarrow> bytes
      \<Rightarrow> ('t, 'a, 'f, 'p, 'w, 'c, 'k, unit) controller_op" where
  "controller_process_event E source_path event svc =
     (case svc of
        CsHalted \<Rightarrow> Some (Inl EcSimulationNotStarted, svc)
      | CsStarted sim esr qsr \<Rightarrow>
          (case source_path of
             None \<Rightarrow> Some (Inl EcMissingArgument, svc)
           | Some path \<Rightarrow>
               (case esr_get path esr of
                  Inl e \<Rightarrow> Some (Inl (from_endpoint_error e), svc)
                | Inr source \<Rightarrow>
                    (case entry_deserialize_arg source event of
                       Inl _ \<Rightarrow> Some (Inl EcInvalidMessage, svc)
                     | Inr arg \<Rightarrow> do {
                         (res, sim) \<leftarrow> process_event_erased E (ee_inner source) arg sim;
                         Some (map_sum from_execution_error id res, CsStarted sim esr qsr)
                       }))))"

definition controller_process_query ::
    "('t::linorder, 'a, 'f, 'p, 'w, 'c, 'k) sim_env \<Rightarrow> path option \<Rightarrow> bytes
      \<Rightarrow> ('t, 'a, 'f, 'p, 'w, 'c, 'k, bytes list) controller_op" where
  "controller_process_query E source_path request svc =
     (case svc of
        CsHalted \<Rightarrow> Some (Inl EcSimulationNotStarted, svc)
      | CsStarted sim esr qsr \<Rightarrow>
          (case source_path of
             None \<Rightarrow> Some (Inl EcMissingArgument, svc)
           | Some path \<Rightarrow>
               (case qsr_get path qsr of
                  Inl e \<Rightarrow> Some (Inl (from_endpoint_error e), svc)
                | Inr source \<Rightarrow>
                    (case entry_deserialize_request source request of
                       Inl _ \<Rightarrow> Some (Inl EcInvalidMessage, svc)
                     | Inr arg \<Rightarrow> do {
                         (res, sim) \<leftarrow> process_query_erased E (qe_inner source) arg sim;
                         Some (case res of
                            Inl e \<Rightarrow> Inl (from_execution_error e)
                          | Inr rx \<Rightarrow>
                              (case take_collect (qe_reply_type source) (en_reply E (si_world sim) rx) of
                                 None \<Rightarrow> Inl EcSimulationBadQuery
                               | Some (Inl _) \<Rightarrow> Inl EcInvalidMessage
                               | Some (Inr replies) \<Rightarrow> Inr replies), CsStarted sim esr qsr)
                       }))))"

definition controller_save ::
    "('t::linorder, 'a, 'f, 'p, 'w, 'c, 'k) sim_env \<Rightarrow> ('t, 'p, 'w) model_io \<Rightarrow> bincode \<Rightarrow> 't state_codec
      \<Rightarrow> ('t, 'a, 'f, 'p, 'w, 'c, 'k, bytes) controller_op" where
  "controller_save E io B C svc =
     (case svc of
        CsHalted \<Rightarrow> Some (Inl EcSimulationNotStarted, svc)
      | CsStarted sim esr qsr \<Rightarrow> do {
          (res, sim) \<leftarrow> save E io B C sim;
          Some (map_sum from_execution_error id res, CsStarted sim esr qsr)
        })"

subsection \<open>Bench\<close>

datatype 'a bench_service =
    BhHalted
  | BhStarted sink_info_registry "'a event_source_registry" "'a query_source_registry"

definition bench_list_event_sources :: "'a bench_service \<Rightarrow> error_code + path list" where
  "bench_list_event_sources svc =
     (case svc of BhHalted \<Rightarrow> Inl EcBenchNotBuilt | BhStarted kir esr qsr \<Rightarrow> Inr (esr_list_sources esr))"

text \<open>The schemas of the requested endpoints, up to the first one that is not found.\<close>

fun collect_schemas :: "(path \<Rightarrow> endpoint_error + 'x) \<Rightarrow> path list \<Rightarrow> endpoint_error + (path \<times> 'x) list" where
  "collect_schemas get [] = Inr []"
| "collect_schemas get (source # sources) =
     (case get source of
        Inl e \<Rightarrow> Inl e
      | Inr schema \<Rightarrow> map_sum id (\<lambda>rest. (source, schema) # rest) (collect_schemas get sources))"

definition bench_get_event_source_schemas :: "path list \<Rightarrow> 'a bench_service \<Rightarrow> error_code + (path \<times> string) list" where
  "bench_get_event_source_schemas sources svc =
     (case svc of
        BhHalted \<Rightarrow> Inl EcBenchNotBuilt
      | BhStarted kir esr qsr \<Rightarrow>
          map_sum from_endpoint_error id
            (if sources = [] then Inr (esr_list_schemas esr)
             else collect_schemas (\<lambda>path. esr_get_source_schema path esr) sources))"

definition bench_list_query_sources :: "'a bench_service \<Rightarrow> error_code + path list" where
  "bench_list_query_sources svc =
     (case svc of BhHalted \<Rightarrow> Inl EcBenchNotBuilt | BhStarted kir esr qsr \<Rightarrow> Inr (qsr_list_sources qsr))"

definition bench_get_query_source_schemas ::
    "path list \<Rightarrow> 'a bench_service \<Rightarrow> error_code + (path \<times> string \<times> string) list" where
  "bench_get_query_source_schemas sources svc =
     (case svc of
        BhHalted \<Rightarrow> Inl EcBenchNotBuilt
      | BhStarted kir esr qsr \<Rightarrow>
          map_sum from_endpoint_error id
            (if sources = [] then Inr (qsr_list_schemas qsr)
             else collect_schemas (\<lambda>path. qsr_get_source_schema path qsr) sources))"

definition bench_list_event_sinks :: "'a bench_service \<Rightarrow> error_code + path list" where
  "bench_list_event_sinks svc =
     (case svc of BhHalted \<Rightarrow> Inl EcBenchNotBuilt | BhStarted kir esr qsr \<Rightarrow> Inr (kir_list_sinks kir))"

definition bench_get_event_sink_schemas :: "path list \<Rightarrow> 'a bench_service \<Rightarrow> error_code + (path \<times> string) list" where
  "bench_get_event_sink_schemas sinks svc =
     (case svc of
        BhHalted \<Rightarrow> Inl EcBenchNotBuilt
      | BhStarted kir esr qsr \<Rightarrow>
          map_sum from_endpoint_error id
            (if sinks = [] then Inr (kir_list_schemas kir)
             else collect_schemas (\<lambda>path. kir_get_sink_schema path kir) sinks))"

text \<open>The injector handle of the service is the injector queue \<open>q\<close>, shared with the simulation.\<close>

definition bench_inject_event ::
    "path option \<Rightarrow> bytes \<Rightarrow> 'a bench_service \<Rightarrow> ('a, 'f) injector_queue
      \<Rightarrow> ((error_code + unit) \<times> ('a, 'f) injector_queue) exec" where
  "bench_inject_event source_path event svc q =
     (case svc of
        BhHalted \<Rightarrow> Some (Inl EcBenchNotBuilt, q)
      | BhStarted kir esr qsr \<Rightarrow>
          (case source_path of
             None \<Rightarrow> Some (Inl EcMissingArgument, q)
           | Some path \<Rightarrow>
               (case esr_get path esr of
                  Inl e \<Rightarrow> Some (Inl (from_endpoint_error e), q)
                | Inr source \<Rightarrow>
                    (case entry_event source event of
                       Inl _ \<Rightarrow> Some (Inl EcInvalidMessage, q)
                     | Inr ev \<Rightarrow> do {
                         q \<leftarrow> inject_built_event ev q;
                         Some (Inr (), q)
                       }))))"

subsection \<open>From the wire to the source\<close>

lemma bound_entry:
  assumes "builder_run cs (with_num_threads epoch clock w n) = Some st" "map_of (event_binds cs) p = Some (T, src, gen)"
  obtains en where "esr_get p (en_event_sources (in_endpoints st)) = Inr en" "ee_type en = T"
    "get_event_source (ee_inner en) (be_registry (in_bench st)) = Some src"
proof -
  note b = built_lookup [OF assms(1)]
  have inv: "esr_inv (in_events st)" using b(1) by (simp add: init_inv_def)
  obtain en where en: "map_of (en_event_sources (in_endpoints st)) p = Some en" "ee_type en = T"
      "event_registry (be_registry (in_bench st)) ! ee_inner en = src"
    using b(2) assms(2) by (auto simp: esr_lookup_def in_events_def fun_eq_iff dest!: spec [of _ p])
  moreover have "ee_inner en < length (event_registry (be_registry (in_bench st)))"
    using inv en(1) by (auto simp: esr_inv_def in_events_def)
  ultimately show thesis
    using that [of en] by (auto simp: esr_get_def ok_or_else_def get_event_source_def)
qed

text \<open>C36: An event sent by a client. For a bench made by any sequence of builder calls and the simulation that was
  built from it, a request to process an event at a bound path, whose argument decodes at the type of
  the source first bound there, runs exactly the future that this source makes of the argument.\<close>

theorem wire_event_reaches_source:
  assumes "builder_run cs (with_num_threads epoch clock w n) = Some st" "map_of (event_binds cs) p = Some (T, src, gen)"
    and "si_registry sim = be_registry (in_bench st)"
    and "ty_from_cbor T bytes = Inr arg" "es_future_owned src arg None = Inr fut"
  shows "controller_process_event E (Some p) bytes (CsStarted sim (en_event_sources (in_endpoints st)) qsr) =
    map_option (\<lambda>(res, sim'). (map_sum from_execution_error id res, CsStarted sim' (en_event_sources (in_endpoints st)) qsr))
      (process_future E fut sim)"
proof -
  obtain en where en: "esr_get p (en_event_sources (in_endpoints st)) = Inr en" "ee_type en = T"
      "get_event_source (ee_inner en) (be_registry (in_bench st)) = Some src"
    by (rule bound_entry [OF assms(1,2)])
  then have "process_event_erased E (ee_inner en) arg sim = process_future E fut sim"
    using assms(3,5) by (simp add: process_event_erased_def)
  with en(1,2) assms(4) show ?thesis
    by (cases "process_future E fut sim")
      (auto simp: controller_process_event_def entry_deserialize_arg_def)
qed

theorem wire_event_reaches_source_witness:
  "\<exists>st. builder_run [BcModel car 0 ''car'', BcEvent byte_type (lamp_input 1 0) [''in'']] new_init = Some st \<and>
     controller_process_event (still_env (\<lambda>_. 0)) (Some [''in'']) [7] (CsStarted (init_build st) (en_event_sources (in_endpoints st)) []) =
       map_option (\<lambda>(res, sim'). (map_sum from_execution_error id res, CsStarted sim' (en_event_sources (in_endpoints st)) []))
         (process_future (still_env (\<lambda>_. 0)) 7 (init_build st))"
proof -
  let ?cs = "[BcModel car 0 ''car'', BcEvent byte_type (lamp_input 1 0) [''in'']]
    :: (int, nat, nat, unit, unit, unit, nat) builder_call list"
  obtain st where st: "builder_run ?cs new_init = Some st"
    by (simp add: init_add_model_def car_def model_id_new_def path_join_def path_from_str_def bind_event_source_def esr_add_def
        esr_add_any_def add_event_source_def max_source_id_def with_num_threads_def endpoints_default_def new_init_def Let_def)
  have b: "map_of (event_binds ?cs) [''in''] = Some (byte_type, lamp_input 1 0, \<lambda>_. ty_schema byte_type)" by simp
  have r: "si_registry (init_build st) = be_registry (in_bench st)" by (simp add: init_build_def)
  have d: "ty_from_cbor byte_type [7] = Inr 7" by (simp add: byte_type_def)
  have f: "es_future_owned (lamp_input 1 0) 7 None = Inr 7" by (simp add: lamp_input_def input_source_def byte_arg_def)
  from wire_event_reaches_source [OF st [unfolded new_init_def] b r d f, of "still_env (\<lambda>_. 0)" "[]"] st show ?thesis by blast
qed

end
