(* ===== verification/Monitor_Service.thy ===== *)
theory Monitor_Service
  imports Server_Types
begin

text \<open>
  Model of \<^verbatim>\<open>src/nexosim/src/server/services/monitor_service.rs\<close>: the requests that read the event sinks. Each
  request that only needs the lock once is one step. Waiting for an event takes two: the sink is rented
  under a first lock, and returned under a second one, possibly after other requests. What the
  wait gives is a parameter: a timeout, the end of the stream or an event, with the sink after it.
\<close>

datatype ('s, 'a) monitor_service = MsHalted | MsStarted "('s, 'a) event_sink_registry"

subsection \<open>Requests\<close>

definition sink_error :: "path \<Rightarrow> ('s, 'a) event_sink_registry \<Rightarrow> error_code" where
  "sink_error sink_path ksr = (if ksr_has_sink sink_path ksr then EcSinkReadRace else EcSinkNotFound)"

text \<open>The loop of \<open>try_read_events\<close>, which runs for as long as the sink gives events.\<close>

partial_function (option) read_events ::
    "('s, 'a) event_sink_entry \<Rightarrow> bytes list \<Rightarrow> ((error_code + bytes list) \<times> ('s, 'a) event_sink_entry) option" where
  "read_events sink encoded_events =
     (case entry_try_read sink of
        (None, sink) \<Rightarrow> Some (Inr encoded_events, sink)
      | (Some encoded_event, sink) \<Rightarrow>
          (case encoded_event of
             Inr e \<Rightarrow> read_events sink (encoded_events @ [e])
           | Inl _ \<Rightarrow> Some (Inl EcInvalidMessage, sink)))"

definition try_read_events ::
    "path option \<Rightarrow> ('s, 'a) monitor_service \<Rightarrow> ((error_code + bytes list) \<times> ('s, 'a) monitor_service) exec" where
  "try_read_events sink_path svc =
     (case svc of
        MsHalted \<Rightarrow> Some (Inl EcSimulationNotStarted, svc)
      | MsStarted ksr \<Rightarrow>
          (case sink_path of
             None \<Rightarrow> Some (Inl EcMissingArgument, svc)
           | Some path \<Rightarrow>
               (case ksr_get_entry_mut path ksr of
                  Inl _ \<Rightarrow> Some (Inl (sink_error path ksr), svc)
                | Inr sink \<Rightarrow> do {
                    (res, sink) \<leftarrow> read_events sink [];
                    Some (res, MsStarted (AList.update path (Some sink) ksr))
                  })))"

definition enable_sink ::
    "path option \<Rightarrow> ('s, 'a) monitor_service \<Rightarrow> (error_code + unit) \<times> ('s, 'a) monitor_service" where
  "enable_sink sink_path svc =
     (case svc of
        MsHalted \<Rightarrow> (Inl EcSimulationNotStarted, svc)
      | MsStarted ksr \<Rightarrow>
          (case sink_path of
             None \<Rightarrow> (Inl EcMissingArgument, svc)
           | Some path \<Rightarrow>
               (case ksr_get_entry_mut path ksr of
                  Inr sink \<Rightarrow> (Inr (), MsStarted (AList.update path (Some (entry_enable sink)) ksr))
                | Inl _ \<Rightarrow> (Inl (sink_error path ksr), svc))))"

definition disable_sink ::
    "path option \<Rightarrow> ('s, 'a) monitor_service \<Rightarrow> (error_code + unit) \<times> ('s, 'a) monitor_service" where
  "disable_sink sink_path svc =
     (case svc of
        MsHalted \<Rightarrow> (Inl EcSimulationNotStarted, svc)
      | MsStarted ksr \<Rightarrow>
          (case sink_path of
             None \<Rightarrow> (Inl EcMissingArgument, svc)
           | Some path \<Rightarrow>
               (case ksr_get_entry_mut path ksr of
                  Inr sink \<Rightarrow> (Inr (), MsStarted (AList.update path (Some (entry_disable sink)) ksr))
                | Inl _ \<Rightarrow> (Inl (sink_error path ksr), svc))))"

subsection \<open>Renting a sink\<close>

definition guard_try_new ::
    "path \<Rightarrow> ('s, 'a) monitor_service \<Rightarrow> (error_code + ('s, 'a) event_sink_entry) \<times> ('s, 'a) monitor_service" where
  "guard_try_new sink_path svc =
     (case svc of
        MsStarted ksr \<Rightarrow>
          (case ksr_rent_entry sink_path ksr of
             (Inr sink, ksr) \<Rightarrow> (Inr sink, MsStarted ksr)
           | (Inl _, ksr) \<Rightarrow> (Inl (sink_error sink_path ksr), MsStarted ksr))
      | MsHalted \<Rightarrow> (Inl EcSimulationNotStarted, svc))"

text \<open>Returning the sink panics when the registry does not know the path.\<close>

definition guard_try_return ::
    "path \<Rightarrow> ('s, 'a) event_sink_entry \<Rightarrow> ('s, 'a) monitor_service \<Rightarrow> ((error_code + unit) \<times> ('s, 'a) monitor_service) exec" where
  "guard_try_return sink_path sink svc =
     (case svc of
        MsStarted ksr \<Rightarrow>
          (case ksr_replace_entry sink_path sink ksr of
             (Inr _, ksr) \<Rightarrow> Some (Inr (), MsStarted ksr)
           | (Inl _, _) \<Rightarrow> None)
      | MsHalted \<Rightarrow> Some (Inl EcSimulationNotStarted, svc))"

datatype ('s, 'a) awaited = AwTimeout 's | AwNext "'a option" 's

definition read_event_begin ::
    "path option \<Rightarrow> ('s, 'a) monitor_service
      \<Rightarrow> (error_code + path \<times> ('s, 'a) event_sink_entry) \<times> ('s, 'a) monitor_service" where
  "read_event_begin sink_path svc =
     (case sink_path of
        None \<Rightarrow> (Inl EcMissingArgument, svc)
      | Some path \<Rightarrow>
          (case guard_try_new path svc of
             (Inl e, svc) \<Rightarrow> (Inl e, svc)
           | (Inr sink, svc) \<Rightarrow> (Inr (path, sink), svc)))"

text \<open>On an early return the guard is dropped, which returns the sink and ignores whether that succeeds.\<close>

definition read_event_finish ::
    "pb_duration option \<Rightarrow> (duration option \<Rightarrow> ('s, 'a) event_sink_entry \<Rightarrow> ('s, 'a) awaited)
      \<Rightarrow> path \<times> ('s, 'a) event_sink_entry \<Rightarrow> ('s, 'a) monitor_service
      \<Rightarrow> ((error_code + bytes) \<times> ('s, 'a) monitor_service) exec" where
  "read_event_finish timeout await guard svc = (case guard of (path, sink) \<Rightarrow> do {
     limit \<leftarrow> (case timeout of None \<Rightarrow> Some (Some None) | Some d \<Rightarrow> map_option (map_option Some) (to_positive_duration d));
     (case limit of
        None \<Rightarrow> map_option (\<lambda>(_, svc). (Inl EcInvalidTimeout, svc)) (guard_try_return path sink svc)
      | Some limit \<Rightarrow>
          (case await limit sink of
             AwTimeout s \<Rightarrow>
               map_option (\<lambda>(_, svc). (Inl EcSinkReadTimeout, svc)) (guard_try_return path (sink\<lparr>ke_sink := s\<rparr>) svc)
           | AwNext event s \<Rightarrow>
               (let sink = sink\<lparr>ke_sink := s\<rparr>;
                    reply = (case event of
                        None \<Rightarrow> Inl EcSinkTerminated
                      | Some e \<Rightarrow> map_sum (\<lambda>_. EcInvalidMessage) id (ty_to_cbor (ke_type sink) e)) in do {
                  (res, svc) \<leftarrow> guard_try_return path sink svc;
                  Some (case res of Inl e \<Rightarrow> Inl e | Inr _ \<Rightarrow> reply, svc)
                })))
   })"

subsection \<open>Reading everything\<close>

text \<open>The events that a sink gives before it has none left.\<close>

inductive sink_gives :: "('s, 'a) sink_ops \<Rightarrow> 's \<Rightarrow> 'a list \<Rightarrow> 's \<Rightarrow> bool" for ops where
  none: "sk_try_read ops s = (None, s') \<Longrightarrow> sink_gives ops s [] s'"
| some: "sk_try_read ops s = (Some e, s1) \<Longrightarrow> sink_gives ops s1 es s' \<Longrightarrow> sink_gives ops s (e # es) s'"

lemma read_events_ok:
  "sink_gives ops s es s' \<Longrightarrow> (\<And>e. e \<in> set es \<Longrightarrow> ty_to_cbor T e = Inr (enc e)) \<Longrightarrow>
     read_events \<lparr>ke_sink = s, ke_ops = ops, ke_type = T\<rparr> acc =
       Some (Inr (acc @ map enc es), \<lparr>ke_sink = s', ke_ops = ops, ke_type = T\<rparr>)"
proof (induction arbitrary: acc rule: sink_gives.induct)
  case (none s s')
  then show ?case by (subst read_events.simps) (simp add: entry_try_read_def)
next
  case (some s e s1 es s')
  then show ?case by (subst read_events.simps) (simp add: entry_try_read_def)
qed

lemma read_events_stops:
  "sink_gives ops s es s' \<Longrightarrow> es = pre @ bad # post \<Longrightarrow> (\<And>e. e \<in> set pre \<Longrightarrow> ty_to_cbor T e = Inr (enc e)) \<Longrightarrow>
     ty_to_cbor T bad = Inl err \<Longrightarrow>
     \<exists>s1. read_events \<lparr>ke_sink = s, ke_ops = ops, ke_type = T\<rparr> acc =
       Some (Inl EcInvalidMessage, \<lparr>ke_sink = s1, ke_ops = ops, ke_type = T\<rparr>) \<and> sink_gives ops s1 post s'"
proof (induction arbitrary: pre acc rule: sink_gives.induct)
  case (some s e s1 es s')
  show ?case
  proof (cases pre)
    case Nil
    with some show ?thesis by (subst read_events.simps) (auto simp: entry_try_read_def)
  next
    case (Cons x xs)
    with some.prems some.hyps some.IH [of xs "acc @ [enc x]"] show ?thesis
      by (subst read_events.simps) (auto simp: entry_try_read_def)
  qed
qed simp

text \<open>C39: Reading a sink. A request to read all events of a sink that holds finitely many returns. When they can
  all be encoded, the reply holds them all, in order; when one of them can not, the reply is an
  error, the events read before it are lost and the ones behind it stay in the sink.\<close>

theorem try_read_events_returns:
  assumes "map_of ksr p = Some (Some \<lparr>ke_sink = s, ke_ops = ops, ke_type = T\<rparr>)" "sink_gives ops s es s'"
  shows "((\<forall>e \<in> set es. ty_to_cbor T e = Inr (enc e)) \<longrightarrow>
      try_read_events (Some p) (MsStarted ksr) =
        Some (Inr (map enc es), MsStarted (AList.update p (Some \<lparr>ke_sink = s', ke_ops = ops, ke_type = T\<rparr>) ksr))) \<and>
    (\<forall>pre bad post err. es = pre @ bad # post \<longrightarrow> (\<forall>e \<in> set pre. ty_to_cbor T e = Inr (enc e)) \<longrightarrow> ty_to_cbor T bad = Inl err \<longrightarrow>
      (\<exists>s1. try_read_events (Some p) (MsStarted ksr) =
        Some (Inl EcInvalidMessage, MsStarted (AList.update p (Some \<lparr>ke_sink = s1, ke_ops = ops, ke_type = T\<rparr>) ksr)) \<and>
        sink_gives ops s1 post s'))"
proof (intro conjI impI allI)
  have e: "ksr_get_entry_mut p ksr = Inr \<lparr>ke_sink = s, ke_ops = ops, ke_type = T\<rparr>"
    using assms(1) by (simp add: ksr_get_entry_mut_def ok_or_else_def)
  {
    assume "\<forall>e \<in> set es. ty_to_cbor T e = Inr (enc e)"
    then show "try_read_events (Some p) (MsStarted ksr) =
        Some (Inr (map enc es), MsStarted (AList.update p (Some \<lparr>ke_sink = s', ke_ops = ops, ke_type = T\<rparr>) ksr))"
      using e read_events_ok [OF assms(2), of T enc "[]"] by (simp add: try_read_events_def)
  next
    fix pre bad post err
    assume "es = pre @ bad # post" "\<forall>e \<in> set pre. ty_to_cbor T e = Inr (enc e)" "ty_to_cbor T bad = Inl err"
    then show "\<exists>s1. try_read_events (Some p) (MsStarted ksr) =
        Some (Inl EcInvalidMessage, MsStarted (AList.update p (Some \<lparr>ke_sink = s1, ke_ops = ops, ke_type = T\<rparr>) ksr)) \<and>
        sink_gives ops s1 post s'"
      using e read_events_stops [OF assms(2), of pre bad post T enc err "[]"] by (auto simp: try_read_events_def)
  }
qed

definition list_ops :: "('a list, 'a) sink_ops" where
  "list_ops = \<lparr>sk_enable = (\<lambda>s. s), sk_disable = (\<lambda>s. s),
     sk_try_read = (\<lambda>s. case s of [] \<Rightarrow> (None, []) | e # es \<Rightarrow> (Some e, es))\<rparr>"

lemma list_ops_gives: "sink_gives list_ops es es []"
proof (induction es)
  case Nil
  then show ?case by (intro sink_gives.none) (simp add: list_ops_def)
next
  case (Cons e es)
  then show ?case by (intro sink_gives.some [of _ _ e es]) (simp_all add: list_ops_def)
qed

definition odd_type :: "nat rust_type" where
  "odd_type = byte_type\<lparr>ty_to_cbor := (\<lambda>v. if odd v then Inr [word_of_nat v] else Inl ''even'')\<rparr>"

theorem try_read_events_returns_witness:
  "\<exists>svc s1. try_read_events (Some [''out'']) (MsStarted [([''out''], Some \<lparr>ke_sink = [1, 3], ke_ops = list_ops, ke_type = odd_type\<rparr>)]) =
     Some (Inr [[1], [3]], svc) \<and>
   try_read_events (Some [''out'']) (MsStarted [([''out''], Some \<lparr>ke_sink = [1, 2, 3], ke_ops = list_ops, ke_type = odd_type\<rparr>)]) =
     Some (Inl EcInvalidMessage, MsStarted [([''out''], Some \<lparr>ke_sink = s1, ke_ops = list_ops, ke_type = odd_type\<rparr>)]) \<and>
   sink_gives list_ops s1 [3] []"
proof -
  have enc: "ty_to_cbor odd_type 1 = Inr [1]" "ty_to_cbor odd_type 3 = Inr [3]" "ty_to_cbor odd_type 2 = Inl ''even''"
    by (simp_all add: odd_type_def)
  let ?r = "\<lambda>es. [([''out''], Some \<lparr>ke_sink = es, ke_ops = list_ops, ke_type = odd_type\<rparr>)]"
  have m: "map_of (?r es) [''out''] = Some (Some \<lparr>ke_sink = es, ke_ops = list_ops, ke_type = odd_type\<rparr>)" for es
    by simp
  have "\<exists>svc. try_read_events (Some [''out'']) (MsStarted (?r [1, 3])) = Some (Inr [[1], [3]], svc)"
    using try_read_events_returns [OF m list_ops_gives, of "[1, 3]" "\<lambda>v. [word_of_nat v]"] enc by simp
  moreover have "\<exists>s1. try_read_events (Some [''out'']) (MsStarted (?r [1, 2, 3])) = Some (Inl EcInvalidMessage, MsStarted (?r s1)) \<and>
      sink_gives list_ops s1 [3] []"
    using try_read_events_returns [OF m list_ops_gives, of "[1, 2, 3]" "\<lambda>v. [word_of_nat v]", THEN conjunct2, THEN spec [of _ "[1]"],
        THEN spec [of _ 2], THEN spec [of _ "[3]"], THEN spec [of _ "''even''"]] enc by simp
  ultimately show ?thesis by blast
qed

text \<open>C40: A rented sink. While a read of a sink waits for an event, every other request on that sink is
  answered with a race error and changes nothing; returning the sink brings the registry back as it
  was, with the sink in its new state.\<close>

theorem rented_sink_exclusive:
  assumes "guard_try_new p (MsStarted ksr) = (Inr sink, svc)"
  shows "guard_try_new p svc = (Inl EcSinkReadRace, svc) \<and>
    try_read_events (Some p) svc = Some (Inl EcSinkReadRace, svc) \<and>
    enable_sink (Some p) svc = (Inl EcSinkReadRace, svc) \<and>
    disable_sink (Some p) svc = (Inl EcSinkReadRace, svc) \<and>
    map_of ksr p = Some (Some sink) \<and>
    (\<exists>ksr'. guard_try_return p sink' svc = Some (Inr (), MsStarted ksr') \<and> map_of ksr' = (map_of ksr)(p \<mapsto> Some sink'))"
proof -
  have m: "map_of ksr p = Some (Some sink)" and svc: "svc = MsStarted (AList.update p None ksr)"
    using assms by (auto simp: guard_try_new_def ksr_rent_entry_def split: option.split_asm)
  have g: "ksr_rent_entry p (AList.update p None ksr) = (Inl (EventSinkNotFound p), AList.update p None ksr)"
    "ksr_get_entry_mut p (AList.update p None ksr) = Inl (EventSinkNotFound p)"
    "sink_error p (AList.update p None ksr) = EcSinkReadRace"
    by (simp_all add: ksr_rent_entry_def ksr_get_entry_mut_def ok_or_else_def sink_error_def ksr_has_sink_def)
  show ?thesis
    by (simp add: svc m g guard_try_new_def try_read_events_def enable_sink_def disable_sink_def
        guard_try_return_def ksr_replace_entry_def)
qed

theorem rented_sink_exclusive_witness:
  "\<exists>sink svc. guard_try_new [''out''] (MsStarted [([''out''], Some \<lparr>ke_sink = [1], ke_ops = list_ops, ke_type = byte_type\<rparr>)]) = (Inr sink, svc) \<and>
     enable_sink (Some [''out'']) svc = (Inl EcSinkReadRace, svc)"
proof -
  let ?r = "[([''out''], Some \<lparr>ke_sink = [1], ke_ops = list_ops, ke_type = byte_type\<rparr>)]"
  obtain sink svc where g: "guard_try_new [''out''] (MsStarted ?r) = (Inr sink, svc)"
    by (simp add: guard_try_new_def ksr_rent_entry_def)
  from rented_sink_exclusive [OF g] g show ?thesis by blast
qed

end
