(* ===== verification/Grpc_Server.thy ===== *)
theory Grpc_Server
  imports Scheduler_Service Controller_Service Monitor_Service
begin

text \<open>
  Model of the global service of \<^verbatim>\<open>src/nexosim/src/server/services.rs\<close> and of the build service of
  \<^verbatim>\<open>src/nexosim/src/server/services/build_service.rs\<close>: how a simulation is built, started and torn down by a remote
  client, and how the other requests reach the services.

  \<^item> Requests are served one after the other. A request that waits for an event of a sink is two
    steps, with other requests between them.
  \<^item> The scheduler state and the injector queue are shared objects: the simulation, the scheduler service and the
    bench service hold handles to them. They are the fields \<open>sv_sched\<close> and \<open>sv_injector\<close> of the
    server, loaded into the simulation before it is used and read back afterwards.
  \<^item> \<open>None\<close> is a request that panics or does not return; nothing is said about the server after
    it, whose locks may be poisoned.
\<close>

subsection \<open>Build service\<close>

text \<open>The error of a user-provided bench builder: a bench error or any other error.\<close>

datatype general_error = GeBench bench_error | GeOther

datatype ('t, 'a, 'f, 'p, 'w, 'c, 'k, 's) build_state =
    BsNone
  | BsBuilt "('t, 'a, 'f, 'p, 'w, 'c, 'k, 's) sim_init" "('s, 'a) event_sink_registry"
      "'a event_source_registry" "'a query_source_registry"
  | BsInitialized

text \<open>A bench builder may keep a state from one call to the next; a builder that panics gives \<open>None\<close>.\<close>

type_synonym ('g, 'i, 't, 'a, 'f, 'p, 'w, 'c, 'k, 's) sim_gen =
  "'i \<Rightarrow> 'g \<Rightarrow> (general_error + ('t, 'a, 'f, 'p, 'w, 'c, 'k, 's) sim_init) option \<times> 'g"

record ('g, 't, 'a, 'f, 'p, 'w, 'c, 'k, 's) build_service =
  bs_gen :: 'g
  bs_state :: "('t, 'a, 'f, 'p, 'w, 'c, 'k, 's) build_state"

definition wrap_sim_gen ::
    "(bytes \<Rightarrow> string + 'i) \<Rightarrow> ('g, 'i, 't, 'a, 'f, 'p, 'w, 'c, 'k, 's) sim_gen \<Rightarrow> bytes \<Rightarrow> 'g
      \<Rightarrow> (string + general_error + ('t, 'a, 'f, 'p, 'w, 'c, 'k, 's) sim_init) option \<times> 'g" where
  "wrap_sim_gen decode sim_gen serialized_cfg g =
     (case decode serialized_cfg of
        Inl e \<Rightarrow> (Some (Inl e), g)
      | Inr cfg \<Rightarrow> (let (bench_result, g) = sim_gen cfg g in (map_option Inr bench_result, g)))"

definition build_service_new :: "'g \<Rightarrow> ('g, 't, 'a, 'f, 'p, 'w, 'c, 'k, 's) build_service" where
  "build_service_new g = \<lparr>bs_gen = g, bs_state = BsNone\<rparr>"

fun from_general_bench_error :: "general_error \<Rightarrow> error_code" where
  "from_general_bench_error (GeBench bench_err) = from_bench_error bench_err"
| "from_general_bench_error GeOther = EcBenchError"

definition build_service_build ::
    "(bytes \<Rightarrow> string + 'i) \<Rightarrow> ('g, 'i, 't, 'a, 'f, 'p, 'w, 'c, 'k, 's) sim_gen \<Rightarrow> bytes
      \<Rightarrow> ('g, 't, 'a, 'f, 'p, 'w, 'c, 'k, 's) build_service
      \<Rightarrow> (error_code + sink_info_registry \<times> 'a event_source_registry \<times> 'a query_source_registry \<times> ('a, 'f) injector_queue)
        \<times> ('g, 't, 'a, 'f, 'p, 'w, 'c, 'k, 's) build_service" where
  "build_service_build decode sim_gen cfg bs =
     (case bs_state bs of
        BsNone \<Rightarrow>
          (let (reply, g) = wrap_sim_gen decode sim_gen cfg (bs_gen bs); bs = bs\<lparr>bs_gen := g\<rparr> in
           (case reply of
              None \<Rightarrow> (Inl EcBenchPanic, bs)
            | Some (Inl _) \<Rightarrow> (Inl EcInvalidMessage, bs)
            | Some (Inr (Inl e)) \<Rightarrow> (Inl (from_general_bench_error e), bs)
            | Some (Inr (Inr bench)) \<Rightarrow>
                (let (ep, bench) = take_endpoints bench in
                 (Inr (en_sink_infos ep, en_event_sources ep, en_query_sources ep, in_injector bench),
                  bs\<lparr>bs_state := BsBuilt bench (en_sinks ep) (en_event_sources ep) (en_query_sources ep)\<rparr>))))
      | _ \<Rightarrow> (Inl EcBenchAlreadyBuilt, bs))"

type_synonym ('t, 'a, 'f, 'p, 'w, 'c, 'k, 's) started =
  "('t, 'a, 'f, 'p, 'w, 'c, 'k) simulation \<times> ('s, 'a) event_sink_registry \<times> 'a event_source_registry \<times> 'a query_source_registry"

text \<open>Both ways to start a simulation need a bench that is built, and use it up even when they fail. The bench
  shares the injector queue \<open>iq\<close> with the injector that was handed out when it was built.\<close>

definition build_service_init ::
    "('t::linorder, 'a, 'f, 'p, 'w, 'c, 'k) sim_env \<Rightarrow> timestamp option \<Rightarrow> ('a, 'f) injector_queue
      \<Rightarrow> ('g, 't, 'a, 'f, 'p, 'w, 'c, 'k, 's) build_service
      \<Rightarrow> ((error_code + ('t, 'a, 'f, 'p, 'w, 'c, 'k, 's) started) \<times> ('g, 't, 'a, 'f, 'p, 'w, 'c, 'k, 's) build_service) exec" where
  "build_service_init E time iq bs =
     (case Option.bind time (timestamp_to_monotonic (en_tai E)) of
        None \<Rightarrow> Some (Inl EcMissingArgument, bs)
      | Some start_time \<Rightarrow>
          (case bs_state bs of
             BsBuilt bench ksr esr qsr \<Rightarrow> do {
               res \<leftarrow> init E start_time (bench\<lparr>in_injector := iq\<rparr>);
               Some (map_sum from_simulation_error (\<lambda>sim. (sim, ksr, esr, qsr)) res, bs\<lparr>bs_state := BsInitialized\<rparr>)
             }
           | _ \<Rightarrow> Some (Inl EcBenchNotBuilt, bs)))"

definition build_service_restore ::
    "('t::linorder, 'a, 'f, 'p, 'w, 'c, 'k) sim_env \<Rightarrow> ('t, 'p, 'w) model_io \<Rightarrow> bincode \<Rightarrow> 't state_codec
      \<Rightarrow> bytes \<Rightarrow> ('a, 'f) injector_queue \<Rightarrow> ('g, 't, 'a, 'f, 'p, 'w, 'c, 'k, 's) build_service
      \<Rightarrow> ((error_code + ('t, 'a, 'f, 'p, 'w, 'c, 'k, 's) started) \<times> ('g, 't, 'a, 'f, 'p, 'w, 'c, 'k, 's) build_service) exec" where
  "build_service_restore E io B C state iq bs =
     (case bs_state bs of
        BsBuilt bench ksr esr qsr \<Rightarrow> do {
          res \<leftarrow> init_restore E io B C state (bench\<lparr>in_injector := iq\<rparr>);
          Some (map_sum from_simulation_error (\<lambda>sim. (sim, ksr, esr, qsr)) res, bs\<lparr>bs_state := BsInitialized\<rparr>)
        }
      | _ \<Rightarrow> Some (Inl EcBenchNotBuilt, bs))"

definition reset_state ::
    "('g, 't, 'a, 'f, 'p, 'w, 'c, 'k, 's) build_service \<Rightarrow> ('g, 't, 'a, 'f, 'p, 'w, 'c, 'k, 's) build_service" where
  "reset_state bs = bs\<lparr>bs_state := BsNone\<rparr>"

subsection \<open>The global service\<close>

record ('g, 't, 'a, 'f, 'p, 'w, 'c, 'k, 's) grpc_server =
  sv_build :: "('g, 't, 'a, 'f, 'p, 'w, 'c, 'k, 's) build_service"
  sv_controller :: "('t, 'a, 'f, 'p, 'w, 'c, 'k) controller_service"
  sv_scheduler :: "('t, 'a) scheduler_service"
  sv_monitor :: "('s, 'a) monitor_service"
  sv_bench :: "'a bench_service"
  sv_sched :: "('t, 'a) sched"
  sv_injector :: "('a, 'f) injector_queue"

text \<open>What the server is given: the environment of its simulations, the formats of the saved states, and how
  to build a bench from a serialized configuration.\<close>

record ('g, 'i, 't, 'a, 'f, 'p, 'w, 'c, 'k, 's) grpc_env =
  ve_env :: "('t, 'a, 'f, 'p, 'w, 'c, 'k) sim_env"
  ve_io :: "('t, 'p, 'w) model_io"
  ve_bincode :: bincode
  ve_codec :: "'t state_codec"
  ve_decode :: "bytes \<Rightarrow> string + 'i"
  ve_sim_gen :: "('g, 'i, 't, 'a, 'f, 'p, 'w, 'c, 'k, 's) sim_gen"

text \<open>Before a simulation has been built no handle to the shared objects exists; \<open>sc\<close> and \<open>iq\<close> are then
  not used.\<close>

definition grpc_new ::
    "'g \<Rightarrow> ('t, 'a) sched \<Rightarrow> ('a, 'f) injector_queue \<Rightarrow> ('g, 't, 'a, 'f, 'p, 'w, 'c, 'k, 's) grpc_server" where
  "grpc_new g sc iq = \<lparr>sv_build = build_service_new g, sv_controller = CsHalted, sv_scheduler = SsHalted,
     sv_monitor = MsHalted, sv_bench = BhHalted, sv_sched = sc, sv_injector = iq\<rparr>"

definition start_init_services ::
    "sink_info_registry \<Rightarrow> 'a event_source_registry \<Rightarrow> 'a query_source_registry \<Rightarrow> ('a, 'f) injector_queue
      \<Rightarrow> ('g, 't, 'a, 'f, 'p, 'w, 'c, 'k, 's) grpc_server \<Rightarrow> ('g, 't, 'a, 'f, 'p, 'w, 'c, 'k, 's) grpc_server" where
  "start_init_services kir esr qsr injector sv = sv\<lparr>sv_bench := BhStarted kir esr qsr, sv_injector := injector\<rparr>"

definition start_simulation_services ::
    "('t, 'a, 'f, 'p, 'w, 'c, 'k, 's) started
      \<Rightarrow> ('g, 't::linorder, 'a, 'f, 'p, 'w, 'c, 'k, 's) grpc_server \<Rightarrow> ('g, 't, 'a, 'f, 'p, 'w, 'c, 'k, 's) grpc_server" where
  "start_simulation_services started sv = (case started of (simulation, ksr, esr, qsr) \<Rightarrow>
     sv\<lparr>sv_controller := CsStarted simulation esr qsr, sv_monitor := MsStarted ksr,
        sv_scheduler := SsStarted esr qsr kr_default,
        sv_sched := si_sched simulation, sv_injector := si_injector simulation\<rparr>)"

type_synonym ('g, 't, 'a, 'f, 'p, 'w, 'c, 'k, 's, 'x) grpc_op =
  "('g, 't, 'a, 'f, 'p, 'w, 'c, 'k, 's) grpc_server \<Rightarrow> ((error_code + 'x) \<times> ('g, 't, 'a, 'f, 'p, 'w, 'c, 'k, 's) grpc_server) exec"

definition with_shared ::
    "('t, 'a) sched \<Rightarrow> ('a, 'f) injector_queue \<Rightarrow> ('t, 'a, 'f, 'p, 'w, 'c, 'k) controller_service
      \<Rightarrow> ('t, 'a, 'f, 'p, 'w, 'c, 'k) controller_service" where
  "with_shared sc iq svc =
     (case svc of
        CsHalted \<Rightarrow> CsHalted
      | CsStarted sim esr qsr \<Rightarrow> CsStarted (sim\<lparr>si_sched := sc, si_injector := iq\<rparr>) esr qsr)"

definition execute_controller_fn ::
    "('t, 'a, 'f, 'p, 'w, 'c, 'k, 'x) controller_op \<Rightarrow> ('g, 't, 'a, 'f, 'p, 'w, 'c, 'k, 's, 'x) grpc_op" where
  "execute_controller_fn f sv = do {
     (reply, svc) \<leftarrow> f (with_shared (sv_sched sv) (sv_injector sv) (sv_controller sv));
     Some (reply,
       (case svc of
          CsHalted \<Rightarrow> sv\<lparr>sv_controller := CsHalted\<rparr>
        | CsStarted sim _ _ \<Rightarrow> sv\<lparr>sv_controller := svc, sv_sched := si_sched sim, sv_injector := si_injector sim\<rparr>))
   }"

definition with_scheduler :: "('t, 'a, 'x) service_op \<Rightarrow> ('g, 't, 'a, 'f, 'p, 'w, 'c, 'k, 's, 'x) grpc_op" where
  "with_scheduler f sv = do {
     (reply, svc, sc) \<leftarrow> f (sv_scheduler sv, sv_sched sv);
     Some (reply, sv\<lparr>sv_scheduler := svc, sv_sched := sc\<rparr>)
   }"

subsection \<open>Life cycle requests\<close>

definition grpc_tear_down :: "('g, 't, 'a, 'f, 'p, 'w, 'c, 'k, 's) grpc_server \<Rightarrow> ('g, 't, 'a, 'f, 'p, 'w, 'c, 'k, 's) grpc_server" where
  "grpc_tear_down sv =
     (let sv = (case sv_scheduler sv of
                  SsHalted \<Rightarrow> sv
                | SsStarted _ _ _ \<Rightarrow> sv\<lparr>sv_scheduler := SsHalted, sv_sched := tear_down (sv_sched sv)\<rparr>) in
      sv\<lparr>sv_controller := CsHalted, sv_bench := BhHalted, sv_monitor := MsHalted, sv_build := reset_state (sv_build sv)\<rparr>)"

definition grpc_build ::
    "('g, 'i, 't, 'a, 'f, 'p, 'w, 'c, 'k, 's) grpc_env \<Rightarrow> bytes \<Rightarrow> ('g, 't, 'a, 'f, 'p, 'w, 'c, 'k, 's) grpc_server \<Rightarrow> (error_code + unit) \<times> ('g, 't, 'a, 'f, 'p, 'w, 'c, 'k, 's) grpc_server" where
  "grpc_build V cfg sv =
     (let (reply, bs) = build_service_build (ve_decode V) (ve_sim_gen V) cfg (sv_build sv); sv = sv\<lparr>sv_build := bs\<rparr> in
      (case reply of
         Inl e \<Rightarrow> (Inl e, sv)
       | Inr (kir, esr, qsr, injector) \<Rightarrow> (Inr (), start_init_services kir esr qsr injector sv)))"

text \<open>What the handlers of \<open>init\<close> and \<open>restore\<close> do with the reply of the build service.\<close>

definition start_reply ::
    "(error_code + ('t, 'a, 'f, 'p, 'w, 'c, 'k, 's) started) \<times> ('g, 't, 'a, 'f, 'p, 'w, 'c, 'k, 's) build_service
      \<Rightarrow> ('g, 't::linorder, 'a, 'f, 'p, 'w, 'c, 'k, 's) grpc_server \<Rightarrow> (error_code + unit) \<times> ('g, 't, 'a, 'f, 'p, 'w, 'c, 'k, 's) grpc_server" where
  "start_reply res sv = (case res of (reply, bs) \<Rightarrow>
     (let sv = sv\<lparr>sv_build := bs\<rparr> in
      (case reply of
         Inl e \<Rightarrow> (Inl e, sv)
       | Inr started \<Rightarrow> (Inr (), start_simulation_services started sv))))"

definition grpc_init ::
    "('g, 'i, 't::linorder, 'a, 'f, 'p, 'w, 'c, 'k, 's) grpc_env \<Rightarrow> timestamp option \<Rightarrow> ('g, 't, 'a, 'f, 'p, 'w, 'c, 'k, 's, unit) grpc_op" where
  "grpc_init V time sv = do {
     res \<leftarrow> build_service_init (ve_env V) time (sv_injector sv) (sv_build sv);
     Some (start_reply res sv)
   }"

definition grpc_restore ::
    "('g, 'i, 't::linorder, 'a, 'f, 'p, 'w, 'c, 'k, 's) grpc_env \<Rightarrow> bytes \<Rightarrow> ('g, 't, 'a, 'f, 'p, 'w, 'c, 'k, 's, unit) grpc_op" where
  "grpc_restore V state sv = do {
     res \<leftarrow> build_service_restore (ve_env V) (ve_io V) (ve_bincode V) (ve_codec V) state (sv_injector sv) (sv_build sv);
     Some (start_reply res sv)
   }"

definition grpc_run :: "('g, 'i, 't::linorder, 'a, 'f, 'p, 'w, 'c, 'k, 's) grpc_env \<Rightarrow> ('g, 't, 'a, 'f, 'p, 'w, 'c, 'k, 's, timestamp) grpc_op" where
  "grpc_run V = execute_controller_fn (controller_run (ve_env V))"

definition grpc_init_and_run ::
    "('g, 'i, 't::linorder, 'a, 'f, 'p, 'w, 'c, 'k, 's) grpc_env \<Rightarrow> timestamp option \<Rightarrow> ('g, 't, 'a, 'f, 'p, 'w, 'c, 'k, 's, timestamp) grpc_op" where
  "grpc_init_and_run V time sv = do {
     (reply, sv) \<leftarrow> grpc_init V time sv;
     (case reply of Inl e \<Rightarrow> Some (Inl e, sv) | Inr _ \<Rightarrow> execute_controller_fn (controller_run (ve_env V)) sv)
   }"

definition grpc_restore_and_run ::
    "('g, 'i, 't::linorder, 'a, 'f, 'p, 'w, 'c, 'k, 's) grpc_env \<Rightarrow> bytes \<Rightarrow> ('g, 't, 'a, 'f, 'p, 'w, 'c, 'k, 's, timestamp) grpc_op" where
  "grpc_restore_and_run V state sv = do {
     (reply, sv) \<leftarrow> grpc_restore V state sv;
     (case reply of Inl e \<Rightarrow> Some (Inl e, sv) | Inr _ \<Rightarrow> execute_controller_fn (controller_run (ve_env V)) sv)
   }"

subsection \<open>Requests on the bench\<close>

text \<open>A reply with a list and an empty or error result.\<close>

definition list_reply :: "error_code + 'x list \<Rightarrow> 'x list \<times> (error_code + unit)" where
  "list_reply reply = (case reply of Inr xs \<Rightarrow> (xs, Inr ()) | Inl e \<Rightarrow> ([], Inl e))"

definition grpc_list_event_sources :: "('g, 't, 'a, 'f, 'p, 'w, 'c, 'k, 's) grpc_server \<Rightarrow> path list \<times> (error_code + unit)" where
  "grpc_list_event_sources sv = list_reply (bench_list_event_sources (sv_bench sv))"

definition grpc_get_event_source_schemas ::
    "path list \<Rightarrow> ('g, 't, 'a, 'f, 'p, 'w, 'c, 'k, 's) grpc_server \<Rightarrow> (path \<times> string) list \<times> (error_code + unit)" where
  "grpc_get_event_source_schemas sources sv = list_reply (bench_get_event_source_schemas sources (sv_bench sv))"

definition grpc_list_query_sources :: "('g, 't, 'a, 'f, 'p, 'w, 'c, 'k, 's) grpc_server \<Rightarrow> path list \<times> (error_code + unit)" where
  "grpc_list_query_sources sv = list_reply (bench_list_query_sources (sv_bench sv))"

definition grpc_get_query_source_schemas ::
    "path list \<Rightarrow> ('g, 't, 'a, 'f, 'p, 'w, 'c, 'k, 's) grpc_server \<Rightarrow> (path \<times> string \<times> string) list \<times> (error_code + unit)" where
  "grpc_get_query_source_schemas sources sv = list_reply (bench_get_query_source_schemas sources (sv_bench sv))"

definition grpc_list_event_sinks :: "('g, 't, 'a, 'f, 'p, 'w, 'c, 'k, 's) grpc_server \<Rightarrow> path list \<times> (error_code + unit)" where
  "grpc_list_event_sinks sv = list_reply (bench_list_event_sinks (sv_bench sv))"

definition grpc_get_event_sink_schemas ::
    "path list \<Rightarrow> ('g, 't, 'a, 'f, 'p, 'w, 'c, 'k, 's) grpc_server \<Rightarrow> (path \<times> string) list \<times> (error_code + unit)" where
  "grpc_get_event_sink_schemas sinks sv = list_reply (bench_get_event_sink_schemas sinks (sv_bench sv))"

definition grpc_inject_event ::
    "path option \<Rightarrow> bytes \<Rightarrow> ('g, 't, 'a, 'f, 'p, 'w, 'c, 'k, 's, unit) grpc_op" where
  "grpc_inject_event source event sv = do {
     (reply, iq) \<leftarrow> bench_inject_event source event (sv_bench sv) (sv_injector sv);
     Some (reply, sv\<lparr>sv_injector := iq\<rparr>)
   }"

subsection \<open>Requests on the controller\<close>

definition grpc_save :: "('g, 'i, 't::linorder, 'a, 'f, 'p, 'w, 'c, 'k, 's) grpc_env \<Rightarrow> ('g, 't, 'a, 'f, 'p, 'w, 'c, 'k, 's, bytes) grpc_op" where
  "grpc_save V = execute_controller_fn (controller_save (ve_env V) (ve_io V) (ve_bincode V) (ve_codec V))"

definition grpc_step :: "('g, 'i, 't::linorder, 'a, 'f, 'p, 'w, 'c, 'k, 's) grpc_env \<Rightarrow> ('g, 't, 'a, 'f, 'p, 'w, 'c, 'k, 's, timestamp) grpc_op" where
  "grpc_step V = execute_controller_fn (controller_step (ve_env V))"

definition grpc_step_until ::
    "('g, 'i, 't::linorder, 'a, 'f, 'p, 'w, 'c, 'k, 's) grpc_env \<Rightarrow> step_until_deadline option \<Rightarrow> ('g, 't, 'a, 'f, 'p, 'w, 'c, 'k, 's, timestamp) grpc_op" where
  "grpc_step_until V deadline = execute_controller_fn (controller_step_until (ve_env V) deadline)"

definition grpc_process_event ::
    "('g, 'i, 't::linorder, 'a, 'f, 'p, 'w, 'c, 'k, 's) grpc_env \<Rightarrow> path option \<Rightarrow> bytes \<Rightarrow> ('g, 't, 'a, 'f, 'p, 'w, 'c, 'k, 's, unit) grpc_op" where
  "grpc_process_event V source event = execute_controller_fn (controller_process_event (ve_env V) source event)"

definition grpc_process_query ::
    "('g, 'i, 't::linorder, 'a, 'f, 'p, 'w, 'c, 'k, 's) grpc_env \<Rightarrow> path option \<Rightarrow> bytes \<Rightarrow> ('g, 't, 'a, 'f, 'p, 'w, 'c, 'k, 's, bytes list) grpc_op" where
  "grpc_process_query V source request = execute_controller_fn (controller_process_query (ve_env V) source request)"

subsection \<open>Requests on the scheduler\<close>

definition grpc_time ::
    "('g, 'i, 't, 'a, 'f, 'p, 'w, 'c, 'k, 's) grpc_env \<Rightarrow> ('g, 't, 'a, 'f, 'p, 'w, 'c, 'k, 's) grpc_server \<Rightarrow> error_code + timestamp" where
  "grpc_time V sv = service_time (en_tai (ve_env V)) (sv_scheduler sv) (sv_sched sv)"

definition grpc_halt :: "('g, 't, 'a, 'f, 'p, 'w, 'c, 'k, 's) grpc_server \<Rightarrow> (error_code + unit) \<times> ('g, 't, 'a, 'f, 'p, 'w, 'c, 'k, 's) grpc_server" where
  "grpc_halt sv = (let (reply, sc) = service_halt (sv_scheduler sv) (sv_sched sv) in (reply, sv\<lparr>sv_sched := sc\<rparr>))"

definition grpc_schedule_event ::
    "('g, 'i, 't::linorder, 'a, 'f, 'p, 'w, 'c, 'k, 's) grpc_env \<Rightarrow> schedule_event_request \<Rightarrow> ('g, 't, 'a, 'f, 'p, 'w, 'c, 'k, 's, (nat \<times> nat) option) grpc_op" where
  "grpc_schedule_event V request sv = do {
     (reply, sv) \<leftarrow> with_scheduler (service_schedule_event (en_tai (ve_env V)) request) sv;
     Some (map_sum id (map_option into_raw_parts) reply, sv)
   }"

definition grpc_cancel_event ::
    "(nat \<times> nat) option \<Rightarrow> ('g, 't::linorder, 'a, 'f, 'p, 'w, 'c, 'k, 's, unit) grpc_op" where
  "grpc_cancel_event key = with_scheduler (service_cancel_event key)"

text \<open>The replies of a scheduled query are awaited after the lock on the service is released; \<open>replies\<close> gives
  what a reply channel finally receives.\<close>

definition grpc_schedule_query ::
    "('g, 'i, 't::linorder, 'a, 'f, 'p, 'w, 'c, 'k, 's) grpc_env \<Rightarrow> (nat \<Rightarrow> 'a list option) \<Rightarrow> schedule_query_request \<Rightarrow> ('g, 't, 'a, 'f, 'p, 'w, 'c, 'k, 's, bytes list) grpc_op" where
  "grpc_schedule_query V replies request sv = do {
     (result, sv) \<leftarrow> with_scheduler (service_schedule_query (en_tai (ve_env V)) request) sv;
     Some (case result of Inl e \<Rightarrow> Inl e | Inr (rx, R) \<Rightarrow> query_reply R (replies rx), sv)
   }"

subsection \<open>Requests on the monitor\<close>

definition grpc_try_read_events ::
    "path option \<Rightarrow> ('g, 't, 'a, 'f, 'p, 'w, 'c, 'k, 's, bytes list) grpc_op" where
  "grpc_try_read_events sink sv = do {
     (reply, svc) \<leftarrow> try_read_events sink (sv_monitor sv);
     Some (reply, sv\<lparr>sv_monitor := svc\<rparr>)
   }"

definition grpc_read_event_begin ::
    "path option \<Rightarrow> ('g, 't, 'a, 'f, 'p, 'w, 'c, 'k, 's) grpc_server \<Rightarrow> (error_code + path \<times> ('s, 'a) event_sink_entry) \<times> ('g, 't, 'a, 'f, 'p, 'w, 'c, 'k, 's) grpc_server" where
  "grpc_read_event_begin sink sv = (let (reply, svc) = read_event_begin sink (sv_monitor sv) in (reply, sv\<lparr>sv_monitor := svc\<rparr>))"

definition grpc_read_event_finish ::
    "pb_duration option \<Rightarrow> (duration option \<Rightarrow> ('s, 'a) event_sink_entry \<Rightarrow> ('s, 'a) awaited)
      \<Rightarrow> path \<times> ('s, 'a) event_sink_entry \<Rightarrow> ('g, 't, 'a, 'f, 'p, 'w, 'c, 'k, 's, bytes) grpc_op" where
  "grpc_read_event_finish timeout await guard sv = do {
     (reply, svc) \<leftarrow> read_event_finish timeout await guard (sv_monitor sv);
     Some (reply, sv\<lparr>sv_monitor := svc\<rparr>)
   }"

definition grpc_enable_sink :: "path option \<Rightarrow> ('g, 't, 'a, 'f, 'p, 'w, 'c, 'k, 's) grpc_server \<Rightarrow> (error_code + unit) \<times> ('g, 't, 'a, 'f, 'p, 'w, 'c, 'k, 's) grpc_server" where
  "grpc_enable_sink sink sv = (let (reply, svc) = enable_sink sink (sv_monitor sv) in (reply, sv\<lparr>sv_monitor := svc\<rparr>))"

definition grpc_disable_sink :: "path option \<Rightarrow> ('g, 't, 'a, 'f, 'p, 'w, 'c, 'k, 's) grpc_server \<Rightarrow> (error_code + unit) \<times> ('g, 't, 'a, 'f, 'p, 'w, 'c, 'k, 's) grpc_server" where
  "grpc_disable_sink sink sv = (let (reply, svc) = disable_sink sink (sv_monitor sv) in (reply, sv\<lparr>sv_monitor := svc\<rparr>))"

end
