(* ===== verification/Grpc_Lifecycle.thy ===== *)
theory Grpc_Lifecycle
  imports Grpc_Server
begin

text \<open>
  The life cycle of a served simulation: which services are started in which state of the build service,
  whatever requests a client sends and in whatever order, and what the server replies after a
  tear-down and after a failed start.
\<close>

subsection \<open>Requests of the services\<close>

text \<open>A request on the controller is refused when it is halted, and never starts or halts it.\<close>

locale controller_request =
  fixes f :: "('t, 'a, 'f, 'p, 'w, 'c, 'k, 'x) controller_op"
  assumes refused: "f CsHalted = Some (Inl EcSimulationNotStarted, CsHalted)"
    and served: "f (CsStarted sim esr qsr) = Some (reply, svc) \<Longrightarrow> \<exists>sim'. svc = CsStarted sim' esr qsr"

lemmas controller_splits = option.split_asm sum.split_asm prod.split_asm bind_split_asm

interpretation rq_step: controller_request "controller_step E" for E
  by unfold_locales (auto simp: controller_step_def split: controller_splits)

interpretation rq_step_until: controller_request "controller_step_until E deadline" for E deadline
  by unfold_locales (auto simp: controller_step_until_def split: controller_splits step_until_deadline.split_asm)

interpretation rq_run: controller_request "controller_run E" for E
  by unfold_locales (auto simp: controller_run_def split: controller_splits)

interpretation rq_process_event: controller_request "controller_process_event E p arg" for E p arg
  by unfold_locales (auto simp: controller_process_event_def split: controller_splits)

interpretation rq_process_query: controller_request "controller_process_query E p arg" for E p arg
  by unfold_locales (auto simp: controller_process_query_def split: controller_splits)

interpretation rq_save: controller_request "controller_save E io B C" for E io B C
  by unfold_locales (auto simp: controller_save_def split: controller_splits)

text \<open>The same for a request on the scheduler, which keeps the registries.\<close>

locale scheduler_request =
  fixes f :: "('t, 'a, 'x) service_op"
  assumes refused: "f (SsHalted, sc) = Some (Inl EcSimulationNotStarted, SsHalted, sc)"
    and served: "f (SsStarted esr qsr kr, sc) = Some (reply, svc, sc') \<Longrightarrow> \<exists>kr'. svc = SsStarted esr qsr kr'"

interpretation rq_schedule_event: scheduler_request "service_schedule_event T rq" for T rq
  by unfold_locales (auto simp: service_schedule_event_def Let_def split: controller_splits)

interpretation rq_cancel_event: scheduler_request "service_cancel_event key" for key
  by unfold_locales (auto simp: service_cancel_event_def split: controller_splits if_split_asm)

interpretation rq_schedule_query: scheduler_request "service_schedule_query T rq" for T rq
  by unfold_locales (auto simp: service_schedule_query_def Let_def split: controller_splits)

text \<open>And for a request on the monitor.\<close>

locale monitor_request =
  fixes f :: "('s, 'a) monitor_service \<Rightarrow> ('r \<times> ('s, 'a) monitor_service) option"
  assumes refused: "f MsHalted = Some (reply, svc) \<Longrightarrow> svc = MsHalted"
    and served: "f (MsStarted ksr) = Some (reply, svc) \<Longrightarrow> \<exists>ksr'. svc = MsStarted ksr'"

interpretation rq_try_read: monitor_request "try_read_events p" for p
  by unfold_locales (auto simp: try_read_events_def split: controller_splits)

interpretation rq_enable: monitor_request "\<lambda>svc. Some (enable_sink p svc)" for p
  by unfold_locales (auto simp: enable_sink_def split: controller_splits)

interpretation rq_disable: monitor_request "\<lambda>svc. Some (disable_sink p svc)" for p
  by unfold_locales (auto simp: disable_sink_def split: controller_splits)

interpretation rq_begin: monitor_request "\<lambda>svc. Some (read_event_begin p svc)" for p
  by unfold_locales (auto simp: read_event_begin_def guard_try_new_def split: controller_splits)

interpretation rq_finish: monitor_request "read_event_finish d aw g" for d aw g
  by unfold_locales (auto simp: read_event_finish_def guard_try_return_def Let_def split: controller_splits monitor_service.split_asm awaited.split_asm)

subsection \<open>The life cycle\<close>

text \<open>Every service is halted as long as there is no bench. When a bench is built, only the requests on the bench
  are served, with its registries. When it has been started, the other services are either all
  started, with the registries of the bench, or, after a failure, all halted.\<close>

definition running ::
    "'a event_source_registry \<Rightarrow> 'a query_source_registry \<Rightarrow> ('g, 't, 'a, 'f, 'p, 'w, 'c, 'k, 's) grpc_server \<Rightarrow> bool" where
  "running esr qsr sv \<longleftrightarrow>
     (\<exists>sim kr ksr. sv_controller sv = CsStarted sim esr qsr \<and> sv_scheduler sv = SsStarted esr qsr kr \<and> sv_monitor sv = MsStarted ksr)"

definition halted :: "('g, 't, 'a, 'f, 'p, 'w, 'c, 'k, 's) grpc_server \<Rightarrow> bool" where
  "halted sv \<longleftrightarrow> sv_controller sv = CsHalted \<and> sv_scheduler sv = SsHalted \<and> sv_monitor sv = MsHalted"

definition lifecycle :: "('g, 't, 'a, 'f, 'p, 'w, 'c, 'k, 's) grpc_server \<Rightarrow> bool" where
  "lifecycle sv \<longleftrightarrow>
     (case bs_state (sv_build sv) of
        BsNone \<Rightarrow> halted sv \<and> sv_bench sv = BhHalted
      | BsBuilt bench ksr esr qsr \<Rightarrow> halted sv \<and> (\<exists>kir. sv_bench sv = BhStarted kir esr qsr)
      | BsInitialized \<Rightarrow> (\<exists>kir esr qsr. sv_bench sv = BhStarted kir esr qsr \<and> (halted sv \<or> running esr qsr sv)))"

text \<open>The requests that may change the state of the server.\<close>

inductive grpc_request ::
    "('g, 'i, 't::linorder, 'a, 'f, 'p, 'w, 'c, 'k, 's) grpc_env \<Rightarrow> ('g, 't, 'a, 'f, 'p, 'w, 'c, 'k, 's) grpc_server \<Rightarrow> ('g, 't, 'a, 'f, 'p, 'w, 'c, 'k, 's) grpc_server \<Rightarrow> bool"
  for V sv where
  rq_tear_down: "grpc_request V sv (grpc_tear_down sv)"
| rq_build: "grpc_build V cfg sv = (r, sv') \<Longrightarrow> grpc_request V sv sv'"
| rq_init: "grpc_init V time sv = Some (r, sv') \<Longrightarrow> grpc_request V sv sv'"
| rq_init_and_run: "grpc_init_and_run V time sv = Some (t, sv') \<Longrightarrow> grpc_request V sv sv'"
| rq_restore: "grpc_restore V state sv = Some (r, sv') \<Longrightarrow> grpc_request V sv sv'"
| rq_restore_and_run: "grpc_restore_and_run V state sv = Some (t, sv') \<Longrightarrow> grpc_request V sv sv'"
| rq_inject_event: "grpc_inject_event path arg sv = Some (r, sv') \<Longrightarrow> grpc_request V sv sv'"
| rq_save: "grpc_save V sv = Some (b, sv') \<Longrightarrow> grpc_request V sv sv'"
| rq_step: "grpc_step V sv = Some (t, sv') \<Longrightarrow> grpc_request V sv sv'"
| rq_step_until: "grpc_step_until V deadline sv = Some (t, sv') \<Longrightarrow> grpc_request V sv sv'"
| rq_run: "grpc_run V sv = Some (t, sv') \<Longrightarrow> grpc_request V sv sv'"
| rq_process_event: "grpc_process_event V path arg sv = Some (r, sv') \<Longrightarrow> grpc_request V sv sv'"
| rq_process_query: "grpc_process_query V path arg sv = Some (l, sv') \<Longrightarrow> grpc_request V sv sv'"
| rq_halt: "grpc_halt sv = (r, sv') \<Longrightarrow> grpc_request V sv sv'"
| rq_schedule_event: "grpc_schedule_event V rq sv = Some (k, sv') \<Longrightarrow> grpc_request V sv sv'"
| rq_cancel_event: "grpc_cancel_event key sv = Some (r, sv') \<Longrightarrow> grpc_request V sv sv'"
| rq_schedule_query: "grpc_schedule_query V replies rs sv = Some (l, sv') \<Longrightarrow> grpc_request V sv sv'"
| rq_try_read_events: "grpc_try_read_events path sv = Some (l, sv') \<Longrightarrow> grpc_request V sv sv'"
| rq_read_event_begin: "grpc_read_event_begin path sv = (g, sv') \<Longrightarrow> grpc_request V sv sv'"
| rq_read_event_finish: "grpc_read_event_finish timeout await guard sv = Some (b, sv') \<Longrightarrow> grpc_request V sv sv'"
| rq_enable_sink: "grpc_enable_sink path sv = (r, sv') \<Longrightarrow> grpc_request V sv sv'"
| rq_disable_sink: "grpc_disable_sink path sv = (r, sv') \<Longrightarrow> grpc_request V sv sv'"

text \<open>A change of one service that neither starts nor halts it keeps the life cycle.\<close>

definition same_phase ::
    "('g, 't, 'a, 'f, 'p, 'w, 'c, 'k, 's) grpc_server \<Rightarrow> ('g, 't, 'a, 'f, 'p, 'w, 'c, 'k, 's) grpc_server \<Rightarrow> bool" where
  "same_phase sv sv' \<longleftrightarrow>
     sv_build sv' = sv_build sv \<and> sv_bench sv' = sv_bench sv \<and> (halted sv \<longrightarrow> halted sv') \<and>
     (\<forall>esr qsr. running esr qsr sv \<longrightarrow> running esr qsr sv')"

lemma same_phase_refl [simp]: "same_phase sv sv"
  by (simp add: same_phase_def)

lemma same_phase_lifecycle: "same_phase sv sv' \<Longrightarrow> lifecycle sv \<Longrightarrow> lifecycle sv'"
  by (auto simp: same_phase_def lifecycle_def split: build_state.splits)

lemma same_phase_shared [simp]:
  "same_phase sv (sv\<lparr>sv_sched := sc\<rparr>)" "same_phase sv (sv\<lparr>sv_injector := iq\<rparr>)"
  by (simp_all add: same_phase_def halted_def running_def)

context controller_request
begin

lemma execute_phase:
  assumes "execute_controller_fn f sv = Some (reply, sv')"
  shows "same_phase sv sv'"
proof (cases "sv_controller sv")
  case CsHalted
  with assms show ?thesis
    by (auto simp: execute_controller_fn_def with_shared_def refused same_phase_def halted_def running_def)
next
  case (CsStarted sim esr qsr)
  with assms show ?thesis
    by (auto simp: execute_controller_fn_def with_shared_def same_phase_def halted_def running_def bind_eq_Some_conv dest!: served)
qed

lemma execute_refused:
  "sv_controller sv = CsHalted \<Longrightarrow> execute_controller_fn f sv = Some (Inl EcSimulationNotStarted, sv)"
  by (simp add: execute_controller_fn_def with_shared_def refused)

end

context scheduler_request
begin

lemma scheduler_phase:
  assumes "with_scheduler f sv = Some (reply, sv')"
  shows "same_phase sv sv'"
proof (cases "sv_scheduler sv")
  case SsHalted
  with assms show ?thesis
    by (auto simp: with_scheduler_def refused same_phase_def halted_def running_def)
next
  case (SsStarted esr qsr kr)
  with assms show ?thesis
    by (auto simp: with_scheduler_def same_phase_def halted_def running_def bind_eq_Some_conv dest!: served)
qed

lemma scheduler_refused:
  "sv_scheduler sv = SsHalted \<Longrightarrow> with_scheduler f sv = Some (Inl EcSimulationNotStarted, sv)"
  by (simp add: with_scheduler_def refused)

end

context monitor_request
begin

lemma monitor_phase:
  assumes "f (sv_monitor sv) = Some (reply, svc)"
  shows "same_phase sv (sv\<lparr>sv_monitor := svc\<rparr>)"
proof (cases "sv_monitor sv")
  case MsHalted
  with assms show ?thesis
    by (auto simp: same_phase_def halted_def running_def dest!: refused)
next
  case (MsStarted ksr)
  with assms show ?thesis
    by (auto simp: same_phase_def halted_def running_def dest!: served)
qed

end

lemma build_lifecycle:
  assumes "grpc_build V cfg sv = (r, sv')" "lifecycle sv"
  shows "lifecycle sv'"
  using assms
  by (auto simp: grpc_build_def build_service_build_def lifecycle_def start_init_services_def take_endpoints_def halted_def Let_def
      split: build_state.split_asm prod.split_asm sum.split_asm option.split_asm)

lemma start_lifecycle:
  assumes "lifecycle sv" "bs_state (sv_build sv) = BsBuilt bench ksr esr qsr"
    and "start_reply (map_sum e (\<lambda>sim. (sim, ksr, esr, qsr)) res, (sv_build sv)\<lparr>bs_state := BsInitialized\<rparr>) sv = (r, sv')"
  shows "lifecycle sv'"
  using assms
  by (cases res) (auto simp: start_reply_def lifecycle_def start_simulation_services_def halted_def running_def)

lemma refused_start [simp]: "start_reply (Inl e, sv_build sv) sv = (Inl e, sv)"
  by (simp add: start_reply_def)

lemma init_lifecycle:
  assumes "grpc_init V time sv = Some (r, sv')" "lifecycle sv"
  shows "lifecycle sv'"
proof (cases "Option.bind time (timestamp_to_monotonic (en_tai (ve_env V)))")
  case None
  with assms show ?thesis by (auto simp: grpc_init_def build_service_init_def)
next
  case (Some t)
  show ?thesis
  proof (cases "bs_state (sv_build sv)")
    case (BsBuilt bench ksr esr qsr)
    with Some assms show ?thesis
      by (auto simp: grpc_init_def build_service_init_def bind_eq_Some_conv intro: start_lifecycle)
  qed (use Some assms in \<open>auto simp: grpc_init_def build_service_init_def\<close>)
qed

text \<open>The two outcomes of \<open>init\<close> on a bench that is built.\<close>

lemma init_built:
  fixes V :: "('g, 'i, 't::linorder, 'a, 'f, 'p, 'w, 'c, 'k, 's) grpc_env"
  assumes "grpc_init V time sv = Some (reply, sv')" "bs_state (sv_build sv) = BsBuilt bench ksr esr qsr"
    and "Option.bind time (timestamp_to_monotonic (en_tai (ve_env V))) = Some t"
  obtains (failed) e where "reply = Inl e" "sv' = sv\<lparr>sv_build := (sv_build sv)\<lparr>bs_state := BsInitialized\<rparr>\<rparr>"
  | (started) sim where "reply = Inr ()"
      "sv' = start_simulation_services (sim, ksr, esr, qsr) (sv\<lparr>sv_build := (sv_build sv)\<lparr>bs_state := BsInitialized\<rparr>\<rparr>)"
proof -
  obtain res :: "('t, 'p) simulation_error + ('t, 'a, 'f, 'p, 'w, 'c, 'k) simulation" where "start_reply (map_sum from_simulation_error (\<lambda>sim. (sim, ksr, esr, qsr)) res,
      (sv_build sv)\<lparr>bs_state := BsInitialized\<rparr>) sv = (reply, sv')"
    using assms by (auto simp: grpc_init_def build_service_init_def bind_eq_Some_conv)
  then show thesis
    using that by (cases res) (auto simp: start_reply_def)
qed

lemma restore_lifecycle:
  assumes "grpc_restore V state sv = Some (r, sv')" "lifecycle sv"
  shows "lifecycle sv'"
proof (cases "bs_state (sv_build sv)")
  case (BsBuilt bench ksr esr qsr)
  with assms show ?thesis
    by (auto simp: grpc_restore_def build_service_restore_def bind_eq_Some_conv intro: start_lifecycle)
qed (use assms in \<open>auto simp: grpc_restore_def build_service_restore_def\<close>)

lemmas controller_phase =
  rq_step.execute_phase rq_step_until.execute_phase rq_run.execute_phase rq_process_event.execute_phase
  rq_process_query.execute_phase rq_save.execute_phase

lemmas controller_refused =
  rq_step.execute_refused rq_step_until.execute_refused rq_run.execute_refused rq_process_event.execute_refused
  rq_process_query.execute_refused rq_save.execute_refused

lemmas scheduler_refused =
  rq_schedule_event.scheduler_refused rq_cancel_event.scheduler_refused rq_schedule_query.scheduler_refused

lemma request_lifecycle:
  assumes "grpc_request V sv sv'" "lifecycle sv"
  shows "lifecycle sv'"
  using assms(1)
proof cases
  case rq_tear_down
  then show ?thesis
    by (auto simp: grpc_tear_down_def lifecycle_def halted_def reset_state_def Let_def split: scheduler_service.split)
next
  case (rq_build cfg r)
  from this assms(2) show ?thesis by (rule build_lifecycle)
next
  case (rq_init time r)
  from this assms(2) show ?thesis by (rule init_lifecycle)
next
  case (rq_init_and_run time t)
  then obtain reply sv1 where i: "grpc_init V time sv = Some (reply, sv1)"
    by (auto simp: grpc_init_and_run_def bind_eq_Some_conv)
  from init_lifecycle [OF i assms(2)] rq_init_and_run i show ?thesis
    by (cases reply) (auto simp: grpc_init_and_run_def dest: controller_phase same_phase_lifecycle)
next
  case (rq_restore state r)
  from this assms(2) show ?thesis by (rule restore_lifecycle)
next
  case (rq_restore_and_run state t)
  then obtain reply sv1 where i: "grpc_restore V state sv = Some (reply, sv1)"
    by (auto simp: grpc_restore_and_run_def bind_eq_Some_conv)
  from restore_lifecycle [OF i assms(2)] rq_restore_and_run i show ?thesis
    by (cases reply) (auto simp: grpc_restore_and_run_def dest: controller_phase same_phase_lifecycle)
next
  case (rq_inject_event path arg r)
  then have "same_phase sv sv'" by (auto simp: grpc_inject_event_def bind_eq_Some_conv)
  with assms(2) show ?thesis by (rule same_phase_lifecycle [rotated])
next
  case (rq_halt r)
  then have "same_phase sv sv'" by (auto simp: grpc_halt_def Let_def split: prod.split_asm)
  with assms(2) show ?thesis by (rule same_phase_lifecycle [rotated])
next
  case (rq_schedule_event rq k)
  with assms(2) show ?thesis
    by (auto simp: grpc_schedule_event_def bind_eq_Some_conv dest: rq_schedule_event.scheduler_phase same_phase_lifecycle)
next
  case (rq_cancel_event key r)
  with assms(2) show ?thesis
    by (auto simp: grpc_cancel_event_def dest: rq_cancel_event.scheduler_phase same_phase_lifecycle)
next
  case (rq_schedule_query replies rs l)
  with assms(2) show ?thesis
    by (auto simp: grpc_schedule_query_def bind_eq_Some_conv dest: rq_schedule_query.scheduler_phase same_phase_lifecycle)
next
  case (rq_try_read_events path l)
  with assms(2) show ?thesis
    by (auto simp: grpc_try_read_events_def bind_eq_Some_conv dest: rq_try_read.monitor_phase same_phase_lifecycle)
next
  case (rq_read_event_begin path g)
  with assms(2) show ?thesis
    by (auto simp: grpc_read_event_begin_def Let_def split: prod.split_asm
        intro: same_phase_lifecycle [OF rq_begin.monitor_phase [of path]])
next
  case (rq_read_event_finish timeout await guard b)
  with assms(2) show ?thesis
    by (auto simp: grpc_read_event_finish_def bind_eq_Some_conv dest: rq_finish.monitor_phase same_phase_lifecycle)
next
  case (rq_enable_sink path r)
  with assms(2) show ?thesis
    by (auto simp: grpc_enable_sink_def Let_def split: prod.split_asm
        intro: same_phase_lifecycle [OF rq_enable.monitor_phase [of path]])
next
  case (rq_disable_sink path r)
  with assms(2) show ?thesis
    by (auto simp: grpc_disable_sink_def Let_def split: prod.split_asm
        intro: same_phase_lifecycle [OF rq_disable.monitor_phase [of path]])
qed (use assms(2) in \<open>auto simp: grpc_save_def grpc_step_def grpc_step_until_def grpc_run_def grpc_process_event_def
    grpc_process_query_def dest: controller_phase same_phase_lifecycle\<close>)

subsection \<open>A server to talk to\<close>

text \<open>The configuration is the number of bytes sent: a bench with a sink, an empty one, or one whose post-init callback
  fails.\<close>

definition demo_bench :: "nat \<Rightarrow> (int, nat, nat, unit, unit, unit, unit, nat list) sim_init" where
  "demo_bench n = (let st = with_num_threads 0 () () 1 in
     if n = 0 then snd (bind_event_sink byte_type list_ops [] [''out''] st)
     else if n = 1 then st
     else with_post_init (\<lambda>sim. Some (Inl (BenchErr (DuplicateEventSink [])), sim)) st)"

definition demo_env :: "(unit, nat, int, nat, nat, unit, unit, unit, unit, nat list) grpc_env" where
  "demo_env = \<lparr>ve_env = still_env (\<lambda>_. 0), ve_io = small_io, ve_bincode = small_bincode, ve_codec = small_codec,
     ve_decode = (\<lambda>bs. Inr (length bs)), ve_sim_gen = (\<lambda>cfg g. (Some (Inr (demo_bench cfg)), g))\<rparr>"

definition demo_server :: "(unit, int, nat, nat, unit, unit, unit, unit, nat list) grpc_server" where
  "demo_server = grpc_new () \<lparr>sd_queue = pq_new, sd_time = 0, sd_flags = [], sd_replies = 0, sd_halted = False, sd_terminated = False\<rparr> pq_new"

definition demo_time :: "timestamp option" where
  "demo_time = Some \<lparr>ts_seconds = 0, ts_nanos = 7\<rparr>"

lemma demo_time: "Option.bind demo_time (timestamp_to_monotonic (en_tai (ve_env demo_env))) = Some 7"
  by (simp add: demo_time_def timestamp_to_monotonic_def demo_env_def still_env_def ns_tai_def)

lemma demo_build:
  assumes "bs_state (sv_build sv) = BsNone"
  shows "\<exists>sv'. grpc_build demo_env cfg sv = (Inr (), sv') \<and>
    bs_state (sv_build sv') = BsBuilt ((demo_bench (length cfg))\<lparr>in_endpoints := endpoints_default\<rparr>)
      (en_sinks (in_endpoints (demo_bench (length cfg))))
      (en_event_sources (in_endpoints (demo_bench (length cfg)))) (en_query_sources (in_endpoints (demo_bench (length cfg))))"
  using assms
  by (simp add: grpc_build_def build_service_build_def wrap_sim_gen_def demo_env_def take_endpoints_def start_init_services_def)

lemma demo_starts:
  assumes "in_tolerance st = None" "\<not> sd_terminated (in_sched st)"
  shows "in_post_init st = None \<Longrightarrow> \<exists>sim. init (ve_env demo_env) t st = Some (Inr sim)"
    and "in_post_init st = Some (\<lambda>sim. Some (Inl e, sim)) \<Longrightarrow> init (ve_env demo_env) t st = Some (Inl e)"
  using assms
  by (simp_all add: demo_env_def init_def still_env_def no_clock_synchronize_def sync_lost_def run_callback_def env_calls_def
      run_executor_def init_build_def Let_def)

lemma demo_bench_simps [simp]:
  "in_tolerance (demo_bench n) = None" "\<not> sd_terminated (in_sched (demo_bench n))"
  "in_post_init (demo_bench n) = (if n \<le> 1 then None else Some (\<lambda>sim. Some (Inl (BenchErr (DuplicateEventSink [])), sim)))"
  "map_of (en_sinks (in_endpoints (demo_bench n))) =
     (if n = 0 then [[''out''] \<mapsto> Some \<lparr>ke_sink = [], ke_ops = list_ops, ke_type = byte_type\<rparr>] else Map.empty)"
  by (simp_all add: demo_bench_def with_num_threads_def bind_event_sink_def kir_register_def kir_register_any_def ksr_add_def
      endpoints_default_def with_post_init_def Let_def)

lemma demo_init:
  assumes "bs_state (sv_build sv) = BsBuilt ((demo_bench n)\<lparr>in_endpoints := endpoints_default\<rparr>) ksr esr qsr" "n \<le> 1"
  shows "\<exists>sv'. grpc_init demo_env demo_time sv = Some (Inr (), sv') \<and> running esr qsr sv' \<and> sv_monitor sv' = MsStarted ksr"
proof -
  obtain sim where "init (ve_env demo_env) 7 ((demo_bench n)\<lparr>in_endpoints := endpoints_default, in_injector := sv_injector sv\<rparr>) = Some (Inr sim)"
    using demo_starts(1) [of "(demo_bench n)\<lparr>in_endpoints := endpoints_default, in_injector := sv_injector sv\<rparr>" 7] assms(2) by auto
  with assms(1) show ?thesis
    by (simp add: grpc_init_def build_service_init_def demo_time start_reply_def start_simulation_services_def running_def)
qed

lemma demo_init_fails:
  assumes "bs_state (sv_build sv) = BsBuilt ((demo_bench 2)\<lparr>in_endpoints := endpoints_default\<rparr>) ksr esr qsr"
  shows "\<exists>sv'. grpc_init demo_env demo_time sv = Some (Inl EcDuplicateEventSink, sv')"
  using assms
  by (simp add: grpc_init_def build_service_init_def demo_time demo_starts(2) start_reply_def)

subsection \<open>Properties\<close>



lemma torn_down_builds: "fst (grpc_build V cfg (grpc_tear_down sv)) \<noteq> Inl EcBenchAlreadyBuilt"
proof -
  have "from_bench_error e \<noteq> EcBenchAlreadyBuilt" for e by (cases e) simp_all
  then have "from_general_bench_error e \<noteq> EcBenchAlreadyBuilt" for e by (cases e) simp_all
  then show ?thesis
    by (auto simp: grpc_tear_down_def reset_state_def grpc_build_def build_service_build_def take_endpoints_def Let_def
        split: prod.splits option.splits sum.splits scheduler_service.splits)
qed

text \<open>Tear-down. Whatever state a server is in, after a tear-down every request is answered as by a new
  server, the scheduler of the simulation that ran is terminated for those who still hold it, and
  a bench can be built again.\<close>

lemma tear_down_resets:
  shows "let sv' = grpc_tear_down sv in
    grpc_step V sv' = Some (Inl EcSimulationNotStarted, sv') \<and>
    grpc_step_until V deadline sv' = Some (Inl EcSimulationNotStarted, sv') \<and>
    grpc_run V sv' = Some (Inl EcSimulationNotStarted, sv') \<and>
    grpc_process_event V p arg sv' = Some (Inl EcSimulationNotStarted, sv') \<and>
    grpc_process_query V p arg sv' = Some (Inl EcSimulationNotStarted, sv') \<and>
    grpc_save V sv' = Some (Inl EcSimulationNotStarted, sv') \<and>
    grpc_schedule_event V rq sv' = Some (Inl EcSimulationNotStarted, sv') \<and>
    grpc_cancel_event key sv' = Some (Inl EcSimulationNotStarted, sv') \<and>
    grpc_try_read_events p sv' = Some (Inl EcSimulationNotStarted, sv') \<and>
    grpc_time V sv' = Inl EcSimulationNotStarted \<and>
    grpc_inject_event p arg sv' = Some (Inl EcBenchNotBuilt, sv') \<and>
    grpc_list_event_sources sv' = ([], Inl EcBenchNotBuilt) \<and>
    grpc_restore V state sv' = Some (Inl EcBenchNotBuilt, sv') \<and>
    fst (grpc_build V cfg sv') \<noteq> Inl EcBenchAlreadyBuilt \<and>
    sv_sched sv' = (if sv_scheduler sv = SsHalted then sv_sched sv else tear_down (sv_sched sv)) \<and>
    lifecycle sv'"
proof -
  define sv' where "sv' = grpc_tear_down sv"
  have c: "sv_controller sv' = CsHalted" and k: "sv_scheduler sv' = SsHalted" and m: "sv_monitor sv' = MsHalted"
    and b: "sv_bench sv' = BhHalted" and n: "bs_state (sv_build sv') = BsNone"
    and s: "sv_sched sv' = (if sv_scheduler sv = SsHalted then sv_sched sv else tear_down (sv_sched sv))"
    by (auto simp: sv'_def grpc_tear_down_def reset_state_def Let_def split: scheduler_service.split)
  have "fst (grpc_build V cfg sv') \<noteq> Inl EcBenchAlreadyBuilt"
    unfolding sv'_def by (rule torn_down_builds)
  with c k m b n s show ?thesis
    by (simp add: sv'_def [symmetric] Let_def grpc_step_def grpc_step_until_def grpc_run_def grpc_process_event_def
        grpc_process_query_def grpc_save_def controller_refused grpc_schedule_event_def grpc_cancel_event_def scheduler_refused
        grpc_try_read_events_def try_read_events_def grpc_time_def service_time_def grpc_inject_event_def bench_inject_event_def
        grpc_list_event_sources_def bench_list_event_sources_def list_reply_def grpc_restore_def build_service_restore_def
        lifecycle_def halted_def)
qed

text \<open>C37: A start that fails. When \<open>init\<close> fails on a bench that is built, the bench is used up: from then on
  \<open>init\<close> and \<open>restore\<close> reply that the bench has to be built first, \<open>build\<close> replies that it is
  already built, and no simulation is served, while the bench service still accepts requests. A
  tear-down is the only way out.\<close>

theorem failed_start_blocks:
  assumes "lifecycle sv" "bs_state (sv_build sv) = BsBuilt bench ksr esr qsr"
    and "Option.bind time (timestamp_to_monotonic (en_tai (ve_env V))) \<noteq> None"
    and "grpc_init V time sv = Some (Inl e, sv')"
  shows "grpc_init V time sv' = Some (Inl EcBenchNotBuilt, sv') \<and>
    grpc_restore V state sv' = Some (Inl EcBenchNotBuilt, sv') \<and>
    grpc_build V cfg sv' = (Inl EcBenchAlreadyBuilt, sv') \<and>
    grpc_step V sv' = Some (Inl EcSimulationNotStarted, sv') \<and>
    grpc_list_event_sources sv' = (esr_list_sources esr, Inr ()) \<and>
    fst (grpc_build V cfg (grpc_tear_down sv')) \<noteq> Inl EcBenchAlreadyBuilt"
proof -
  obtain t where t: "Option.bind time (timestamp_to_monotonic (en_tai (ve_env V))) = Some t" using assms(3) by blast
  have "halted sv" and b: "sv_bench sv \<noteq> BhHalted" "\<exists>kir. sv_bench sv = BhStarted kir esr qsr"
    using assms(1,2) by (auto simp: lifecycle_def)
  moreover have sv': "sv' = sv\<lparr>sv_build := (sv_build sv)\<lparr>bs_state := BsInitialized\<rparr>\<rparr>"
    by (rule init_built [OF assms(4,2) t]) simp_all
  ultimately have c: "sv_controller sv' = CsHalted" and n: "bs_state (sv_build sv') = BsInitialized"
    and k: "\<exists>kir. sv_bench sv' = BhStarted kir esr qsr"
    by (auto simp: halted_def)
  have "grpc_build V cfg sv' = (Inl EcBenchAlreadyBuilt, sv')"
    using n by (simp add: grpc_build_def build_service_build_def)
  with c n k t show ?thesis
    by (auto simp: grpc_init_def build_service_init_def grpc_restore_def build_service_restore_def grpc_step_def controller_refused grpc_list_event_sources_def bench_list_event_sources_def
        list_reply_def torn_down_builds)
qed

theorem failed_start_blocks_witness:
  "\<exists>sv1 sv2. grpc_build demo_env [0, 0] demo_server = (Inr (), sv1) \<and>
     grpc_init demo_env demo_time sv1 = Some (Inl EcDuplicateEventSink, sv2) \<and>
     grpc_init demo_env demo_time sv2 = Some (Inl EcBenchNotBuilt, sv2) \<and>
     grpc_build demo_env [0] sv2 = (Inl EcBenchAlreadyBuilt, sv2)"
proof -
  have "bs_state (sv_build demo_server) = BsNone" and l: "lifecycle demo_server"
    by (simp_all add: demo_server_def grpc_new_def build_service_new_def lifecycle_def halted_def)
  from demo_build [OF this(1), of "[0, 0]"] obtain sv1 ksr esr qsr where b: "grpc_build demo_env [0, 0] demo_server = (Inr (), sv1)"
      "bs_state (sv_build sv1) = BsBuilt ((demo_bench 2)\<lparr>in_endpoints := endpoints_default\<rparr>) ksr esr qsr"
    by (auto simp: numeral_2_eq_2)
  from demo_init_fails [OF b(2)] obtain sv2 where n: "grpc_init demo_env demo_time sv1 = Some (Inl EcDuplicateEventSink, sv2)"
    by auto
  from failed_start_blocks [OF build_lifecycle [OF b(1) l] b(2) _ n] b(1) n demo_time show ?thesis by auto
qed

text \<open>C38: A sink that is returned too late. When a client waits for an event of a sink while the simulation is torn
  down, another bench is built and a new simulation started, the end of the wait puts the sink
  of the old simulation in place of the sink of that name of the new one; if the new bench has no such sink the
  server panics.\<close>

theorem stale_sink_return:
  assumes "grpc_read_event_begin (Some p) sv = (Inr guard, sv1)"
    and "grpc_build V cfg (grpc_tear_down sv1) = (Inr (), sv2)" "bs_state (sv_build sv2) = BsBuilt bench ksr esr qsr"
    and "grpc_init V time sv2 = Some (Inr (), sv3)"
    and "await None (snd guard) = AwNext ev s"
  shows "grpc_read_event_finish None await guard sv3 =
    (if map_of ksr p = None then None
     else Some (case ev of
         None \<Rightarrow> Inl EcSinkTerminated
       | Some e \<Rightarrow> map_sum (\<lambda>_. EcInvalidMessage) id (ty_to_cbor (ke_type (snd guard)) e),
       sv3\<lparr>sv_monitor := MsStarted (AList.update p (Some ((snd guard)\<lparr>ke_sink := s\<rparr>)) ksr)\<rparr>))"
proof -
  obtain sink where g: "guard = (p, sink)"
    using assms(1) by (auto simp: grpc_read_event_begin_def read_event_begin_def Let_def split: prod.split_asm sum.split_asm)
  obtain t where "Option.bind time (timestamp_to_monotonic (en_tai (ve_env V))) = Some t"
    using assms(4) by (auto simp: grpc_init_def build_service_init_def split: option.split_asm)
  then have "sv_monitor sv3 = MsStarted ksr"
    by (rule init_built [OF assms(4,3)]) (simp_all add: start_simulation_services_def)
  then show ?thesis
    using assms(5) g
    by (auto simp: grpc_read_event_finish_def read_event_finish_def guard_try_return_def ksr_replace_entry_def Let_def
        split: option.splits)
qed

theorem stale_sink_return_witness:
  "\<exists>sv1 sv2 guard sv3 sv4 sv5. grpc_build demo_env [] demo_server = (Inr (), sv1) \<and>
     grpc_init demo_env demo_time sv1 = Some (Inr (), sv2) \<and>
     grpc_read_event_begin (Some [''out'']) sv2 = (Inr guard, sv3) \<and>
     grpc_build demo_env [0] (grpc_tear_down sv3) = (Inr (), sv4) \<and>
     grpc_init demo_env demo_time sv4 = Some (Inr (), sv5) \<and>
     grpc_read_event_finish None (\<lambda>limit sink. AwNext None (ke_sink sink)) guard sv5 = None"
proof -
  have "bs_state (sv_build demo_server) = BsNone" by (simp add: demo_server_def grpc_new_def build_service_new_def)
  from demo_build [OF this, of "[]"] obtain sv1 esr qsr where b: "grpc_build demo_env [] demo_server = (Inr (), sv1)"
      "bs_state (sv_build sv1) = BsBuilt ((demo_bench 0)\<lparr>in_endpoints := endpoints_default\<rparr>)
        (en_sinks (in_endpoints (demo_bench 0))) esr qsr"
    by auto
  from demo_init [OF b(2)] obtain sv2 where n: "grpc_init demo_env demo_time sv1 = Some (Inr (), sv2)"
      "sv_monitor sv2 = MsStarted (en_sinks (in_endpoints (demo_bench 0)))"
    by auto
  obtain guard sv3 where r: "grpc_read_event_begin (Some [''out'']) sv2 = (Inr guard, sv3)"
    using n(2) by (simp add: grpc_read_event_begin_def read_event_begin_def guard_try_new_def ksr_rent_entry_def)
  have "bs_state (sv_build (grpc_tear_down sv3)) = BsNone"
    by (simp add: grpc_tear_down_def reset_state_def Let_def)
  from demo_build [OF this, of "[0]"] obtain sv4 esr' qsr' where b': "grpc_build demo_env [0] (grpc_tear_down sv3) = (Inr (), sv4)"
      "bs_state (sv_build sv4) = BsBuilt ((demo_bench 1)\<lparr>in_endpoints := endpoints_default\<rparr>)
        (en_sinks (in_endpoints (demo_bench 1))) esr' qsr'"
    by auto
  from demo_init [OF b'(2)] obtain sv5 where n': "grpc_init demo_env demo_time sv4 = Some (Inr (), sv5)" by auto
  from stale_sink_return [OF r b' n', of "\<lambda>limit sink. AwNext None (ke_sink sink)"]
  have "grpc_read_event_finish None (\<lambda>limit sink. AwNext None (ke_sink sink)) guard sv5 = None" by simp
  with b(1) n(1) r b'(1) n' show ?thesis by blast
qed

end
