(* ===== verification/Task_Word.thy ===== *)
theory Task_Word
  imports Prelude "HOL-Library.Word"
begin

unbundle bit_operations_syntax

text \<open>
  The state word of a task, \<^verbatim>\<open>src/nexosim/src/executor/task.rs\<close> and \<^verbatim>\<open>task/util.rs\<close>: two
  flags, the reference count and the wake count packed in 64 bits. \<open>task_word\<close> packs them, and the lemmas of
  this theory say what each of the masks and increments of the code does to a packed word, as long as
  the counts fit.
\<close>

definition POLLING :: "64 word" where
  "POLLING = push_bit 0 1"

definition CLOSED :: "64 word" where
  "CLOSED = push_bit 1 1"

definition REF_INC :: "64 word" where
  "REF_INC = push_bit 2 1"

definition WAKE_INC :: "64 word" where
  "WAKE_INC = push_bit 33 1"

definition REF_MASK :: "64 word" where
  "REF_MASK = NOT (REF_INC - 1) AND (WAKE_INC - 1)"

definition WAKE_MASK :: "64 word" where
  "WAKE_MASK = NOT (WAKE_INC - 1)"

definition REF_CRITICAL :: "64 word" where
  "REF_CRITICAL = (REF_MASK div 2) AND REF_MASK"

definition WAKE_CRITICAL :: "64 word" where
  "WAKE_CRITICAL = (WAKE_MASK div 2) AND WAKE_MASK"

definition runnable_exists :: "64 word \<Rightarrow> bool" where
  "runnable_exists state \<longleftrightarrow> state AND POLLING \<noteq> 0 \<and> state AND (WAKE_MASK OR CLOSED) \<noteq> 0"

subsection \<open>Packing\<close>

definition task_word :: "bool \<Rightarrow> bool \<Rightarrow> nat \<Rightarrow> nat \<Rightarrow> 64 word" where
  "task_word p c r w = of_bool p OR push_bit 1 (of_bool c) OR push_bit 2 (word_of_nat r) OR push_bit 33 (word_of_nat w)"

abbreviation count_limit :: nat where
  "count_limit \<equiv> 2 ^ 31"

lemma bit_small_nat: "(r :: nat) < 2 ^ k \<Longrightarrow> bit r n \<Longrightarrow> n < k"
  by (metis bit_take_bit_iff take_bit_nat_eq_self)

lemma bit_task_word:
  assumes "r < count_limit" "w < count_limit"
  shows "bit (task_word p c r w) n \<longleftrightarrow>
    (n = 0 \<and> p) \<or> (n = 1 \<and> c) \<or> (2 \<le> n \<and> n < 33 \<and> bit r (n - 2)) \<or> (33 \<le> n \<and> n < 64 \<and> bit w (n - 33))"
  using bit_small_nat [OF assms(1), of "n - 2"] bit_small_nat [OF assms(2), of "n - 33"]
  by (auto simp: task_word_def bit_simps)

lemma bit_task_masks:
  "bit POLLING n \<longleftrightarrow> n = 0" "bit CLOSED n \<longleftrightarrow> n = 1"
  "bit REF_MASK n \<longleftrightarrow> 2 \<le> n \<and> n < 33" "bit WAKE_MASK n \<longleftrightarrow> 33 \<le> n \<and> n < 64"
  "bit REF_CRITICAL n \<longleftrightarrow> 2 \<le> n \<and> n < 32" "bit WAKE_CRITICAL n \<longleftrightarrow> 33 \<le> n \<and> n < 63"
proof -
  have m: "REF_INC - 1 = mask 2" "WAKE_INC - 1 = mask 33"
    by (simp_all add: REF_INC_def WAKE_INC_def mask_eq_exp_minus_1)
  show p: "bit POLLING n \<longleftrightarrow> n = 0" "bit CLOSED n \<longleftrightarrow> n = 1"
    "bit REF_MASK n \<longleftrightarrow> 2 \<le> n \<and> n < 33" "bit WAKE_MASK n \<longleftrightarrow> 33 \<le> n \<and> n < 64" for n
    by (auto simp: POLLING_def CLOSED_def REF_MASK_def WAKE_MASK_def m bit_simps)
  show "bit REF_CRITICAL n \<longleftrightarrow> 2 \<le> n \<and> n < 32" "bit WAKE_CRITICAL n \<longleftrightarrow> 33 \<le> n \<and> n < 63"
    by (auto simp: REF_CRITICAL_def WAKE_CRITICAL_def bit_simps p drop_bit_Suc [of 0, simplified, symmetric])
qed

subsection \<open>Masks\<close>

lemma task_word_masks [simp]:
  assumes "r < count_limit" "w < count_limit"
  shows "task_word p c r w AND POLLING = task_word p False 0 0"
    "task_word p c r w AND CLOSED = task_word False c 0 0"
    "task_word p c r w AND REF_MASK = task_word False False r 0"
    "task_word p c r w AND WAKE_MASK = task_word False False 0 w"
    "task_word p c r w AND (WAKE_MASK OR CLOSED OR POLLING) = task_word p c 0 w"
    "task_word p c r w AND (WAKE_MASK OR CLOSED) = task_word False c 0 w"
    "task_word p c r w AND (REF_MASK OR POLLING) = task_word p False r 0"
    "task_word p c r w AND (POLLING OR CLOSED) = task_word p c 0 0"
    "task_word p c r w OR CLOSED = task_word p True r w"
    "task_word p c r w AND NOT POLLING = task_word False c r w"
  using assms
  by (auto intro!: bit_eqI simp: bit_task_word bit_task_masks bit_simps)

lemma task_word_consts:
  "0 = task_word False False 0 0" "POLLING = task_word True False 0 0" "CLOSED = task_word False True 0 0"
  "REF_INC = task_word False False 1 0" "WAKE_INC = task_word False False 0 1"
  by (simp_all add: task_word_def POLLING_def CLOSED_def REF_INC_def WAKE_INC_def)

lemma task_word_inject [simp]:
  assumes "r < count_limit" "w < count_limit" "r' < count_limit" "w' < count_limit"
  shows "task_word p c r w = task_word p' c' r' w' \<longleftrightarrow> p = p' \<and> c = c' \<and> r = r' \<and> w = w'"
proof
  assume eq: "task_word p c r w = task_word p' c' r' w'"
  have bits: "bit (task_word p c r w) n = bit (task_word p' c' r' w') n" for n by (simp add: eq)
  note b = bits [unfolded bit_task_word [OF assms(1,2)] bit_task_word [OF assms(3,4)]]
  have "bit r n = bit r' n" for n
    using b [of "n + 2"] bit_small_nat [OF assms(1), of n] bit_small_nat [OF assms(3), of n] by auto
  moreover have "bit w n = bit w' n" for n
    using b [of "n + 33"] bit_small_nat [OF assms(2), of n] bit_small_nat [OF assms(4), of n] by auto
  ultimately show "p = p' \<and> c = c' \<and> r = r' \<and> w = w'"
    using b [of 0] b [of 1] by (auto intro: bit_eqI)
qed simp

lemma task_word_eq_consts [simp]:
  assumes "r < count_limit" "w < count_limit"
  shows "task_word p c r w = 0 \<longleftrightarrow> \<not> p \<and> \<not> c \<and> r = 0 \<and> w = 0"
    "task_word p c r w = POLLING \<longleftrightarrow> p \<and> \<not> c \<and> r = 0 \<and> w = 0"
    "task_word p c r w = CLOSED \<longleftrightarrow> \<not> p \<and> c \<and> r = 0 \<and> w = 0"
    "task_word p c r w = REF_INC \<longleftrightarrow> \<not> p \<and> \<not> c \<and> r = 1 \<and> w = 0"
  unfolding task_word_consts using assms by simp_all

subsection \<open>Counting\<close>

lemma task_word_sum:
  assumes "r < count_limit" "w < count_limit"
  shows "task_word p c r w = word_of_nat (of_bool p + 2 * of_bool c + 4 * r + 2 ^ 33 * w)"
proof -
  let ?a = "of_bool p :: 64 word" and ?b = "push_bit 1 (of_bool c) :: 64 word"
  let ?r = "push_bit 2 (word_of_nat r) :: 64 word" and ?w = "push_bit 33 (word_of_nat w) :: 64 word"
  have br: "bit r n \<Longrightarrow> n < 31" and bw: "bit w n \<Longrightarrow> n < 31" for n
    using bit_small_nat assms by blast+
  have 1: "?a OR ?b = ?a + ?b"
    by (rule disjunctive_add [symmetric]) (auto simp: bit_simps)
  have 2: "(?a OR ?b) OR ?r = ?a + ?b + ?r"
    unfolding 1 [symmetric] by (rule disjunctive_add [symmetric]) (auto simp: bit_simps)
  have 3: "((?a OR ?b) OR ?r) OR ?w = ?a + ?b + ?r + ?w"
    unfolding 2 [symmetric] by (rule disjunctive_add [symmetric]) (auto simp: bit_simps dest: br)
  then show ?thesis
    by (simp add: task_word_def push_bit_eq_mult or.assoc)
qed

lemma task_word_add [simp]:
  assumes "w < count_limit"
  shows "r + 1 < count_limit \<Longrightarrow> task_word p c r w + REF_INC = task_word p c (r + 1) w"
    and "r < count_limit \<Longrightarrow> w + 1 < count_limit \<Longrightarrow> task_word p c r w + WAKE_INC = task_word p c r (w + 1)"
    and "0 < r \<Longrightarrow> r < count_limit \<Longrightarrow> task_word p c r w - REF_INC = task_word p c (r - 1) w"
    and "0 < r \<Longrightarrow> r < count_limit \<Longrightarrow> w + 1 < count_limit \<Longrightarrow>
      task_word p c r w + (WAKE_INC - REF_INC) = task_word p c (r - 1) (w + 1)"
    and "r < count_limit \<Longrightarrow> k \<le> w \<Longrightarrow> task_word p c r w - task_word False False 0 k = task_word p c r (w - k)"
  using assms
  by (simp_all add: task_word_sum REF_INC_def WAKE_INC_def algebra_simps of_nat_diff)

lemma task_word_critical [simp]:
  assumes "n < count_limit"
  shows "REF_CRITICAL < task_word False False n 0 \<longleftrightarrow> 2 ^ 30 \<le> n" "WAKE_CRITICAL < task_word False False 0 n \<longleftrightarrow> 2 ^ 30 \<le> n"
proof -
  have m: "mask 30 < count_limit" "mask 30 = (2 ^ 30 - 1 :: nat)"
    by (simp_all add: mask_eq_exp_minus_1)
  have c: "REF_CRITICAL = task_word False False (mask 30) 0" "WAKE_CRITICAL = task_word False False 0 (mask 30)"
    using m(1) by (auto intro!: bit_eqI simp: bit_task_masks bit_task_word bit_simps)
  have u: "unat (task_word False False k 0) = 4 * k" "unat (task_word False False 0 k) = 2 ^ 33 * k" if "k < count_limit" for k
    using that by (simp_all add: task_word_sum unat_of_nat del: of_nat_mult of_nat_add)
  from u [OF m(1)] u [OF assms]
  show "REF_CRITICAL < task_word False False n 0 \<longleftrightarrow> 2 ^ 30 \<le> n" "WAKE_CRITICAL < task_word False False 0 n \<longleftrightarrow> 2 ^ 30 \<le> n"
    unfolding c word_less_nat_alt using m(2) by auto
qed

end
