(* ===== verification/Task_Machine.thy ===== *)
theory Task_Machine
  imports Task_Word "HOL-Library.Multiset" "HOL-Library.Monad_Syntax"
begin

unbundle bit_operations_syntax

text \<open>
  Model of the reference-counted tasks of the executors, \<^verbatim>\<open>src/nexosim/src/executor/task.rs\<close> with
  \<^verbatim>\<open>task/runnable.rs\<close>, \<^verbatim>\<open>task/promise.rs\<close> and \<^verbatim>\<open>task/cancel_token.rs\<close>.

  \<^item> The memory of a task is its state word, the union that holds the future or its output, and whether
    it has been deallocated. An access to the task that is undefined behaviour (after deallocation, dropping
    what is not there, deallocating twice) has no result: \<open>None\<close>.
  \<^item> A task is shared by handles: wakers, the promise, the cancel token and the runnable. An
    operation on a handle is cut at each atomic access to the state word and at each access to the union; what is
    left of it in between is a handle too (\<open>RunPoll\<close> or \<open>CancelDrop\<close>, for instance). A step of a handle gives the new
    memory and the handles that take its place.
  \<^item> Accesses to the state word are sequentially consistent.
  \<^item> The future is polled by the environment, which chooses the outcome, and may clone the waker and wake the
    task meanwhile. When the drop of a future or of an output panics, the guard of the code runs.
\<close>

subsection \<open>Memory\<close>

datatype 'u task_core = CoreFuture | CoreOutput 'u | CoreDropped

record 'u task =
  tk_state :: "64 word"
  tk_core :: "'u task_core"
  tk_freed :: bool

text \<open>Handles and operations in progress. The arguments are local variables: the state that was read, and the
  wake count that was seen before polling.\<close>

datatype 'u handle =
    Waker | Promise | CancelToken | Runnable
  | WakeSchedule
  | PromiseTake
  | CancelDrop | CancelRelease
  | RunLoop "64 word" "64 word" | RunPoll "64 word" | RunPending "64 word"
  | RunReady 'u | RunPublish | RunDropOutput | RunFinish
  | RunCancel | RunClose
  | FreeCore "64 word" | FreeOutput "64 word" | FreeFuture | Dealloc

type_synonym 'u task_op = "'u task \<Rightarrow> ('u task \<times> 'u handle list) option"

text \<open>An atomic read-modify-write of the state word, with the state before it.\<close>

definition fetch_update :: "(64 word \<Rightarrow> 64 word) \<Rightarrow> 'u task \<Rightarrow> (64 word \<times> 'u task) option" where
  "fetch_update f t = (if tk_freed t then None else Some (tk_state t, t\<lparr>tk_state := f (tk_state t)\<rparr>))"

definition drop_future :: "'u task \<Rightarrow> 'u task option" where
  "drop_future t = (if tk_freed t \<or> tk_core t \<noteq> CoreFuture then None else Some (t\<lparr>tk_core := CoreDropped\<rparr>))"

definition take_output :: "'u task \<Rightarrow> ('u \<times> 'u task) option" where
  "take_output t = (if tk_freed t then None else
     (case tk_core t of CoreOutput u \<Rightarrow> Some (u, t\<lparr>tk_core := CoreDropped\<rparr>) | _ \<Rightarrow> None))"

definition drop_output :: "'u task \<Rightarrow> 'u task option" where
  "drop_output t = do { (_, t) \<leftarrow> take_output t; Some t }"

definition dealloc :: "'u task \<Rightarrow> 'u task option" where
  "dealloc t = (if tk_freed t then None else Some (t\<lparr>tk_freed := True\<rparr>))"

subsection \<open>Wakers\<close>

text \<open>When a count is critical the code panics after the update: a clone then leaves a reference that nobody
  owns, and a wake by value drops the waker without looking whether it was the last one.\<close>

definition clone_waker :: "'u handle \<Rightarrow> 'u task_op" where
  "clone_waker self t = do {
     (state, t) \<leftarrow> fetch_update (\<lambda>s. s + REF_INC) t;
     if REF_CRITICAL < state AND REF_MASK then Some (t, [self]) else Some (t, [self, Waker])
   }"

definition wake_by_ref :: "'u handle \<Rightarrow> 'u task_op" where
  "wake_by_ref self t = do {
     (state, t) \<leftarrow> fetch_update (\<lambda>s. s + WAKE_INC) t;
     if WAKE_CRITICAL < state AND WAKE_MASK then Some (t, [self])
     else if state AND (WAKE_MASK OR CLOSED OR POLLING) = POLLING then Some (t, [self, WakeSchedule])
     else Some (t, [self])
   }"

definition drop_waker :: "'u task_op" where
  "drop_waker t = do {
     (state, t) \<leftarrow> fetch_update (\<lambda>s. s - REF_INC) t;
     if state AND REF_MASK = REF_INC \<and> \<not> runnable_exists state then Some (t, [FreeCore state]) else Some (t, [])
   }"

text \<open>\<open>captures\<close>: the scheduling function captures variables, which is not supported.\<close>

definition wake_by_val :: "bool \<Rightarrow> 'u task_op" where
  "wake_by_val captures t =
     (if captures then drop_waker t
      else do {
        (state, t) \<leftarrow> fetch_update (\<lambda>s. s + (WAKE_INC - REF_INC)) t;
        if WAKE_CRITICAL < state AND WAKE_MASK then Some (t, [])
        else if state AND (WAKE_MASK OR CLOSED OR POLLING) = POLLING then Some (t, [WakeSchedule])
        else if state AND (REF_MASK OR POLLING) = REF_INC then Some (t, [FreeOutput state])
        else Some (t, [])
      })"

text \<open>The end of a wake that schedules the task reads its tag.\<close>

definition wake_schedule :: "'u task_op" where
  "wake_schedule t = (if tk_freed t then None else Some (t, [Runnable]))"

definition free_core :: "64 word \<Rightarrow> 'u task_op" where
  "free_core state t = do {
     t \<leftarrow> (if state AND POLLING = POLLING then drop_future t
           else if state AND CLOSED = 0 then drop_output t
           else Some t);
     Some (t, [Dealloc])
   }"

definition free_output :: "64 word \<Rightarrow> 'u task_op" where
  "free_output state t = do {
     t \<leftarrow> (if state AND CLOSED = 0 then drop_output t else Some t);
     Some (t, [Dealloc])
   }"

subsection \<open>Promise\<close>

datatype 'u stage = StReady 'u | StPending | StCancelled

text \<open>The first half of \<open>poll\<close>; without a stage the output is still to be taken.\<close>

definition promise_poll :: "'u task \<Rightarrow> ('u stage option \<times> 'u task \<times> 'u handle) option" where
  "promise_poll t = do {
     (state, t) \<leftarrow> fetch_update (\<lambda>s. if s AND (POLLING OR CLOSED) = 0 then s OR CLOSED else s) t;
     if state AND (POLLING OR CLOSED) = 0 then Some (None, t, PromiseTake)
     else if state AND CLOSED = CLOSED then Some (Some StCancelled, t, Promise)
     else Some (Some StPending, t, Promise)
   }"

definition promise_take :: "'u task \<Rightarrow> ('u stage \<times> 'u task) option" where
  "promise_take t = do { (output, t) \<leftarrow> take_output t; Some (StReady output, t) }"

definition promise_drop :: "'u task_op" where
  "promise_drop t = do {
     (state, t) \<leftarrow> fetch_update (\<lambda>s. s - REF_INC) t;
     if state AND REF_MASK = REF_INC \<and> \<not> runnable_exists state then Some (t, [FreeCore state]) else Some (t, [])
   }"

subsection \<open>Cancel token\<close>

definition token_cancel :: "'u task_op" where
  "token_cancel t = do {
     (state, t) \<leftarrow> fetch_update (\<lambda>s.
        if s AND POLLING = 0 then s - REF_INC
        else if runnable_exists s then (s OR CLOSED) - REF_INC
        else (s OR CLOSED) AND NOT POLLING) t;
     if runnable_exists state then Some (t, [])
     else if state AND POLLING = 0 then
       (if state AND REF_MASK = REF_INC then Some (t, [FreeOutput state]) else Some (t, []))
     else Some (t, [CancelDrop])
   }"

definition cancel_drop :: "'u task_op" where
  "cancel_drop t = do { t \<leftarrow> drop_future t; Some (t, [CancelRelease]) }"

definition cancel_release :: "'u task_op" where
  "cancel_release t = do {
     (state, t) \<leftarrow> fetch_update (\<lambda>s. s - REF_INC) t;
     if state AND REF_MASK = REF_INC then Some (t, [Dealloc]) else Some (t, [])
   }"

definition token_drop :: "'u task_op" where
  "token_drop t = do {
     (state, t) \<leftarrow> fetch_update (\<lambda>s. s - REF_INC) t;
     if state AND REF_MASK = REF_INC \<and> \<not> runnable_exists state then Some (t, [FreeCore state]) else Some (t, [])
   }"

subsection \<open>Runnable\<close>

text \<open>The assertions of debug builds are part of the model.\<close>

definition run_begin :: "'u task_op" where
  "run_begin t = do {
     (state, t) \<leftarrow> fetch_update id t;
     if state AND POLLING = POLLING then Some (t, [RunLoop state (state AND WAKE_MASK)]) else None
   }"

definition run_loop :: "64 word \<Rightarrow> 64 word \<Rightarrow> 'u task_op" where
  "run_loop state wake_count t =
     (if state AND CLOSED = CLOSED then Some (t, [RunCancel]) else Some (t, [RunPoll wake_count]))"

datatype 'u polled = PollReady 'u | PollPending | PollPanic

definition run_polled :: "64 word \<Rightarrow> 'u polled \<Rightarrow> 'u task_op" where
  "run_polled wake_count outcome t =
     (if tk_freed t \<or> tk_core t \<noteq> CoreFuture then None
      else Some (t, [case outcome of PollReady u \<Rightarrow> RunReady u | PollPending \<Rightarrow> RunPending wake_count | PollPanic \<Rightarrow> RunCancel]))"

definition run_ready :: "'u \<Rightarrow> bool \<Rightarrow> 'u task_op" where
  "run_ready output panics t = do {
     t \<leftarrow> drop_future t;
     if panics then Some (t, [RunClose]) else Some (t\<lparr>tk_core := CoreOutput output\<rparr>, [RunPublish])
   }"

definition run_publish :: "'u task_op" where
  "run_publish t = do {
     (state, t) \<leftarrow> fetch_update (\<lambda>s. if s AND CLOSED = CLOSED \<or> s AND REF_MASK = 0 then s else s AND NOT POLLING) t;
     if state AND CLOSED = CLOSED \<or> state AND REF_MASK = 0 then Some (t, [RunDropOutput]) else Some (t, [])
   }"

definition run_drop_output :: "bool \<Rightarrow> 'u task_op" where
  "run_drop_output panics t = do {
     t \<leftarrow> drop_output t;
     Some (t, [if panics then RunClose else RunFinish])
   }"

definition run_finish :: "'u task_op" where
  "run_finish t = do {
     (state, t) \<leftarrow> fetch_update (\<lambda>s. s AND NOT POLLING) t;
     if state AND REF_MASK = 0 then Some (t, [Dealloc]) else Some (t, [])
   }"

definition run_pending :: "64 word \<Rightarrow> 'u task_op" where
  "run_pending wake_count t = do {
     (state, t) \<leftarrow> fetch_update (\<lambda>s. s - wake_count) t;
     if \<not> wake_count < state then None
     else (let wake_count = (state AND WAKE_MASK) - wake_count in
       if wake_count = 0 \<and> state AND CLOSED = 0 then
         (if state AND REF_MASK = 0 then Some (t, [FreeFuture]) else Some (t, []))
       else Some (t, [RunLoop state wake_count]))
   }"

definition free_future :: "'u task_op" where
  "free_future t = do { t \<leftarrow> drop_future t; Some (t, [Dealloc]) }"

text \<open>\<open>cancel\<close> of a runnable: drop the future, then, in the drop guard, close the task. The panic guards of \<open>run\<close>
  end in the same way.\<close>

definition run_cancel :: "'u task_op" where
  "run_cancel t = do { t \<leftarrow> drop_future t; Some (t, [RunClose]) }"

definition run_close :: "'u task_op" where
  "run_close t = do {
     (state, t) \<leftarrow> fetch_update (\<lambda>s. (s OR CLOSED) AND NOT POLLING) t;
     if state AND REF_MASK = 0 then Some (t, [Dealloc]) else Some (t, [])
   }"

subsection \<open>Steps\<close>

text \<open>What the owner of a handle may choose to do with it; an operation in progress just goes on, where the drop
  of a future or an output may panic. The waker that is lent to the future while it is polled can
  be cloned and woken by reference.\<close>

datatype 'u choice = ChClone | ChWakeRef | ChWakeVal bool | ChDrop | ChPoll | ChCancel | ChRun | ChPolled "'u polled" | ChPanic | ChGo

definition waker_step :: "'u choice \<Rightarrow> 'u task_op" where
  "waker_step ch t =
     (case ch of
        ChClone \<Rightarrow> clone_waker Waker t
      | ChWakeRef \<Rightarrow> wake_by_ref Waker t
      | ChWakeVal captures \<Rightarrow> wake_by_val captures t
      | ChDrop \<Rightarrow> drop_waker t
      | _ \<Rightarrow> Some (t, [Waker]))"

definition promise_step :: "'u choice \<Rightarrow> 'u task_op" where
  "promise_step ch t =
     (case ch of
        ChPoll \<Rightarrow> do { (_, t, h) \<leftarrow> promise_poll t; Some (t, [h]) }
      | ChDrop \<Rightarrow> promise_drop t
      | _ \<Rightarrow> Some (t, [Promise]))"

definition token_step :: "'u choice \<Rightarrow> 'u task_op" where
  "token_step ch t =
     (case ch of ChCancel \<Rightarrow> token_cancel t | ChDrop \<Rightarrow> token_drop t | _ \<Rightarrow> Some (t, [CancelToken]))"

definition runnable_step :: "'u choice \<Rightarrow> 'u task_op" where
  "runnable_step ch t =
     (case ch of ChRun \<Rightarrow> run_begin t | ChDrop \<Rightarrow> Some (t, [RunCancel]) | _ \<Rightarrow> Some (t, [Runnable]))"

definition polling_step :: "64 word \<Rightarrow> 'u choice \<Rightarrow> 'u task_op" where
  "polling_step wake_count ch t =
     (case ch of
        ChClone \<Rightarrow> clone_waker (RunPoll wake_count) t
      | ChWakeRef \<Rightarrow> wake_by_ref (RunPoll wake_count) t
      | ChPolled outcome \<Rightarrow> run_polled wake_count outcome t
      | _ \<Rightarrow> Some (t, [RunPoll wake_count]))"

fun handle_step :: "'u choice \<Rightarrow> 'u handle \<Rightarrow> 'u task_op" where
  "handle_step ch Waker t = waker_step ch t"
| "handle_step ch Promise t = promise_step ch t"
| "handle_step ch CancelToken t = token_step ch t"
| "handle_step ch Runnable t = runnable_step ch t"
| "handle_step ch WakeSchedule t = wake_schedule t"
| "handle_step ch PromiseTake t = do { (_, t) \<leftarrow> promise_take t; Some (t, [Promise]) }"
| "handle_step ch CancelDrop t = cancel_drop t"
| "handle_step ch CancelRelease t = cancel_release t"
| "handle_step ch (RunLoop state wake_count) t = run_loop state wake_count t"
| "handle_step ch (RunPoll wake_count) t = polling_step wake_count ch t"
| "handle_step ch (RunPending wake_count) t = run_pending wake_count t"
| "handle_step ch (RunReady u) t = run_ready u (ch = ChPanic) t"
| "handle_step ch RunPublish t = run_publish t"
| "handle_step ch RunDropOutput t = run_drop_output (ch = ChPanic) t"
| "handle_step ch RunFinish t = run_finish t"
| "handle_step ch RunCancel t = run_cancel t"
| "handle_step ch RunClose t = run_close t"
| "handle_step ch (FreeCore state) t = free_core state t"
| "handle_step ch (FreeOutput state) t = free_output state t"
| "handle_step ch FreeFuture t = free_future t"
| "handle_step ch Dealloc t = do { t \<leftarrow> dealloc t; Some (t, []) }"

definition spawn :: "'u task \<times> 'u handle multiset" where
  "spawn = (\<lparr>tk_state = 2 * REF_INC OR WAKE_INC OR POLLING, tk_core = CoreFuture, tk_freed = False\<rparr>,
     {#Promise, Runnable, CancelToken#})"

definition spawn_and_forget :: "'u task \<times> 'u handle multiset" where
  "spawn_and_forget = (\<lparr>tk_state = REF_INC OR WAKE_INC OR POLLING, tk_core = CoreFuture, tk_freed = False\<rparr>,
     {#Runnable, CancelToken#})"

text \<open>The counts stay below the thresholds at which the code panics.\<close>

definition counts_fit :: "'u task \<Rightarrow> bool" where
  "counts_fit t \<longleftrightarrow> \<not> REF_CRITICAL < tk_state t AND REF_MASK \<and> \<not> WAKE_CRITICAL < tk_state t AND WAKE_MASK"

text \<open>The states that a task and its handles can be in, whatever their owners do and in whatever order.\<close>

inductive task_reach :: "'u task \<times> 'u handle multiset \<Rightarrow> bool" where
  start: "task_reach spawn"
| start_forget: "task_reach spawn_and_forget"
| step: "task_reach (t, add_mset h hs) \<Longrightarrow> counts_fit t \<Longrightarrow> handle_step ch h t = Some (t', new) \<Longrightarrow>
    task_reach (t', mset new + hs)"

end
