(* ===== verification/Task_Safety.thy ===== *)
theory Task_Safety
  imports Task_Machine
begin

unbundle bit_operations_syntax

text \<open>
  Safety of tasks: an invariant that ties the state word to the handles that exist, and what follows from it for
  the memory of a task, for the access to its future and output, and for wake-ups.
\<close>

subsection \<open>What the handles stand for\<close>

text \<open>Handles that are counted in the state word, and handles that have the future or output of the task to
  themselves.\<close>

fun ref_of :: "'u handle \<Rightarrow> nat" where
  "ref_of Waker = 1"
| "ref_of Promise = 1"
| "ref_of PromiseTake = 1"
| "ref_of CancelToken = 1"
| "ref_of CancelDrop = 1"
| "ref_of CancelRelease = 1"
| "ref_of _ = 0"

fun owner_of :: "'u handle \<Rightarrow> nat" where
  "owner_of Waker = 0"
| "owner_of Promise = 0"
| "owner_of CancelToken = 0"
| "owner_of _ = 1"

definition refs :: "'u handle multiset \<Rightarrow> nat" where
  "refs hs = (\<Sum>h \<in># hs. ref_of h)"

definition owners :: "'u handle multiset \<Rightarrow> nat" where
  "owners hs = (\<Sum>h \<in># hs. owner_of h)"

lemma refs_simps [simp]:
  "refs {#} = 0" "refs (add_mset h hs) = ref_of h + refs hs" "refs (hs + hs') = refs hs + refs hs'"
  by (simp_all add: refs_def)

lemma owners_simps [simp]:
  "owners {#} = 0" "owners (add_mset h hs) = owner_of h + owners hs" "owners (hs + hs') = owners hs + owners hs'"
  by (simp_all add: owners_def)

text \<open>A wake count that was seen before is part of the present one.\<close>

definition seen_wakes :: "bool \<Rightarrow> 64 word \<Rightarrow> nat \<Rightarrow> bool" where
  "seen_wakes some wake_count w \<longleftrightarrow> (\<exists>k. wake_count = task_word False False 0 k \<and> k \<le> w \<and> (some \<longrightarrow> 0 < k))"

lemma seen_wakes_mono:
  assumes "seen_wakes b kw w" "w \<le> w'"
  shows "seen_wakes b kw w'"
proof -
  obtain k where "kw = task_word False False 0 k" "k \<le> w" "b \<longrightarrow> 0 < k" using assms(1) by (auto simp: seen_wakes_def)
  with assms(2) show ?thesis unfolding seen_wakes_def by (intro exI [of _ k]) simp
qed

lemma seen_wakes_pos: "seen_wakes True kw w \<Longrightarrow> 0 < w"
  by (auto simp: seen_wakes_def)

text \<open>What an owner relies on: the flags \<open>p\<close> (polling) and \<open>c\<close> (closed), the counts, and what is in the task.\<close>

fun owner_ok :: "bool \<Rightarrow> bool \<Rightarrow> nat \<Rightarrow> nat \<Rightarrow> 'u task_core \<Rightarrow> 'u handle \<Rightarrow> bool" where
  "owner_ok p c r w core WakeSchedule \<longleftrightarrow> p \<and> (0 < w \<or> c) \<and> core = CoreFuture"
| "owner_ok p c r w core Runnable \<longleftrightarrow> p \<and> (0 < w \<or> c) \<and> core = CoreFuture"
| "owner_ok p c r w core (RunLoop s kw) \<longleftrightarrow> p \<and> (0 < w \<or> c) \<and> core = CoreFuture \<and>
     seen_wakes (s AND CLOSED \<noteq> CLOSED) kw w \<and> (s AND CLOSED = CLOSED \<longrightarrow> c)"
| "owner_ok p c r w core (RunPoll kw) \<longleftrightarrow> p \<and> core = CoreFuture \<and> seen_wakes True kw w"
| "owner_ok p c r w core (RunPending kw) \<longleftrightarrow> p \<and> core = CoreFuture \<and> seen_wakes True kw w"
| "owner_ok p c r w core (RunReady u) \<longleftrightarrow> p \<and> 0 < w \<and> core = CoreFuture"
| "owner_ok p c r w core RunPublish \<longleftrightarrow> p \<and> 0 < w \<and> (\<exists>u. core = CoreOutput u)"
| "owner_ok p c r w core RunDropOutput \<longleftrightarrow> p \<and> 0 < w \<and> (c \<or> r = 0) \<and> (\<exists>u. core = CoreOutput u)"
| "owner_ok p c r w core RunFinish \<longleftrightarrow> p \<and> 0 < w \<and> (c \<or> r = 0) \<and> core = CoreDropped"
| "owner_ok p c r w core RunCancel \<longleftrightarrow> p \<and> (0 < w \<or> c) \<and> core = CoreFuture"
| "owner_ok p c r w core RunClose \<longleftrightarrow> p \<and> (0 < w \<or> c) \<and> core = CoreDropped"
| "owner_ok p c r w core PromiseTake \<longleftrightarrow> \<not> p \<and> c \<and> (\<exists>u. core = CoreOutput u)"
| "owner_ok p c r w core CancelDrop \<longleftrightarrow> \<not> p \<and> c \<and> core = CoreFuture"
| "owner_ok p c r w core CancelRelease \<longleftrightarrow> \<not> p \<and> c \<and> core = CoreDropped"
| "owner_ok p c r w core (FreeCore s) \<longleftrightarrow> r = 0 \<and>
     (if s AND POLLING = POLLING then core = CoreFuture else if s AND CLOSED = 0 then \<exists>u. core = CoreOutput u else core = CoreDropped)"
| "owner_ok p c r w core (FreeOutput s) \<longleftrightarrow> r = 0 \<and>
     (if s AND CLOSED = 0 then \<exists>u. core = CoreOutput u else core = CoreDropped)"
| "owner_ok p c r w core FreeFuture \<longleftrightarrow> r = 0 \<and> core = CoreFuture"
| "owner_ok p c r w core Dealloc \<longleftrightarrow> r = 0 \<and> core = CoreDropped"
| "owner_ok p c r w core _ \<longleftrightarrow> True"

text \<open>What is in a task that nobody owns: in the polling phase the future, with no wake-up outstanding; in the
  completed phase the output; in the closed phase nothing.\<close>

definition idle_ok :: "bool \<Rightarrow> bool \<Rightarrow> nat \<Rightarrow> 'u task_core \<Rightarrow> bool" where
  "idle_ok p c w core \<longleftrightarrow>
     (if p then core = CoreFuture \<and> \<not> c \<and> w = 0 else if c then core = CoreDropped else \<exists>u. core = CoreOutput u)"

definition handles_ok :: "bool \<Rightarrow> bool \<Rightarrow> nat \<Rightarrow> nat \<Rightarrow> 'u task_core \<Rightarrow> 'u handle multiset \<Rightarrow> bool" where
  "handles_ok p c r w core hs \<longleftrightarrow>
     r = refs hs \<and> owners hs \<le> 1 \<and> 0 < refs hs + owners hs \<and> (owners hs = 0 \<longrightarrow> idle_ok p c w core) \<and>
     (\<forall>h \<in># hs. owner_ok p c r w core h)"

definition task_inv :: "'u task \<Rightarrow> 'u handle multiset \<Rightarrow> bool" where
  "task_inv t hs \<longleftrightarrow>
     (if tk_freed t then hs = {#} \<and> tk_core t = CoreDropped
      else \<exists>p c r w. tk_state t = task_word p c r w \<and> r < count_limit \<and> w < count_limit \<and> handles_ok p c r w (tk_core t) hs)"

lemma unowned_ok [simp]: "owner_of h = 0 \<Longrightarrow> owner_ok p c r w core h"
  by (cases h) auto

lemma unowned_all: "owners hs = 0 \<Longrightarrow> h \<in># hs \<Longrightarrow> owner_ok p c r w core h"
  by (rule unowned_ok) (simp add: owners_def)

text \<open>Owners do not mind references and wake-ups that come and go, as long as there was a reference before, nor
  that a task is closed while it is run.\<close>

lemma owner_ok_mono: "owner_ok p c r w core h \<Longrightarrow> 0 < r \<Longrightarrow> w \<le> w' \<Longrightarrow> owner_ok p c r' w' core h"
  by (cases h) (use seen_wakes_mono [of _ _ w w'] in auto)

lemma owner_ok_closed: "owner_ok p c r w core h \<Longrightarrow> 0 < r \<Longrightarrow> p \<Longrightarrow> owner_ok p True r' w core h"
  by (cases h; simp)

lemma task_invE:
  assumes "task_inv t (add_mset h hs)"
  obtains p c w where "\<not> tk_freed t" "tk_state t = task_word p c (ref_of h + refs hs) w" "ref_of h + refs hs < count_limit"
    "w < count_limit" "handles_ok p c (ref_of h + refs hs) w (tk_core t) (add_mset h hs)"
proof -
  have "\<not> tk_freed t" using assms by (auto simp: task_inv_def)
  with assms obtain p c r w where i: "tk_state t = task_word p c r w" "r < count_limit" "w < count_limit"
      "handles_ok p c r w (tk_core t) (add_mset h hs)"
    unfolding task_inv_def by auto
  moreover have "r = ref_of h + refs hs" using i(4) by (simp add: handles_ok_def)
  ultimately show thesis using that [of p c w] \<open>\<not> tk_freed t\<close> by simp
qed

text \<open>An owner has the task to itself; other handles share it with at most one owner.\<close>

lemma handles_ok_owner:
  assumes "handles_ok p c r w core (add_mset h hs)" "owner_of h = 1"
  shows "owners hs = 0" "owner_ok p c r w core h"
  using assms by (auto simp: handles_ok_def)

lemma handles_ok_shared:
  assumes "handles_ok p c r w core (add_mset h hs)" "owner_of h = 0"
  shows "owners hs \<le> 1" "owners hs = 0 \<Longrightarrow> idle_ok p c w core" "h' \<in># hs \<Longrightarrow> owner_ok p c r w core h'"
  using assms by (auto simp: handles_ok_def)

lemma task_invI:
  assumes "tk_state t = task_word p c (refs hs) w" "refs hs < count_limit" "w < count_limit" "\<not> tk_freed t"
    and "handles_ok p c (refs hs) w (tk_core t) hs"
  shows "task_inv t hs"
  unfolding task_inv_def using assms by auto

text \<open>Whether a runnable exists can be read off the state word, if someone holds a reference.\<close>

lemma runnable_exists_word [simp]:
  assumes "r < count_limit" "w < count_limit"
  shows "runnable_exists (task_word p c r w) \<longleftrightarrow> p \<and> (0 < w \<or> c)"
  using assms by (auto simp: runnable_exists_def)

lemma owner_phase:
  assumes "owner_of h = 1" "owner_ok p c r w core h" "0 < r" "p"
  shows "0 < w \<or> c"
  using assms by (cases h) (auto dest: seen_wakes_pos)

lemma counts_fit_word:
  assumes "r < count_limit" "w < count_limit" "counts_fit t" "tk_state t = task_word p c r w"
  shows "r < 2 ^ 30" "w < 2 ^ 30"
  using assms by (simp_all add: counts_fit_def)

subsection \<open>Who owns what\<close>

lemma owner_of_cases: "owner_of h = 0 \<or> owner_of h = 1"
  by (cases h) simp_all

lemma owners_pos:
  assumes "0 < owners hs"
  shows "\<exists>h \<in># hs. owner_of h = 1"
proof -
  have "(\<forall>h \<in># hs. owner_of h = 0) \<Longrightarrow> owners hs = 0" by (simp add: owners_def)
  then obtain h where "h \<in># hs" "owner_of h \<noteq> 0" using assms by auto
  then show ?thesis using owner_of_cases [of h] by auto
qed

lemma refs_member: "h \<in># hs \<Longrightarrow> ref_of h \<le> refs hs"
  using multi_member_split [of h hs] by auto

text \<open>Nobody owns a task in the polling phase that is not woken; if somebody owns a task that has one reference only,
  held elsewhere, then its runnable exists.\<close>

lemma polling_unowned:
  assumes "handles_ok p c r w core (add_mset h hs)" "owner_of h = 0" "0 < r" "p" "\<not> c" "w = 0"
  shows "owners hs = 0"
proof (rule ccontr)
  assume "owners hs \<noteq> 0"
  then obtain h' where "h' \<in># hs" "owner_of h' = 1" using owners_pos by blast
  with handles_ok_shared(3) [OF assms(1,2)] owner_phase [of h' p c r w core] assms show False by auto
qed

lemma completed_unowned:
  assumes "handles_ok p c r w core (add_mset h hs)" "owner_of h = 0" "0 < r" "\<not> p" "\<not> c"
  shows "owners hs = 0"
proof (rule ccontr)
  assume "owners hs \<noteq> 0"
  then obtain h' where h': "h' \<in># hs" "owner_of h' = 1" using owners_pos by blast
  from handles_ok_shared(3) [OF assms(1,2) h'(1)] h'(2) assms(3-5) show False by (cases h') auto
qed

lemma idle_ok_wake: "\<not> (p \<and> \<not> c \<and> w = 0) \<Longrightarrow> idle_ok p c w core \<Longrightarrow> idle_ok p c w' core"
  by (auto simp: idle_ok_def split: if_splits)

lemma last_reference:
  assumes "handles_ok p c r w core (add_mset h hs)" "owner_of h = 0" "r = 1" "refs hs = 0" "owners hs \<noteq> 0"
  shows "p \<and> (0 < w \<or> c)"
proof -
  obtain h' where h': "h' \<in># hs" "owner_of h' = 1" using owners_pos assms(5) by blast
  have "ref_of h' = 0" using refs_member [OF h'(1)] assms(4) by simp
  with handles_ok_shared(3) [OF assms(1,2) h'(1)] h'(2) assms(3) show ?thesis
    by (cases h') (auto dest: seen_wakes_pos)
qed

lemma runnable_owned:
  assumes "handles_ok p c r w core (add_mset h hs)" "owner_of h = 0" "p" "0 < w \<or> c"
  shows "owners hs = 1"
  using handles_ok_shared(1,2) [OF assms(1,2)] assms(3,4) by (cases "owners hs") (auto simp: idle_ok_def)

lemma owned:
  assumes "owners hs = 0" "owner_of h = 1" "owner_ok p c (ref_of h + refs hs) w core h"
  shows "handles_ok p c (ref_of h + refs hs) w core (add_mset h hs)"
  using assms unowned_all [OF assms(1)] by (auto simp: handles_ok_def)

lemma unowned:
  assumes "owners hs = 0" "0 < refs hs" "idle_ok p c w core"
  shows "handles_ok p c (refs hs) w core hs"
  using assms unowned_all [OF assms(1)] by (auto simp: handles_ok_def)

text \<open>A step of a handle that owns nothing and leaves handles that own nothing.\<close>

lemma shared:
  assumes "handles_ok p c r w core (add_mset h hs)" "owner_of h = 0" "0 < r"
    and "owners hs = 0 \<Longrightarrow> idle_ok p c w core \<Longrightarrow> idle_ok p' c' w' core"
    and "owners hs = 1 \<Longrightarrow> p' = p \<and> w \<le> w' \<and> (c' = c \<or> p \<and> c')"
    and "owners new = 0" "0 < refs new + refs hs + owners hs"
  shows "handles_ok p' c' (refs new + refs hs) w' core (new + hs)"
proof (cases "owners hs = 0")
  case True
  then have "idle_ok p' c' w' core" using assms(4) handles_ok_shared(2) [OF assms(1,2)] by blast
  with True assms(6,7) unowned_all [of "new + hs"] show ?thesis by (auto simp: handles_ok_def)
next
  case False
  with handles_ok_shared(1) [OF assms(1,2)] have o: "owners hs = 1" by simp
  have "owner_ok p' c' (refs new + refs hs) w' core h'" if "h' \<in># hs" for h'
  proof -
    note ok = handles_ok_shared(3) [OF assms(1,2) that]
    from assms(5) [OF o] have p: "p' = p" "w \<le> w'" "c' = c \<or> p \<and> c'" by auto
    from p(3) show ?thesis
    proof
      assume "c' = c"
      with owner_ok_mono [OF ok assms(3) p(2)] p(1) show ?thesis by simp
    next
      assume "p \<and> c'"
      with owner_ok_mono [OF owner_ok_closed [OF ok assms(3)] assms(3) p(2)] p(1) show ?thesis by simp
    qed
  qed
  with o assms(6,7) unowned_all [of new] show ?thesis by (auto simp: handles_ok_def)
qed

subsection \<open>Every step is safe\<close>

definition step_safe :: "('u task \<times> 'u handle list) option \<Rightarrow> 'u handle multiset \<Rightarrow> bool" where
  "step_safe res hs \<longleftrightarrow> (\<exists>t new. res = Some (t, new) \<and> task_inv t (mset new + hs))"

lemma step_safeI:
  assumes "\<not> tk_freed t" "tk_state t = task_word p c r w" "r < count_limit" "w < count_limit"
    and "handles_ok p c r w (tk_core t) (mset new + hs)"
  shows "step_safe (Some (t, new)) hs"
  using assms by (auto simp: step_safe_def task_inv_def)

text \<open>A handle that owns nothing holds a reference.\<close>

lemma task_inv_shared:
  assumes "task_inv t (add_mset h hs)" "counts_fit t" "owner_of h = 0"
  obtains p c r w where "\<not> tk_freed t" "tk_state t = task_word p c r w" "r = 1 + refs hs" "r < 2 ^ 30" "w < 2 ^ 30"
    "handles_ok p c r w (tk_core t) (add_mset h hs)"
proof -
  have "ref_of h = 1" using assms(3) by (cases h) auto
  moreover obtain p c w where i: "\<not> tk_freed t" "tk_state t = task_word p c (ref_of h + refs hs) w"
      "ref_of h + refs hs < count_limit" "w < count_limit" "handles_ok p c (ref_of h + refs hs) w (tk_core t) (add_mset h hs)"
    by (rule task_invE [OF assms(1)])
  ultimately show thesis
    using that [of p c "1 + refs hs" w] counts_fit_word [OF i(3,4) assms(2) i(2)] by simp
qed

lemma task_inv_owned:
  assumes "task_inv t (add_mset h hs)" "counts_fit t" "owner_of h = 1"
  obtains p c r w where "\<not> tk_freed t" "tk_state t = task_word p c r w" "r = ref_of h + refs hs" "r < 2 ^ 30" "w < 2 ^ 30"
    "owners hs = 0" "owner_ok p c r w (tk_core t) h"
proof -
  obtain p c w where i: "\<not> tk_freed t" "tk_state t = task_word p c (ref_of h + refs hs) w"
      "ref_of h + refs hs < count_limit" "w < count_limit" "handles_ok p c (ref_of h + refs hs) w (tk_core t) (add_mset h hs)"
    by (rule task_invE [OF assms(1)])
  from that [of p c "ref_of h + refs hs" w] i(1,2) counts_fit_word [OF i(3,4) assms(2) i(2)] handles_ok_owner [OF i(5) assms(3)]
  show thesis by simp
qed

lemma clone_waker_safe:
  assumes "task_inv t (add_mset Waker hs)" "counts_fit t"
  shows "step_safe (clone_waker Waker t) hs"
proof -
  obtain p c r w where i: "\<not> tk_freed t" "tk_state t = task_word p c r w" "r = 1 + refs hs" "r < 2 ^ 30" "w < 2 ^ 30"
      "handles_ok p c r w (tk_core t) (add_mset Waker hs)"
    by (rule task_inv_shared [OF assms]) simp
  have s: "clone_waker Waker t = Some (t\<lparr>tk_state := task_word p c (r + 1) w\<rparr>, [Waker, Waker])"
    using i by (simp add: clone_waker_def fetch_update_def)
  show ?thesis
    unfolding s using i shared [OF i(6), of p c w "mset [Waker, Waker]"]
    by (intro step_safeI [of _ p c "r + 1" w]) auto
qed

lemma clone_lent_waker_safe:
  assumes "task_inv t (add_mset (RunPoll kw) hs)" "counts_fit t"
  shows "step_safe (clone_waker (RunPoll kw) t) hs"
proof -
  obtain p c r w where i: "\<not> tk_freed t" "tk_state t = task_word p c r w" "r = refs hs" "r < 2 ^ 30" "w < 2 ^ 30"
      "owners hs = 0" "owner_ok p c r w (tk_core t) (RunPoll kw)"
    by (rule task_inv_owned [OF assms]) simp_all
  have s: "clone_waker (RunPoll kw) t = Some (t\<lparr>tk_state := task_word p c (r + 1) w\<rparr>, [RunPoll kw, Waker])"
    using i by (simp add: clone_waker_def fetch_update_def)
  show ?thesis
    unfolding s using i owned [of "add_mset Waker hs" "RunPoll kw" p c w "tk_core t"]
    by (intro step_safeI [of _ p c "r + 1" w]) (auto simp: add_mset_commute)
qed

lemma wake_by_ref_safe:
  assumes "task_inv t (add_mset Waker hs)" "counts_fit t"
  shows "step_safe (wake_by_ref Waker t) hs"
proof -
  obtain p c r w where i: "\<not> tk_freed t" "tk_state t = task_word p c r w" "r = 1 + refs hs" "r < 2 ^ 30" "w < 2 ^ 30"
      "handles_ok p c r w (tk_core t) (add_mset Waker hs)"
    by (rule task_inv_shared [OF assms]) simp
  let ?t = "t\<lparr>tk_state := task_word p c r (w + 1)\<rparr>"
  show ?thesis
  proof (cases "p \<and> \<not> c \<and> w = 0")
    case True
    then have o: "owners hs = 0" using polling_unowned [OF i(6)] i(3) by simp
    with True handles_ok_shared(2) [OF i(6)] have "tk_core t = CoreFuture" by (simp add: idle_ok_def)
    moreover have s: "wake_by_ref Waker t = Some (?t, [Waker, WakeSchedule])"
      using i True by (simp add: wake_by_ref_def fetch_update_def)
    ultimately show ?thesis
      unfolding s using i True o owned [of "add_mset Waker hs" WakeSchedule p c "w + 1" "tk_core t"]
      by (intro step_safeI [of _ p c r "w + 1"]) (auto simp: add_mset_commute)
  next
    case False
    then have s: "wake_by_ref Waker t = Some (?t, [Waker])"
      using i by (auto simp: wake_by_ref_def fetch_update_def)
    show ?thesis
      unfolding s using i False shared [OF i(6), of p c "w + 1" "{#Waker#}"] idle_ok_wake [OF False]
      by (intro step_safeI [of _ p c r "w + 1"]) auto
  qed
qed

lemma wake_lent_waker_safe:
  assumes "task_inv t (add_mset (RunPoll kw) hs)" "counts_fit t"
  shows "step_safe (wake_by_ref (RunPoll kw) t) hs"
proof -
  obtain p c r w where i: "\<not> tk_freed t" "tk_state t = task_word p c r w" "r = refs hs" "r < 2 ^ 30" "w < 2 ^ 30"
      "owners hs = 0" "owner_ok p c r w (tk_core t) (RunPoll kw)"
    by (rule task_inv_owned [OF assms]) simp_all
  have "0 < w" "owner_ok p c r (w + 1) (tk_core t) (RunPoll kw)"
    using i(7) seen_wakes_pos seen_wakes_mono [of True kw w "w + 1"] by auto
  moreover from this(1) have s: "wake_by_ref (RunPoll kw) t = Some (t\<lparr>tk_state := task_word p c r (w + 1)\<rparr>, [RunPoll kw])"
    using i by (simp add: wake_by_ref_def fetch_update_def)
  ultimately show ?thesis
    unfolding s using i owned [of hs "RunPoll kw" p c "w + 1" "tk_core t"]
    by (intro step_safeI [of _ p c r "w + 1"]) auto
qed

text \<open>Giving up a reference: the last one, if there is no runnable, frees the task.\<close>

lemma free_core_ok:
  assumes "handles_ok p c r w core (add_mset h hs)" "owner_of h = 0" "r = 1" "refs hs = 0" "\<not> (p \<and> (0 < w \<or> c))"
    and "r < count_limit" "w < count_limit"
  shows "handles_ok p c 0 w core (add_mset (FreeCore (task_word p c r w)) hs)"
proof -
  have o: "owners hs = 0" using last_reference [OF assms(1-4)] assms(5) by blast
  with handles_ok_shared(2) [OF assms(1,2)] have "idle_ok p c w core" by blast
  with o assms(3-7) owned [of hs "FreeCore (task_word p c r w)" p c w core] show ?thesis
    by (auto simp: idle_ok_def split: if_splits)
qed

text \<open>The three kinds of references are dropped in the same way.\<close>

lemma drops_like_waker: "promise_drop = drop_waker" "token_drop = drop_waker"
  by (simp_all add: fun_eq_iff promise_drop_def token_drop_def drop_waker_def)

lemma drop_waker_safe:
  assumes "task_inv t (add_mset h hs)" "counts_fit t" "owner_of h = 0"
  shows "step_safe (drop_waker t) hs"
proof -
  obtain p c r w where i: "\<not> tk_freed t" "tk_state t = task_word p c r w" "r = 1 + refs hs" "r < 2 ^ 30" "w < 2 ^ 30"
      "handles_ok p c r w (tk_core t) (add_mset h hs)"
    by (rule task_inv_shared [OF assms])
  let ?t = "t\<lparr>tk_state := task_word p c (r - 1) w\<rparr>"
  show ?thesis
  proof (cases "r = 1 \<and> \<not> (p \<and> (0 < w \<or> c))")
    case True
    then have s: "drop_waker t = Some (?t, [FreeCore (task_word p c r w)])"
      using i by (simp add: drop_waker_def fetch_update_def)
    show ?thesis
      unfolding s using i True free_core_ok [OF i(6) assms(3)] by (intro step_safeI [of _ p c 0 w]) auto
  next
    case False
    then have s: "drop_waker t = Some (?t, [])"
      using i by (auto simp: drop_waker_def fetch_update_def)
    have "0 < refs hs + owners hs"
      using False i(3) runnable_owned [OF i(6) assms(3)] by (cases "r = 1") auto
    then show ?thesis
      unfolding s using i shared [OF i(6) assms(3), of p c w "{#}"]
      by (intro step_safeI [of _ p c "refs hs" w]) auto
  qed
qed

lemma wake_by_val_safe:
  assumes "task_inv t (add_mset Waker hs)" "counts_fit t"
  shows "step_safe (wake_by_val captures t) hs"
proof -
  obtain p c r w where i: "\<not> tk_freed t" "tk_state t = task_word p c r w" "r = 1 + refs hs" "r < 2 ^ 30" "w < 2 ^ 30"
      "handles_ok p c r w (tk_core t) (add_mset Waker hs)"
    by (rule task_inv_shared [OF assms]) simp
  let ?t = "t\<lparr>tk_state := task_word p c (r - 1) (w + 1)\<rparr>"
  have "step_safe (wake_by_val False t) hs"
  proof (cases "p \<and> \<not> c \<and> w = 0")
    case True
    then have o: "owners hs = 0" using polling_unowned [OF i(6)] i(3) by simp
    with True handles_ok_shared(2) [OF i(6)] have "tk_core t = CoreFuture" by (simp add: idle_ok_def)
    moreover have s: "wake_by_val False t = Some (?t, [WakeSchedule])"
      using i True by (simp add: wake_by_val_def fetch_update_def)
    ultimately show ?thesis
      unfolding s using i True o owned [of hs WakeSchedule p c "w + 1" "tk_core t"]
      by (intro step_safeI [of _ p c "refs hs" "w + 1"]) auto
  next
    case not_idle: False
    show ?thesis
    proof (cases "\<not> p \<and> r = 1")
      case True
      then have s: "wake_by_val False t = Some (?t, [FreeOutput (task_word p c r w)])"
        using i by (auto simp: wake_by_val_def fetch_update_def)
      have o: "owners hs = 0" using last_reference [OF i(6)] True i(3) by auto
      with handles_ok_shared(2) [OF i(6)] True have "idle_ok p c w (tk_core t)" by simp
      with True i o show ?thesis
        unfolding s using owned [of hs "FreeOutput (task_word p c r w)" p c "w + 1" "tk_core t"]
        by (intro step_safeI [of _ p c 0 "w + 1"]) (auto simp: idle_ok_def split: if_splits)
    next
      case False
      with not_idle have s: "wake_by_val False t = Some (?t, [])"
        using i by (auto simp: wake_by_val_def fetch_update_def)
      have "0 < refs hs + owners hs"
        using False not_idle i(3) runnable_owned [OF i(6)] by (cases "r = 1") auto
      then show ?thesis
        unfolding s using i shared [OF i(6), of p c "w + 1" "{#}"] idle_ok_wake [OF not_idle]
        by (intro step_safeI [of _ p c "refs hs" "w + 1"]) auto
    qed
  qed
  then show ?thesis
    using drop_waker_safe [OF assms] by (cases captures) (simp_all add: wake_by_val_def)
qed

lemma promise_poll_safe:
  assumes "task_inv t (add_mset Promise hs)" "counts_fit t"
  shows "step_safe (do { (_, t, h) \<leftarrow> promise_poll t; Some (t, [h]) }) hs"
proof -
  obtain p c r w where i: "\<not> tk_freed t" "tk_state t = task_word p c r w" "r = 1 + refs hs" "r < 2 ^ 30" "w < 2 ^ 30"
      "handles_ok p c r w (tk_core t) (add_mset Promise hs)"
    by (rule task_inv_shared [OF assms]) simp
  show ?thesis
  proof (cases "\<not> p \<and> \<not> c")
    case True
    have o: "owners hs = 0" using completed_unowned [OF i(6)] True i(3) by simp
    with True handles_ok_shared(2) [OF i(6)] obtain u where "tk_core t = CoreOutput u" by (auto simp: idle_ok_def)
    moreover have s: "(do { (_, t, h) \<leftarrow> promise_poll t; Some (t, [h]) }) =
        Some (t\<lparr>tk_state := task_word p True r w\<rparr>, [PromiseTake])"
      using i True by (simp add: promise_poll_def fetch_update_def)
    ultimately show ?thesis
      unfolding s using i True o owned [of hs PromiseTake p True w "tk_core t"]
      by (intro step_safeI [of _ p True r w]) auto
  next
    case False
    then have s: "(do { (_, t, h) \<leftarrow> promise_poll t; Some (t, [h]) }) = Some (t, [Promise])"
      using i by (auto simp: promise_poll_def fetch_update_def)
    show ?thesis
      unfolding s using i by (intro step_safeI [of _ p c r w]) auto
  qed
qed

lemma token_cancel_safe:
  assumes "task_inv t (add_mset CancelToken hs)" "counts_fit t"
  shows "step_safe (token_cancel t) hs"
proof -
  obtain p c r w where i: "\<not> tk_freed t" "tk_state t = task_word p c r w" "r = 1 + refs hs" "r < 2 ^ 30" "w < 2 ^ 30"
      "handles_ok p c r w (tk_core t) (add_mset CancelToken hs)"
    by (rule task_inv_shared [OF assms]) simp
  consider (completed) "\<not> p" | (run) "p" "0 < w \<or> c" | (idle) "p" "\<not> c" "w = 0" by auto
  then show ?thesis
  proof cases
    case completed
    show ?thesis
    proof (cases "r = 1")
      case True
      with completed have s: "token_cancel t = Some (t\<lparr>tk_state := task_word p c (r - 1) w\<rparr>, [FreeOutput (task_word p c r w)])"
        using i by (simp add: token_cancel_def fetch_update_def)
      have o: "owners hs = 0" using last_reference [OF i(6)] True completed i(3) by auto
      with handles_ok_shared(2) [OF i(6)] have "idle_ok p c w (tk_core t)" by simp
      with True completed i o show ?thesis
        unfolding s using owned [of hs "FreeOutput (task_word p c r w)" p c w "tk_core t"]
        by (intro step_safeI [of _ p c 0 w]) (auto simp: idle_ok_def split: if_splits)
    next
      case False
      with completed have s: "token_cancel t = Some (t\<lparr>tk_state := task_word p c (r - 1) w\<rparr>, [])"
        using i by (simp add: token_cancel_def fetch_update_def)
      show ?thesis
        unfolding s using i False shared [OF i(6), of p c w "{#}"] by (intro step_safeI [of _ p c "refs hs" w]) auto
    qed
  next
    case run
    then have s: "token_cancel t = Some (t\<lparr>tk_state := task_word p True (r - 1) w\<rparr>, [])"
      using i by (simp add: token_cancel_def fetch_update_def)
    have "owners hs = 1" using runnable_owned [OF i(6)] run by simp
    then show ?thesis
      unfolding s using i run shared [OF i(6), of p True w "{#}"] by (intro step_safeI [of _ p True "refs hs" w]) auto
  next
    case idle
    then have s: "token_cancel t = Some (t\<lparr>tk_state := task_word False True r w\<rparr>, [CancelDrop])"
      using i by (simp add: token_cancel_def fetch_update_def)
    have o: "owners hs = 0" using polling_unowned [OF i(6)] idle i(3) by simp
    with idle handles_ok_shared(2) [OF i(6)] have "tk_core t = CoreFuture" by (simp add: idle_ok_def)
    with i o show ?thesis
      unfolding s using owned [of hs CancelDrop False True w "tk_core t"] by (intro step_safeI [of _ False True r w]) auto
  qed
qed

lemma promise_take_safe:
  assumes "task_inv t (add_mset PromiseTake hs)" "counts_fit t"
  shows "step_safe (do { (_, t) \<leftarrow> promise_take t; Some (t, [Promise]) }) hs"
proof -
  obtain p c r w where i: "\<not> tk_freed t" "tk_state t = task_word p c r w" "r = 1 + refs hs" "r < 2 ^ 30" "w < 2 ^ 30"
      "owners hs = 0" "owner_ok p c r w (tk_core t) PromiseTake"
    by (rule task_inv_owned [OF assms]) simp_all
  then have s: "(do { (_, t) \<leftarrow> promise_take t; Some (t, [Promise]) }) = Some (t\<lparr>tk_core := CoreDropped\<rparr>, [Promise])"
    by (auto simp: promise_take_def take_output_def)
  show ?thesis
    unfolding s using i unowned [of "add_mset Promise hs" p c w CoreDropped]
    by (intro step_safeI [of _ p c r w]) (auto simp: idle_ok_def)
qed

lemma cancel_drop_safe:
  assumes "task_inv t (add_mset CancelDrop hs)" "counts_fit t"
  shows "step_safe (cancel_drop t) hs"
proof -
  obtain p c r w where i: "\<not> tk_freed t" "tk_state t = task_word p c r w" "r = 1 + refs hs" "r < 2 ^ 30" "w < 2 ^ 30"
      "owners hs = 0" "owner_ok p c r w (tk_core t) CancelDrop"
    by (rule task_inv_owned [OF assms]) simp_all
  then have s: "cancel_drop t = Some (t\<lparr>tk_core := CoreDropped\<rparr>, [CancelRelease])"
    by (simp add: cancel_drop_def drop_future_def)
  show ?thesis
    unfolding s using i owned [of hs CancelRelease p c w CoreDropped] by (intro step_safeI [of _ p c r w]) auto
qed

lemma cancel_release_safe:
  assumes "task_inv t (add_mset CancelRelease hs)" "counts_fit t"
  shows "step_safe (cancel_release t) hs"
proof -
  obtain p c r w where i: "\<not> tk_freed t" "tk_state t = task_word p c r w" "r = 1 + refs hs" "r < 2 ^ 30" "w < 2 ^ 30"
      "owners hs = 0" "owner_ok p c r w (tk_core t) CancelRelease"
    by (rule task_inv_owned [OF assms]) simp_all
  let ?t = "t\<lparr>tk_state := task_word p c (r - 1) w\<rparr>"
  show ?thesis
  proof (cases "r = 1")
    case True
    then have s: "cancel_release t = Some (?t, [Dealloc])"
      using i by (simp add: cancel_release_def fetch_update_def)
    show ?thesis
      unfolding s using i True owned [of hs Dealloc p c w CoreDropped] by (intro step_safeI [of _ p c 0 w]) auto
  next
    case False
    then have s: "cancel_release t = Some (?t, [])"
      using i by (simp add: cancel_release_def fetch_update_def)
    show ?thesis
      unfolding s using i False unowned [of hs p c w CoreDropped] by (intro step_safeI [of _ p c "refs hs" w]) (auto simp: idle_ok_def)
  qed
qed

lemma wake_schedule_safe:
  assumes "task_inv t (add_mset WakeSchedule hs)" "counts_fit t"
  shows "step_safe (wake_schedule t) hs"
proof -
  obtain p c r w where i: "\<not> tk_freed t" "tk_state t = task_word p c r w" "r = refs hs" "r < 2 ^ 30" "w < 2 ^ 30"
      "owners hs = 0" "owner_ok p c r w (tk_core t) WakeSchedule"
    by (rule task_inv_owned [OF assms]) simp_all
  then have s: "wake_schedule t = Some (t, [Runnable])" by (simp add: wake_schedule_def)
  show ?thesis
    unfolding s using i owned [of hs Runnable p c w "tk_core t"] by (intro step_safeI [of _ p c r w]) auto
qed

lemma runnable_step_safe:
  assumes "task_inv t (add_mset Runnable hs)" "counts_fit t"
  shows "step_safe (runnable_step ch t) hs"
proof -
  obtain p c r w where i: "\<not> tk_freed t" "tk_state t = task_word p c r w" "r = refs hs" "r < 2 ^ 30" "w < 2 ^ 30"
      "owners hs = 0" "owner_ok p c r w (tk_core t) Runnable"
    by (rule task_inv_owned [OF assms]) simp_all
  let ?l = "RunLoop (task_word p c r w) (task_word False False 0 w)"
  have "run_begin t = Some (t, [?l])"
    using i by (simp add: run_begin_def fetch_update_def)
  moreover have "seen_wakes (\<not> c) (task_word False False 0 w) w"
    using i(7) unfolding seen_wakes_def by (intro exI [of _ w]) auto
  ultimately have "step_safe (run_begin t) hs"
    using i owned [of hs ?l p c w "tk_core t"] by (auto intro!: step_safeI [of _ p c r w])
  moreover have "step_safe (Some (t, [RunCancel])) hs" "step_safe (Some (t, [Runnable])) hs"
    using i owned [of hs RunCancel p c w "tk_core t"] owned [of hs Runnable p c w "tk_core t"]
    by (auto intro!: step_safeI [of _ p c r w])
  ultimately show ?thesis by (cases ch) (simp_all add: runnable_step_def)
qed

lemma run_loop_safe:
  assumes "task_inv t (add_mset (RunLoop state kw) hs)" "counts_fit t"
  shows "step_safe (run_loop state kw t) hs"
proof -
  obtain p c r w where i: "\<not> tk_freed t" "tk_state t = task_word p c r w" "r = refs hs" "r < 2 ^ 30" "w < 2 ^ 30"
      "owners hs = 0" "owner_ok p c r w (tk_core t) (RunLoop state kw)"
    by (rule task_inv_owned [OF assms]) simp_all
  show ?thesis
    using i owned [of hs RunCancel p c w "tk_core t"] owned [of hs "RunPoll kw" p c w "tk_core t"]
    by (auto simp: run_loop_def intro!: step_safeI [of _ p c r w])
qed

lemma run_polled_safe:
  assumes "task_inv t (add_mset (RunPoll kw) hs)" "counts_fit t"
  shows "step_safe (run_polled kw outcome t) hs"
proof -
  obtain p c r w where i: "\<not> tk_freed t" "tk_state t = task_word p c r w" "r = refs hs" "r < 2 ^ 30" "w < 2 ^ 30"
      "owners hs = 0" "owner_ok p c r w (tk_core t) (RunPoll kw)"
    by (rule task_inv_owned [OF assms]) simp_all
  then have "0 < w" by (auto dest: seen_wakes_pos)
  with i show ?thesis
    using owned [of hs RunCancel p c w "tk_core t"] owned [of hs "RunPending kw" p c w "tk_core t"]
      owned [of hs "RunReady u" p c w "tk_core t" for u]
    by (cases outcome) (auto simp: run_polled_def intro!: step_safeI [of _ p c r w])
qed

text \<open>A runnable whose future is pending ends only if nobody has woken the task since it read the wake count.\<close>

lemma run_pending_eq:
  assumes "\<not> tk_freed t" "tk_state t = task_word True c r w" "r < count_limit" "w < count_limit"
    and "kw = task_word False False 0 k" "k \<le> w"
  shows "run_pending kw t =
    (let t' = t\<lparr>tk_state := task_word True c r (w - k)\<rparr> in
     if w = k \<and> \<not> c then if r = 0 then Some (t', [FreeFuture]) else Some (t', [])
     else Some (t', [RunLoop (task_word True c r w) (task_word False False 0 (w - k))]))"
proof -
  have kl: "k < count_limit" using assms(4,6) by simp
  have "unat kw = 2 ^ 33 * k" "unat (task_word True c r w) = 1 + 2 * of_bool c + 4 * r + 2 ^ 33 * w"
    using assms(3,4) kl unfolding assms(5) by (simp_all add: task_word_sum unat_of_nat del: of_nat_add of_nat_mult of_nat_Suc)
  with assms(6) have "kw < task_word True c r w" by (simp add: word_less_nat_alt)
  moreover have "task_word False False 0 w - task_word False False 0 k = task_word False False 0 (w - k)"
    using assms(4,6) by simp
  ultimately show ?thesis
    using assms kl by (auto simp: run_pending_def fetch_update_def Let_def)
qed

lemma run_pending_safe:
  assumes "task_inv t (add_mset (RunPending kw) hs)" "counts_fit t"
  shows "step_safe (run_pending kw t) hs"
proof -
  obtain p c r w where i: "\<not> tk_freed t" "tk_state t = task_word p c r w" "r = refs hs" "r < 2 ^ 30" "w < 2 ^ 30"
      "owners hs = 0" "owner_ok p c r w (tk_core t) (RunPending kw)"
    by (rule task_inv_owned [OF assms]) simp_all
  obtain k where k: "kw = task_word False False 0 k" "0 < k" "k \<le> w" using i(7) by (auto simp: seen_wakes_def)
  have p: "p" using i(7) by simp
  let ?t = "t\<lparr>tk_state := task_word p c r (w - k)\<rparr>"
  have s: "run_pending kw t =
      (if w = k \<and> \<not> c then if r = 0 then Some (?t, [FreeFuture]) else Some (?t, [])
       else Some (?t, [RunLoop (task_word p c r w) (task_word False False 0 (w - k))]))"
    using run_pending_eq [of t c r w kw k] i k by (simp add: Let_def)
  have "seen_wakes (\<not> c) (task_word False False 0 (w - k)) (w - k)" if "\<not> (w = k \<and> \<not> c)"
    using that k(3) unfolding seen_wakes_def by (intro exI [of _ "w - k"]) auto
  with i k show ?thesis
    unfolding s
    using owned [of hs FreeFuture p c "w - k" CoreFuture] unowned [of hs p c "w - k" CoreFuture]
      owned [of hs "RunLoop (task_word p c r w) (task_word False False 0 (w - k))" p c "w - k" CoreFuture]
    by (auto intro!: step_safeI [of _ p c r "w - k"] simp: idle_ok_def)
qed

lemma run_ready_safe:
  assumes "task_inv t (add_mset (RunReady u) hs)" "counts_fit t"
  shows "step_safe (run_ready u panics t) hs"
proof -
  obtain p c r w where i: "\<not> tk_freed t" "tk_state t = task_word p c r w" "r = refs hs" "r < 2 ^ 30" "w < 2 ^ 30"
      "owners hs = 0" "owner_ok p c r w (tk_core t) (RunReady u)"
    by (rule task_inv_owned [OF assms]) simp_all
  then show ?thesis
    using owned [of hs RunClose p c w CoreDropped] owned [of hs RunPublish p c w "CoreOutput u"]
    by (auto simp: run_ready_def drop_future_def intro!: step_safeI [of _ p c r w])
qed

lemma run_publish_safe:
  assumes "task_inv t (add_mset RunPublish hs)" "counts_fit t"
  shows "step_safe (run_publish t) hs"
proof -
  obtain p c r w where i: "\<not> tk_freed t" "tk_state t = task_word p c r w" "r = refs hs" "r < 2 ^ 30" "w < 2 ^ 30"
      "owners hs = 0" "owner_ok p c r w (tk_core t) RunPublish"
    by (rule task_inv_owned [OF assms]) simp_all
  show ?thesis
  proof (cases "c \<or> r = 0")
    case True
    then have s: "run_publish t = Some (t, [RunDropOutput])"
      using i by (auto simp: run_publish_def fetch_update_def)
    show ?thesis
      unfolding s using i True owned [of hs RunDropOutput p c w "tk_core t"] by (intro step_safeI [of _ p c r w]) auto
  next
    case False
    then have s: "run_publish t = Some (t\<lparr>tk_state := task_word False c r w\<rparr>, [])"
      using i by (auto simp: run_publish_def fetch_update_def)
    show ?thesis
      unfolding s using i False unowned [of hs False c w "tk_core t"]
      by (intro step_safeI [of _ False c r w]) (auto simp: idle_ok_def)
  qed
qed

lemma run_drop_output_safe:
  assumes "task_inv t (add_mset RunDropOutput hs)" "counts_fit t"
  shows "step_safe (run_drop_output panics t) hs"
proof -
  obtain p c r w where i: "\<not> tk_freed t" "tk_state t = task_word p c r w" "r = refs hs" "r < 2 ^ 30" "w < 2 ^ 30"
      "owners hs = 0" "owner_ok p c r w (tk_core t) RunDropOutput"
    by (rule task_inv_owned [OF assms]) simp_all
  then show ?thesis
    using owned [of hs RunClose p c w CoreDropped] owned [of hs RunFinish p c w CoreDropped]
    by (auto simp: run_drop_output_def drop_output_def take_output_def intro!: step_safeI [of _ p c r w])
qed

lemma run_finish_safe:
  assumes "task_inv t (add_mset RunFinish hs)" "counts_fit t"
  shows "step_safe (run_finish t) hs"
proof -
  obtain p c r w where i: "\<not> tk_freed t" "tk_state t = task_word p c r w" "r = refs hs" "r < 2 ^ 30" "w < 2 ^ 30"
      "owners hs = 0" "owner_ok p c r w (tk_core t) RunFinish"
    by (rule task_inv_owned [OF assms]) simp_all
  then have s: "run_finish t = Some (t\<lparr>tk_state := task_word False c r w\<rparr>, if r = 0 then [Dealloc] else [])"
    by (auto simp: run_finish_def fetch_update_def)
  show ?thesis
    unfolding s using i owned [of hs Dealloc False c w CoreDropped] unowned [of hs False c w CoreDropped]
    by (intro step_safeI [of _ False c r w]) (auto simp: idle_ok_def)
qed

lemma run_cancel_safe:
  assumes "task_inv t (add_mset RunCancel hs)" "counts_fit t"
  shows "step_safe (run_cancel t) hs"
proof -
  obtain p c r w where i: "\<not> tk_freed t" "tk_state t = task_word p c r w" "r = refs hs" "r < 2 ^ 30" "w < 2 ^ 30"
      "owners hs = 0" "owner_ok p c r w (tk_core t) RunCancel"
    by (rule task_inv_owned [OF assms]) simp_all
  then show ?thesis
    using owned [of hs RunClose p c w CoreDropped]
    by (auto simp: run_cancel_def drop_future_def intro!: step_safeI [of _ p c r w])
qed

lemma run_close_safe:
  assumes "task_inv t (add_mset RunClose hs)" "counts_fit t"
  shows "step_safe (run_close t) hs"
proof -
  obtain p c r w where i: "\<not> tk_freed t" "tk_state t = task_word p c r w" "r = refs hs" "r < 2 ^ 30" "w < 2 ^ 30"
      "owners hs = 0" "owner_ok p c r w (tk_core t) RunClose"
    by (rule task_inv_owned [OF assms]) simp_all
  then have s: "run_close t = Some (t\<lparr>tk_state := task_word False True r w\<rparr>, if r = 0 then [Dealloc] else [])"
    by (auto simp: run_close_def fetch_update_def)
  show ?thesis
    unfolding s using i owned [of hs Dealloc False True w CoreDropped] unowned [of hs False True w CoreDropped]
    by (intro step_safeI [of _ False True r w]) (auto simp: idle_ok_def)
qed

lemma free_core_safe:
  assumes "task_inv t (add_mset (FreeCore state) hs)" "counts_fit t"
  shows "step_safe (free_core state t) hs"
proof -
  obtain p c r w where i: "\<not> tk_freed t" "tk_state t = task_word p c r w" "r = refs hs" "r < 2 ^ 30" "w < 2 ^ 30"
      "owners hs = 0" "owner_ok p c r w (tk_core t) (FreeCore state)"
    by (rule task_inv_owned [OF assms]) simp_all
  then have s: "free_core state t = Some (t\<lparr>tk_core := CoreDropped\<rparr>, [Dealloc])"
    by (cases t) (auto simp: free_core_def drop_future_def drop_output_def take_output_def split: if_splits)
  show ?thesis
    unfolding s using i owned [of hs Dealloc p c w CoreDropped] by (intro step_safeI [of _ p c r w]) auto
qed

lemma free_output_safe:
  assumes "task_inv t (add_mset (FreeOutput state) hs)" "counts_fit t"
  shows "step_safe (free_output state t) hs"
proof -
  obtain p c r w where i: "\<not> tk_freed t" "tk_state t = task_word p c r w" "r = refs hs" "r < 2 ^ 30" "w < 2 ^ 30"
      "owners hs = 0" "owner_ok p c r w (tk_core t) (FreeOutput state)"
    by (rule task_inv_owned [OF assms]) simp_all
  then have s: "free_output state t = Some (t\<lparr>tk_core := CoreDropped\<rparr>, [Dealloc])"
    by (cases t) (auto simp: free_output_def drop_output_def take_output_def split: if_splits)
  show ?thesis
    unfolding s using i owned [of hs Dealloc p c w CoreDropped] by (intro step_safeI [of _ p c r w]) auto
qed

lemma free_future_safe:
  assumes "task_inv t (add_mset FreeFuture hs)" "counts_fit t"
  shows "step_safe (free_future t) hs"
proof -
  obtain p c r w where i: "\<not> tk_freed t" "tk_state t = task_word p c r w" "r = refs hs" "r < 2 ^ 30" "w < 2 ^ 30"
      "owners hs = 0" "owner_ok p c r w (tk_core t) FreeFuture"
    by (rule task_inv_owned [OF assms]) simp_all
  then show ?thesis
    using owned [of hs Dealloc p c w CoreDropped]
    by (auto simp: free_future_def drop_future_def intro!: step_safeI [of _ p c r w])
qed

lemma dealloc_safe:
  assumes "task_inv t (add_mset Dealloc hs)" "counts_fit t"
  shows "step_safe (do { t \<leftarrow> dealloc t; Some (t, []) }) hs"
proof -
  obtain p c r w where i: "\<not> tk_freed t" "tk_state t = task_word p c r w" "r = refs hs" "r < 2 ^ 30" "w < 2 ^ 30"
      "owners hs = 0" "owner_ok p c r w (tk_core t) Dealloc"
    by (rule task_inv_owned [OF assms]) simp_all
  have "h \<notin># hs" for h
  proof
    assume h: "h \<in># hs"
    then have "owner_of h = 0" "ref_of h = 0"
      using i(3,6,7) refs_member [OF h] by (auto simp: owners_def)
    then show False by (cases h) auto
  qed
  then have "hs = {#}" by (cases hs) auto
  with i show ?thesis by (auto simp: dealloc_def step_safe_def task_inv_def)
qed

lemma stutter_safe: "task_inv t (add_mset h hs) \<Longrightarrow> step_safe (Some (t, [h])) hs"
  by (simp add: step_safe_def)

lemma handle_step_safe:
  assumes "task_inv t (add_mset h hs)" "counts_fit t"
  shows "step_safe (handle_step ch h t) hs"
proof (cases h)
  case Waker
  with assms show ?thesis
    by (cases ch) (simp_all add: waker_step_def clone_waker_safe wake_by_ref_safe wake_by_val_safe drop_waker_safe stutter_safe)
next
  case Promise
  with assms show ?thesis
    by (cases ch) (simp_all add: promise_step_def drops_like_waker promise_poll_safe drop_waker_safe stutter_safe)
next
  case CancelToken
  with assms show ?thesis
    by (cases ch) (simp_all add: token_step_def drops_like_waker token_cancel_safe drop_waker_safe stutter_safe)
next
  case (RunPoll kw)
  with assms show ?thesis
    by (cases ch) (simp_all add: polling_step_def clone_lent_waker_safe wake_lent_waker_safe run_polled_safe stutter_safe)
qed (use assms in \<open>simp_all add: runnable_step_safe wake_schedule_safe promise_take_safe cancel_drop_safe cancel_release_safe
    run_loop_safe run_pending_safe run_ready_safe run_publish_safe run_drop_output_safe run_finish_safe run_cancel_safe
    run_close_safe free_core_safe free_output_safe free_future_safe dealloc_safe\<close>)

lemma spawn_word:
  "2 * REF_INC OR WAKE_INC OR POLLING = task_word True False 2 1" "REF_INC OR WAKE_INC OR POLLING = task_word True False 1 1"
  by (simp_all add: task_word_def REF_INC_def WAKE_INC_def POLLING_def)

lemma task_reach_inv: "task_reach (t, hs) \<Longrightarrow> task_inv t hs"
proof (induction "(t, hs)" arbitrary: t hs rule: task_reach.induct)
  case start
  then show ?case
    by (auto intro!: task_invI [of _ True False _ 1] simp: spawn_def spawn_word handles_ok_def)
next
  case start_forget
  then show ?case
    by (auto intro!: task_invI [of _ True False _ 1] simp: spawn_and_forget_def spawn_word handles_ok_def)
next
  case (step t h hs ch t' new)
  then show ?case using handle_step_safe [of t h hs ch] by (auto simp: step_safe_def)
qed

subsection \<open>Properties\<close>

lemma fit_word: "r < 2 ^ 30 \<Longrightarrow> w < 2 ^ 30 \<Longrightarrow> tk_state t = task_word p c r w \<Longrightarrow> counts_fit t"
  by (simp add: counts_fit_def)

text \<open>C4: Memory safety of tasks. Whatever the owners of the wakers, of the promise, of the cancel token and of the runnable
  do, in whatever interleaving, no operation touches a task that was deallocated, drops or takes a future or an
  output that is not there, or fails an assertion; and at any time at most one operation has access to the
  future or output.\<close>

theorem task_memory_safe:
  assumes "task_reach (t, hs)" "counts_fit t" "h \<in># hs"
  shows "handle_step ch h t \<noteq> None \<and> owners hs \<le> 1"
proof -
  obtain hs' where hs: "hs = add_mset h hs'" using assms(3) by (metis multi_member_split)
  have i: "task_inv t (add_mset h hs')" using task_reach_inv [OF assms(1)] hs by simp
  moreover have "\<not> tk_freed t" using i by (auto simp: task_inv_def)
  ultimately have "owners hs \<le> 1" by (auto simp: hs task_inv_def handles_ok_def)
  with handle_step_safe [OF i assms(2), of ch] show ?thesis by (auto simp: step_safe_def)
qed

theorem task_memory_safe_witness:
  "handle_step ChRun Runnable (fst (spawn :: nat task \<times> nat handle multiset)) \<noteq> None"
proof -
  have "counts_fit (fst (spawn :: nat task \<times> nat handle multiset))"
    by (rule fit_word [of 2 1 _ True False]) (simp_all add: spawn_def spawn_word)
  from task_memory_safe [OF _ this, of "snd spawn" Runnable ChRun] show ?thesis
    by (simp add: start) (simp add: spawn_def)
qed

text \<open>C19: No leak. A task is deallocated exactly when its last handle is gone, and then its future and
  its output have been dropped or moved out.\<close>

theorem task_freed_with_last_handle:
  assumes "task_reach (t, hs)"
  shows "tk_freed t = (hs = {#}) \<and> (tk_freed t \<longrightarrow> tk_core t = CoreDropped)"
proof (cases "tk_freed t")
  case True
  with task_reach_inv [OF assms] show ?thesis by (simp add: task_inv_def)
next
  case False
  with task_reach_inv [OF assms] have "0 < refs hs + owners hs" by (auto simp: task_inv_def handles_ok_def)
  with False show ?thesis by auto
qed

theorem task_freed_with_last_handle_witness:
  "\<exists>t :: nat task. task_reach (t, {#}) \<and> tk_freed t \<and> tk_core t = CoreDropped"
proof -
  let ?t = "\<lambda>p c r. \<lparr>tk_state = task_word p c r 1, tk_core = CoreFuture, tk_freed = False\<rparr> :: nat task"
  let ?d = "\<lambda>p c f. \<lparr>tk_state = task_word p c 0 1, tk_core = CoreDropped, tk_freed = f\<rparr> :: nat task"
  have fit: "counts_fit (?t p c r)" "counts_fit (?d p c f)" if "r \<le> 1" for p c r f
    using that by (auto intro!: fit_word)
  have 0: "task_reach (?t True False 1, add_mset CancelToken {#Runnable#})"
    using start_forget by (simp add: spawn_and_forget_def spawn_word add_mset_commute)
  have 1: "task_reach (?t True False 0, add_mset Runnable {#})"
    using task_reach.step [OF 0 fit(1), of ChDrop "?t True False 0" "[]"]
    by (simp add: token_step_def token_drop_def fetch_update_def)
  have 2: "task_reach (?t True False 0, add_mset RunCancel {#})"
    using task_reach.step [OF 1 fit(1), of ChDrop "?t True False 0" "[RunCancel]"] by (simp add: runnable_step_def)
  have 3: "task_reach (?d True False False, add_mset RunClose {#})"
    using task_reach.step [OF 2 fit(1), of ChGo "?d True False False" "[RunClose]"] by (simp add: run_cancel_def drop_future_def)
  have 4: "task_reach (?d False True False, add_mset Dealloc {#})"
    using task_reach.step [OF 3 fit(2), of 0 ChGo "?d False True False" "[Dealloc]"] by (simp add: run_close_def fetch_update_def)
  have 5: "task_reach (?d False True True, {#})"
    using task_reach.step [OF 4 fit(2), of 0 ChGo "?d False True True" "[]"] by (simp add: dealloc_def)
  from task_freed_with_last_handle [OF 5] 5 show ?thesis by blast
qed

text \<open>The handles that are going to look at a task because it was woken.\<close>

fun runner :: "'u handle \<Rightarrow> bool" where
  "runner Waker = False"
| "runner Promise = False"
| "runner CancelToken = False"
| "runner PromiseTake = False"
| "runner CancelDrop = False"
| "runner CancelRelease = False"
| "runner (FreeCore _) = False"
| "runner (FreeOutput _) = False"
| "runner FreeFuture = False"
| "runner Dealloc = False"
| "runner _ = True"

text \<open>C20: No lost wake-up. After a task in its polling phase is woken, by reference or by value, a runnable exists;
  and if that runnable is already polling the future, it will not end when the poll is over but poll
  again.\<close>

theorem wake_is_not_lost:
  assumes "task_reach (t, add_mset Waker hs)" "counts_fit t" "ch = ChWakeRef \<or> ch = ChWakeVal False"
    and "handle_step ch Waker t = Some (t', new)" "tk_state t' AND POLLING = POLLING" "tk_state t' AND CLOSED = 0"
  shows "\<exists>h \<in># mset new + hs. runner h \<and>
    (\<forall>kw. h = RunPoll kw \<or> h = RunPending kw \<longrightarrow> (\<exists>t2 s k. run_pending kw t' = Some (t2, [RunLoop s k])))"
proof -
  obtain p c r w where i: "\<not> tk_freed t" "tk_state t = task_word p c r w" "r = 1 + refs hs" "r < 2 ^ 30" "w < 2 ^ 30"
      "handles_ok p c r w (tk_core t) (add_mset Waker hs)"
    by (rule task_inv_shared [OF task_reach_inv [OF assms(1)] assms(2)]) simp
  obtain r' where t': "t' = t\<lparr>tk_state := task_word p c r' (w + 1)\<rparr>" "r' < count_limit"
      and new: "p \<and> \<not> c \<and> w = 0 \<Longrightarrow> WakeSchedule \<in> set new"
    using assms(3,4) i(1-5)
    by (elim disjE) (auto simp: waker_step_def wake_by_ref_def wake_by_val_def fetch_update_def split: if_splits)
  have pc: "p" "\<not> c" using assms(5,6) t' i(5) by simp_all
  show ?thesis
  proof (cases "w = 0")
    case True
    with new pc show ?thesis by (intro bexI [of _ WakeSchedule]) auto
  next
    case False
    then have "owners hs = 1" using runnable_owned [OF i(6)] pc by simp
    then obtain h where h: "h \<in># hs" "owner_of h = 1" using owners_pos [of hs] by auto
    have ok: "owner_ok p c r w (tk_core t) h" using handles_ok_shared(3) [OF i(6) _ h(1)] by simp
    have "runner h" using ok h(2) pc i(3) by (cases h) auto
    moreover have "\<exists>t2 s k. run_pending kw t' = Some (t2, [RunLoop s k])" if hk: "h = RunPoll kw \<or> h = RunPending kw" for kw
    proof -
      obtain k where "kw = task_word False False 0 k" "k \<le> w" using ok hk by (auto simp: seen_wakes_def)
      then show ?thesis
        using run_pending_eq [of t' c r' "w + 1" kw k] t' i(1,5) pc by (simp add: Let_def)
    qed
    ultimately show ?thesis using h(1) by auto
  qed
qed

theorem wake_is_not_lost_witness:
  "\<exists>(t :: nat task) hs t' h. task_reach (t, add_mset Waker (add_mset (RunPoll WAKE_INC) hs)) \<and>
     handle_step ChWakeRef Waker t = Some (t', [Waker]) \<and> h \<in># mset [Waker] + add_mset (RunPoll WAKE_INC) hs \<and> runner h \<and>
     (\<exists>t2 s k. run_pending WAKE_INC t' = Some (t2, [RunLoop s k]))"
proof -
  let ?t = "\<lambda>r w. \<lparr>tk_state = task_word True False r w, tk_core = CoreFuture, tk_freed = False\<rparr> :: nat task"
  let ?kw = "task_word False False 0 1"
  have fit: "counts_fit (?t r w)" if "r \<le> 2" "w \<le> 2" for r w
    using that by (auto intro!: fit_word)
  have 0: "task_reach (?t 1 1, add_mset Runnable {#CancelToken#})"
    using start_forget by (simp add: spawn_and_forget_def spawn_word)
  have 1: "task_reach (?t 1 1, add_mset (RunLoop (task_word True False 1 1) ?kw) {#CancelToken#})"
    using task_reach.step [OF 0 fit, of ChRun "?t 1 1" "[RunLoop (task_word True False 1 1) ?kw]"]
    by (simp add: runnable_step_def run_begin_def fetch_update_def add_mset_commute)
  have 2: "task_reach (?t 1 1, add_mset (RunPoll ?kw) {#CancelToken#})"
    using task_reach.step [OF 1 fit, of ChGo "?t 1 1" "[RunPoll ?kw]"] by (simp add: run_loop_def add_mset_commute)
  have 3: "task_reach (?t 2 1, add_mset Waker (add_mset (RunPoll ?kw) {#CancelToken#}))"
    using task_reach.step [OF 2 fit, of ChClone "?t 2 1" "[RunPoll ?kw, Waker]"]
    by (simp add: polling_step_def clone_waker_def fetch_update_def add_mset_commute numeral_2_eq_2 [symmetric])
  have 4: "handle_step ChWakeRef Waker (?t 2 1) = Some (?t 2 2, [Waker])"
    by (simp add: waker_step_def wake_by_ref_def fetch_update_def numeral_2_eq_2 [symmetric])
  have "\<exists>t2 s k. run_pending ?kw (?t 2 2) = Some (t2, [RunLoop s k])"
    using wake_is_not_lost [OF 3 fit _ 4] by auto
  with 3 4 show ?thesis
    unfolding task_word_consts(5)
    by (intro exI [of _ "?t 2 1"] exI [of _ "{#CancelToken#}"] exI [of _ "?t 2 2"] exI [of _ "RunPoll ?kw"]) auto
qed

end
