(* ===== verification/Task_Set.thy ===== *)
theory Task_Set
  imports Prelude
begin

unbundle bit_operations_syntax

text \<open>
  Model of the set of sub-tasks of a broadcast, \<^verbatim>\<open>src/nexosim/src/util/task_set.rs\<close>: a lock-free stack
  of the tasks that were woken, linked through the indices of the tasks, whose head also holds a countdown
  of the wakes until the parent task is notified.

  The state is the link of each task, the head, the number of active tasks and how often the parent was
  notified. The operations are sequences of atomic accesses, one step each: \<open>wake_step\<close> for the
  wakers of the tasks, which any number of threads may use, and \<open>owner_step\<close> for the owner of the set.
  \<open>ts_step\<close> interleaves them, sequentially consistent.
\<close>

subsection \<open>The set\<close>

definition SLEEPING :: "32 word" where
  "SLEEPING = - 1"

definition EMPTY :: "32 word" where
  "EMPTY = - 1 - 1"

definition INDEX_MASK :: "64 word" where
  "INDEX_MASK = ucast (- 1 :: 32 word)"

definition COUNTDOWN_MASK :: "64 word" where
  "COUNTDOWN_MASK = NOT INDEX_MASK"

definition COUNTDOWN_ONE :: "64 word" where
  "COUNTDOWN_ONE = push_bit 32 1"

text \<open>The index of a task is its position in the vector of tasks.\<close>

record task_set =
  ts_next :: "32 word list"
  ts_head :: "64 word"
  ts_task_count :: nat
  ts_notifications :: nat

definition ts_new :: task_set where
  "ts_new = \<lparr>ts_next = [], ts_head = ucast EMPTY, ts_task_count = 0, ts_notifications = 0\<rparr>"

definition ts_with_len :: "nat \<Rightarrow> task_set exec" where
  "ts_with_len len =
     (if len \<le> unat EMPTY \<and> len \<le> unat SLEEPING
      then Some \<lparr>ts_next = replicate len SLEEPING, ts_head = ucast EMPTY, ts_task_count = len, ts_notifications = 0\<rparr>
      else None)"

definition ts_resize :: "nat \<Rightarrow> task_set \<Rightarrow> task_set exec" where
  "ts_resize len ts =
     (if len \<le> unat EMPTY \<and> len \<le> unat SLEEPING
      then Some (ts\<lparr>ts_task_count := len, ts_next := ts_next ts @ replicate (len - length (ts_next ts)) SLEEPING\<rparr>)
      else None)"

definition has_scheduled :: "task_set \<Rightarrow> bool" where
  "has_scheduled ts \<longleftrightarrow> ts_head ts AND INDEX_MASK \<noteq> ucast EMPTY"

definition waker_of :: "nat \<Rightarrow> task_set \<Rightarrow> nat exec" where
  "waker_of idx ts = (if idx < ts_task_count ts \<and> idx < length (ts_next ts) then Some idx else None)"

subsection \<open>Waking a task\<close>

text \<open>\<open>WakeLoop\<close>: about to look at the value that was read of \<open>next\<close>. \<open>WakeLink\<close>: about to link the task to the head that
  was read. \<open>WakePush\<close>: linked, about to move the head. \<open>WakeRelink\<close>: about to link to another
  head. The flag \<open>weak\<close> makes a weak compare-exchange fail.\<close>

datatype wake_pc = WakeStart | WakeLoop "32 word" | WakeLink "64 word" | WakePush "64 word" | WakeRelink "64 word" | WakeNotify | WakeDone

definition pushed_head :: "nat \<Rightarrow> 64 word \<Rightarrow> 64 word" where
  "pushed_head idx head =
     (let countdown = head AND COUNTDOWN_MASK;
          new_countdown = countdown - of_bool (countdown \<noteq> 0) * COUNTDOWN_ONE
      in new_countdown OR word_of_nat idx)"

fun wake_step :: "bool \<Rightarrow> nat \<Rightarrow> wake_pc \<Rightarrow> task_set \<Rightarrow> (wake_pc \<times> task_set) exec" where
  "wake_step weak idx WakeStart ts = do { next \<leftarrow> vec_get (ts_next ts) idx; Some (WakeLoop next, ts) }"
| "wake_step weak idx (WakeLoop next) ts =
     (if next = SLEEPING then Some (WakeLink (ts_head ts), ts)
      else do {
        n \<leftarrow> vec_get (ts_next ts) idx;
        if n = next \<and> \<not> weak then Some (WakeDone, ts) else Some (WakeLoop n, ts)
      })"
| "wake_step weak idx (WakeLink head) ts = do {
     n \<leftarrow> vec_get (ts_next ts) idx;
     if n = SLEEPING \<and> \<not> weak
     then Some (WakePush head, ts\<lparr>ts_next := (ts_next ts)[idx := ucast (head AND INDEX_MASK)]\<rparr>)
     else Some (WakeLoop n, ts)
   }"
| "wake_step weak idx (WakePush head) ts =
     (if ts_head ts = head \<and> \<not> weak
      then Some (if head AND COUNTDOWN_MASK = COUNTDOWN_ONE then WakeNotify else WakeDone, ts\<lparr>ts_head := pushed_head idx head\<rparr>)
      else Some (WakeRelink (ts_head ts), ts))"
| "wake_step weak idx (WakeRelink head) ts = do {
     next \<leftarrow> vec_set (ts_next ts) idx (ucast (head AND INDEX_MASK));
     Some (WakePush head, ts\<lparr>ts_next := next\<rparr>)
   }"
| "wake_step weak idx WakeNotify ts = Some (WakeDone, ts\<lparr>ts_notifications := ts_notifications ts + 1\<rparr>)"
| "wake_step weak idx WakeDone ts = None"

subsection \<open>The owner\<close>

text \<open>The owner takes all scheduled tasks by moving the head, and then follows the links. \<open>OwIter\<close>: holds an
  iterator. \<open>OwDrop\<close>, \<open>OwDropStore\<close>: dropping an iterator. The first argument of \<open>OwTake\<close> tells a call by
  \<open>discard_scheduled\<close>.\<close>

datatype owner_pc =
    OwIdle
  | OwTake bool "32 word" "64 word"
  | OwIter "32 word"
  | OwDrop "32 word" | OwDropStore "32 word" "32 word"

definition take_scheduled :: "nat \<Rightarrow> task_set \<Rightarrow> (owner_pc \<times> task_set) exec" where
  "take_scheduled notify_count ts =
     (if notify_count < 2 ^ 32 then Some (OwTake False (word_of_nat notify_count) (ts_head ts), ts) else None)"

definition discard_scheduled :: "task_set \<Rightarrow> (owner_pc \<times> task_set) exec" where
  "discard_scheduled ts =
     (if ts_head ts \<noteq> ucast EMPTY then Some (OwTake True 0 (ts_head ts), ts) else Some (OwIdle, ts))"

definition taken_head :: "32 word \<Rightarrow> 64 word \<Rightarrow> 64 word" where
  "taken_head countdown head =
     (if head AND INDEX_MASK = ucast EMPTY then (ucast countdown * COUNTDOWN_ONE) OR ucast EMPTY else ucast EMPTY)"

definition take_cas :: "bool \<Rightarrow> bool \<Rightarrow> 32 word \<Rightarrow> 64 word \<Rightarrow> task_set \<Rightarrow> (owner_pc \<times> task_set) exec" where
  "take_cas weak discard countdown head ts =
     (if ts_head ts = head \<and> \<not> weak
      then (let index = ucast (head AND INDEX_MASK) :: 32 word in
        Some (if index = EMPTY then OwIdle else if discard then OwDrop index else OwIter index,
          ts\<lparr>ts_head := taken_head countdown head\<rparr>))
      else Some (OwTake discard countdown (ts_head ts), ts))"

text \<open>One round of the loop of the iterator: the task that is yielded, if it is active.\<close>

definition iter_next :: "32 word \<Rightarrow> task_set \<Rightarrow> (nat option \<times> owner_pc \<times> task_set) exec" where
  "iter_next next_index ts =
     (if next_index = EMPTY then Some (None, OwIdle, ts)
      else do {
        let index = unat next_index;
        next_index \<leftarrow> vec_get (ts_next ts) index;
        Some (if index < ts_task_count ts then Some index else None, OwIter next_index,
          ts\<lparr>ts_next := (ts_next ts)[index := SLEEPING]\<rparr>)
      })"

definition iter_drop :: "32 word \<Rightarrow> task_set \<Rightarrow> (owner_pc \<times> task_set) exec" where
  "iter_drop next_index ts =
     (if next_index = EMPTY then Some (OwIdle, ts)
      else do { next \<leftarrow> vec_get (ts_next ts) (unat next_index); Some (OwDropStore next_index next, ts) })"

definition iter_drop_store :: "32 word \<Rightarrow> 32 word \<Rightarrow> task_set \<Rightarrow> (owner_pc \<times> task_set) exec" where
  "iter_drop_store index next_index ts = do {
     next \<leftarrow> vec_set (ts_next ts) (unat index) SLEEPING;
     Some (OwDrop next_index, ts\<lparr>ts_next := next\<rparr>)
   }"

subsection \<open>Interleaving\<close>

text \<open>\<open>sy_armed\<close> is the notification count that was requested by the last \<open>take_scheduled\<close>, if it found no scheduled task,
  and \<open>sy_base\<close> the number of notifications at that time; \<open>sy_yielded\<close> are the tasks that iterators
  have yielded.\<close>

record task_sys =
  sy_set :: task_set
  sy_wake :: "nat \<Rightarrow> nat \<times> wake_pc"
  sy_owner :: owner_pc
  sy_armed :: nat
  sy_base :: nat
  sy_yielded :: "nat list"

definition ts_init :: "task_set \<Rightarrow> task_sys" where
  "ts_init ts = \<lparr>sy_set = ts, sy_wake = (\<lambda>_. (0, WakeDone)), sy_owner = OwIdle, sy_armed = 0, sy_base = 0, sy_yielded = []\<rparr>"

inductive ts_step :: "task_sys \<Rightarrow> task_sys \<Rightarrow> bool" where
  call: "snd (sy_wake s k) = WakeDone \<Longrightarrow> i < length (ts_next (sy_set s)) \<Longrightarrow>
    ts_step s (s\<lparr>sy_wake := (sy_wake s)(k := (i, WakeStart))\<rparr>)"
| wake: "sy_wake s k = (i, pc) \<Longrightarrow> wake_step weak i pc (sy_set s) = Some (pc', ts) \<Longrightarrow>
    ts_step s (s\<lparr>sy_set := ts, sy_wake := (sy_wake s)(k := (i, pc'))\<rparr>)"
| take: "sy_owner s = OwIdle \<Longrightarrow> take_scheduled n (sy_set s) = Some (pc, ts) \<Longrightarrow>
    ts_step s (s\<lparr>sy_set := ts, sy_owner := pc, sy_armed := 0\<rparr>)"
| discard: "sy_owner s = OwIdle \<Longrightarrow> discard_scheduled (sy_set s) = Some (pc, ts) \<Longrightarrow>
    ts_step s (s\<lparr>sy_set := ts, sy_owner := pc, sy_armed := if pc = OwIdle then sy_armed s else 0\<rparr>)"
| cas: "sy_owner s = OwTake d n head \<Longrightarrow> take_cas weak d n head (sy_set s) = Some (pc, ts) \<Longrightarrow>
    ts_step s (s\<lparr>sy_set := ts, sy_owner := pc, sy_armed := if pc = OwIdle then unat n else 0, sy_base := ts_notifications ts\<rparr>)"
| iter: "sy_owner s = OwIter idx \<Longrightarrow> iter_next idx (sy_set s) = Some (y, pc, ts) \<Longrightarrow>
    ts_step s (s\<lparr>sy_set := ts, sy_owner := pc, sy_yielded := sy_yielded s @ (case y of None \<Rightarrow> [] | Some i \<Rightarrow> [i])\<rparr>)"
| drop_iter: "sy_owner s = OwIter idx \<Longrightarrow> ts_step s (s\<lparr>sy_owner := OwDrop idx\<rparr>)"
| drop: "sy_owner s = OwDrop idx \<Longrightarrow> iter_drop idx (sy_set s) = Some (pc, ts) \<Longrightarrow>
    ts_step s (s\<lparr>sy_set := ts, sy_owner := pc\<rparr>)"
| drop_store: "sy_owner s = OwDropStore idx next \<Longrightarrow> iter_drop_store idx next (sy_set s) = Some (pc, ts) \<Longrightarrow>
    ts_step s (s\<lparr>sy_set := ts, sy_owner := pc\<rparr>)"
| resize: "sy_owner s = OwIdle \<Longrightarrow> ts_resize len (sy_set s) = Some ts \<Longrightarrow> ts_step s (s\<lparr>sy_set := ts\<rparr>)"

inductive ts_reach :: "task_sys \<Rightarrow> bool" where
  new: "ts_reach (ts_init ts_new)"
| with_len: "ts_with_len len = Some ts \<Longrightarrow> ts_reach (ts_init ts)"
| step: "ts_reach s \<Longrightarrow> ts_step s s' \<Longrightarrow> ts_reach s'"

subsection \<open>The head\<close>

definition head_word :: "32 word \<Rightarrow> 32 word \<Rightarrow> 64 word" where
  "head_word c i = push_bit 32 (ucast c) OR ucast i"

lemma bit_head_word: "bit (head_word c i) n \<longleftrightarrow> (n < 32 \<and> bit i n) \<or> (32 \<le> n \<and> n < 64 \<and> bit c (n - 32))"
  by (auto simp: head_word_def bit_simps dest: bit_imp_le_length)

lemma bit_head_masks: "bit INDEX_MASK n \<longleftrightarrow> n < 32" "bit COUNTDOWN_MASK n \<longleftrightarrow> 32 \<le> n \<and> n < 64"
  by (auto simp: COUNTDOWN_MASK_def INDEX_MASK_def bit_simps)

lemma bit32: "bit (i :: 32 word) n \<Longrightarrow> n < 32"
  using bit_imp_le_length [of i n] by simp

lemma head_word_index [simp]: "head_word c i AND INDEX_MASK = ucast i" "ucast (head_word c i AND INDEX_MASK) = i"
  by (auto intro!: bit_eqI simp: bit_head_word bit_head_masks bit_simps dest: bit32)

lemma ucast_index [simp]: "(ucast (ucast (i :: 32 word) :: 64 word) :: 32 word) = i"
  by (auto intro!: bit_eqI simp: bit_simps dest: bit32)

lemma head_word_countdown [simp]: "head_word c i AND COUNTDOWN_MASK = head_word c 0"
  by (auto intro!: bit_eqI simp: bit_head_word bit_head_masks bit_simps)

lemma head_word_or [simp]: "head_word c 0 OR ucast i = head_word c i"
  by (simp add: head_word_def)

lemma head_word_inject [simp]: "head_word c i = head_word c' i' \<longleftrightarrow> c = c' \<and> i = i'"
proof
  assume eq: "head_word c i = head_word c' i'"
  then have b: "bit (head_word c i) n = bit (head_word c' i') n" for n by simp
  have "bit c n = bit c' n" for n
    using b [of "n + 32"] by (cases "n < 32") (auto simp: bit_head_word dest: bit_imp_le_length)
  moreover have "bit i n = bit i' n" for n
    using b [of n] by (cases "n < 32") (auto simp: bit_head_word dest: bit_imp_le_length)
  ultimately show "c = c' \<and> i = i'" by (auto intro: bit_eqI)
qed simp

lemma head_word_cases: obtains c i where "h = head_word c i"
proof
  show "h = head_word (ucast (drop_bit 32 h)) (ucast h)"
    by (auto intro!: bit_eqI simp: bit_head_word bit_simps dest: bit_imp_le_length)
qed

lemma head_word_consts: "ucast i = head_word 0 i" "COUNTDOWN_ONE = head_word 1 0" "ucast c * COUNTDOWN_ONE = head_word c 0"
  by (simp_all add: head_word_def COUNTDOWN_ONE_def push_bit_eq_mult)

lemma head_word_zero [simp]: "head_word c 0 = 0 \<longleftrightarrow> c = 0"
  using head_word_inject [of c 0 0 0] by (simp add: head_word_def)

lemma head_word_pred: "head_word c 0 - COUNTDOWN_ONE = head_word (c - 1) 0" if "c \<noteq> 0"
proof -
  have h: "head_word c 0 = word_of_nat (unat c * 2 ^ 32)" for c
    by (simp add: head_word_def push_bit_eq_mult mult.commute)
  have "unat (c - 1) = unat c - 1" "0 < unat c"
    using that unat_minus_one [OF that] by (simp_all add: unat_gt_0)
  then show ?thesis
    by (simp add: h COUNTDOWN_ONE_def of_nat_diff algebra_simps)
qed

lemma pushed_head_word: "i < 2 ^ 32 \<Longrightarrow> pushed_head i (head_word c h) = head_word (if c = 0 then 0 else c - 1) (word_of_nat i)"
proof -
  assume i: "i < 2 ^ 32"
  have "(word_of_nat i :: 64 word) = ucast (word_of_nat i :: 32 word)"
    using i by (simp add: unsigned_of_nat take_bit_nat_eq_self)
  then show ?thesis
    by (simp add: pushed_head_def head_word_pred)
qed

lemma taken_head_word: "taken_head n (head_word c i) = (if i = EMPTY then head_word n EMPTY else head_word 0 EMPTY)"
proof -
  have "(ucast i :: 64 word) = ucast EMPTY \<longleftrightarrow> i = EMPTY"
    unfolding head_word_consts(1) by simp
  then show ?thesis
    by (simp add: taken_head_def head_word_consts(3) head_word_consts(1) [symmetric])
qed

subsection \<open>Lists of tasks\<close>

abbreviation task_limit :: nat where
  "task_limit \<equiv> 2 ^ 32 - 2"

lemma unat_specials [simp]: "unat EMPTY = task_limit" "unat SLEEPING = 2 ^ 32 - 1" "EMPTY \<noteq> SLEEPING"
proof -
  show s: "unat SLEEPING = 2 ^ 32 - 1"
    by (simp add: SLEEPING_def unsigned_minus_1_eq_mask mask_eq_exp_minus_1)
  show "EMPTY \<noteq> SLEEPING" "unat EMPTY = task_limit"
    using s by (simp_all add: EMPTY_def SLEEPING_def unat_minus_one)
qed

lemma index_neq [simp]:
  assumes "i < task_limit"
  shows "word_of_nat i \<noteq> EMPTY" "word_of_nat i \<noteq> SLEEPING" "EMPTY \<noteq> word_of_nat i" "SLEEPING \<noteq> word_of_nat i"
    "unat (word_of_nat i :: 32 word) = i"
proof -
  show u: "unat (word_of_nat i :: 32 word) = i"
    using assms by (simp add: unsigned_of_nat take_bit_nat_eq_self)
  then show "word_of_nat i \<noteq> EMPTY" "word_of_nat i \<noteq> SLEEPING" "EMPTY \<noteq> word_of_nat i" "SLEEPING \<noteq> word_of_nat i"
    using assms by (auto dest: arg_cong [where f = unat])
qed

fun chain :: "32 word list \<Rightarrow> 32 word \<Rightarrow> nat list \<Rightarrow> bool" where
  "chain nx a [] \<longleftrightarrow> a = EMPTY"
| "chain nx a (i # is) \<longleftrightarrow> a = word_of_nat i \<and> i < length nx \<and> chain nx (nx ! i) is"

lemma chain_update [simp]: "i \<notin> set is \<Longrightarrow> chain (nx[i := v]) a is = chain nx a is"
  by (induction "is" arbitrary: a) auto

lemma chain_append: "chain nx a is \<Longrightarrow> chain (nx @ ys) a is"
  by (induction "is" arbitrary: a) (auto simp: nth_append)

lemma chain_not_sleeping: "chain nx a is \<Longrightarrow> length nx \<le> task_limit \<Longrightarrow> a \<noteq> SLEEPING"
  by (cases "is") auto

lemma chain_nil: "chain nx a is \<Longrightarrow> length nx \<le> task_limit \<Longrightarrow> (a = EMPTY) = (is = [])"
  by (cases "is") auto

fun owner_list :: "32 word list \<Rightarrow> owner_pc \<Rightarrow> nat list \<Rightarrow> bool" where
  "owner_list nx (OwIter a) is \<longleftrightarrow> chain nx a is"
| "owner_list nx (OwDrop a) is \<longleftrightarrow> chain nx a is"
| "owner_list nx (OwDropStore a b) is \<longleftrightarrow> is \<noteq> [] \<and> a = word_of_nat (hd is) \<and> hd is < length nx \<and> chain nx b (tl is)"
| "owner_list nx _ is \<longleftrightarrow> is = []"

lemma owner_list_update [simp]: "i \<notin> set is \<Longrightarrow> owner_list (nx[i := v]) pc is = owner_list nx pc is"
  by (cases pc; cases "is") auto

lemma owner_list_append: "owner_list nx pc is \<Longrightarrow> owner_list (nx @ ys) pc is"
  by (cases pc) (auto intro: chain_append)

subsection \<open>Invariant\<close>

fun links :: "wake_pc \<Rightarrow> bool" where
  "links (WakePush _) = True"
| "links (WakeRelink _) = True"
| "links _ = False"

fun seen_head :: "wake_pc \<Rightarrow> 64 word option" where
  "seen_head (WakeLink head) = Some head"
| "seen_head (WakePush head) = Some head"
| "seen_head (WakeRelink head) = Some head"
| "seen_head _ = None"

definition linking :: "(nat \<Rightarrow> nat \<times> wake_pc) \<Rightarrow> nat \<Rightarrow> nat \<Rightarrow> bool" where
  "linking wk k i \<longleftrightarrow> fst (wk k) = i \<and> links (snd (wk k))"

definition notifying :: "(nat \<Rightarrow> nat \<times> wake_pc) \<Rightarrow> bool" where
  "notifying wk \<longleftrightarrow> (\<exists>k. snd (wk k) = WakeNotify)"

definition lists_ok :: "task_set \<Rightarrow> owner_pc \<Rightarrow> nat list \<Rightarrow> nat list \<Rightarrow> bool" where
  "lists_ok ts ow sch det \<longleftrightarrow>
     length (ts_next ts) \<le> task_limit \<and> ts_task_count ts \<le> length (ts_next ts) \<and>
     (\<exists>c h. ts_head ts = head_word c h \<and> chain (ts_next ts) h sch) \<and> owner_list (ts_next ts) ow det \<and>
     distinct (sch @ det)"

definition links_ok :: "32 word list \<Rightarrow> (nat \<Rightarrow> nat \<times> wake_pc) \<Rightarrow> nat set \<Rightarrow> bool" where
  "links_ok nx wk listed \<longleftrightarrow>
     (\<forall>k i. linking wk k i \<longrightarrow> i \<notin> listed) \<and>
     (\<forall>k k' i. linking wk k i \<longrightarrow> linking wk k' i \<longrightarrow> k = k') \<and>
     (\<forall>k i h. wk k = (i, WakePush h) \<longrightarrow> nx ! i = ucast (h AND INDEX_MASK)) \<and>
     (\<forall>k i pc h. wk k = (i, pc) \<longrightarrow> seen_head pc = Some h \<longrightarrow> (ucast (h AND INDEX_MASK) :: 32 word) \<noteq> SLEEPING) \<and>
     (\<forall>k i pc. wk k = (i, pc) \<longrightarrow> pc \<noteq> WakeDone \<longrightarrow> i < length nx) \<and>
     (\<forall>i < length nx. nx ! i \<noteq> SLEEPING \<longleftrightarrow> i \<in> listed \<or> (\<exists>k. linking wk k i))"

definition armed_ok :: "task_sys \<Rightarrow> nat list \<Rightarrow> bool" where
  "armed_ok s sch \<longleftrightarrow> (0 < sy_armed s \<longrightarrow>
     sy_owner s = OwIdle \<and> sy_base s \<le> ts_notifications (sy_set s) \<and> unat (ucast (drop_bit 32 (ts_head (sy_set s))) :: 32 word) = sy_armed s - length sch \<and>
     (sy_armed s \<le> length sch \<longrightarrow>
       sy_base s < ts_notifications (sy_set s) \<or> notifying (sy_wake s)))"

definition ts_inv :: "task_sys \<Rightarrow> nat list \<Rightarrow> nat list \<Rightarrow> bool" where
  "ts_inv s sch det \<longleftrightarrow> lists_ok (sy_set s) (sy_owner s) sch det \<and>
     links_ok (ts_next (sy_set s)) (sy_wake s) (set sch \<union> set det) \<and> armed_ok s sch"

lemma lists_okD:
  assumes "lists_ok ts ow sch det"
  obtains c h where "ts_head ts = head_word c h" "chain (ts_next ts) h sch" "h \<noteq> SLEEPING" "(h = EMPTY) = (sch = [])"
    "owner_list (ts_next ts) ow det" "distinct (sch @ det)" "length (ts_next ts) \<le> task_limit"
  using assms chain_not_sleeping chain_nil unfolding lists_ok_def by blast

lemma links_okI:
  assumes "\<And>k i. linking wk k i \<Longrightarrow> i \<notin> listed" "\<And>k k' i. linking wk k i \<Longrightarrow> linking wk k' i \<Longrightarrow> k = k'"
    "\<And>k i h. wk k = (i, WakePush h) \<Longrightarrow> nx ! i = ucast (h AND INDEX_MASK)"
    "\<And>k i pc h. wk k = (i, pc) \<Longrightarrow> seen_head pc = Some h \<Longrightarrow> (ucast (h AND INDEX_MASK) :: 32 word) \<noteq> SLEEPING"
    "\<And>k i pc. wk k = (i, pc) \<Longrightarrow> pc \<noteq> WakeDone \<Longrightarrow> i < length nx"
    "\<And>i. i < length nx \<Longrightarrow> nx ! i \<noteq> SLEEPING \<longleftrightarrow> i \<in> listed \<or> (\<exists>k. linking wk k i)"
  shows "links_ok nx wk listed"
  using assms unfolding links_ok_def by blast

lemma links_okD:
  assumes "links_ok nx wk listed"
  shows "linking wk k i \<Longrightarrow> i \<notin> listed" "linking wk k i \<Longrightarrow> linking wk k' i \<Longrightarrow> k = k'"
    "wk k = (i, WakePush h) \<Longrightarrow> nx ! i = ucast (h AND INDEX_MASK)"
    "wk k = (i, pc) \<Longrightarrow> seen_head pc = Some h \<Longrightarrow> (ucast (h AND INDEX_MASK) :: 32 word) \<noteq> SLEEPING"
    "wk k = (i, pc) \<Longrightarrow> pc \<noteq> WakeDone \<Longrightarrow> i < length nx"
    "i < length nx \<Longrightarrow> nx ! i \<noteq> SLEEPING \<longleftrightarrow> i \<in> listed \<or> (\<exists>k. linking wk k i)"
  using assms unfolding links_ok_def by blast+

text \<open>A step of a wake call leaves the lists alone until it moves the head.\<close>

lemma links_ok_pc:
  assumes "links_ok nx wk listed" "wk k = (i, pc)" "links pc' = links pc" "\<forall>h. pc' \<noteq> WakePush h" "i < length nx"
    and "\<forall>h. seen_head pc' = Some h \<longrightarrow> (ucast (h AND INDEX_MASK) :: 32 word) \<noteq> SLEEPING"
  shows "links_ok nx (wk(k := (i, pc'))) listed"
proof -
  have "linking (wk(k := (i, pc'))) = linking wk"
    using assms(2,3) by (auto simp: linking_def fun_eq_iff)
  with assms show ?thesis
    unfolding links_ok_def by (auto simp: fun_upd_def split: if_splits)
qed

lemma links_ok_link:
  assumes "links_ok nx wk listed" "wk k = (i, WakeLink h)" "nx ! i = SLEEPING"
  shows "links_ok (nx[i := ucast (h AND INDEX_MASK)]) (wk(k := (i, WakePush h))) listed"
proof -
  let ?wk = "wk(k := (i, WakePush h))" and ?a = "ucast (h AND INDEX_MASK) :: 32 word"
  have i: "i < length nx" and a: "?a \<noteq> SLEEPING"
    using links_okD(4,5) [OF assms(1,2)] by simp_all
  have l: "linking ?wk k' j \<longleftrightarrow> (if k' = k then j = i else linking wk k' j)" for k' j
    by (auto simp: linking_def)
  have n: "i \<notin> listed" "\<not> linking wk k' i" for k'
    using assms(1,3) i unfolding links_ok_def by blast+
  have nk: "\<not> linking wk k j" for j
    using assms(2) by (simp add: linking_def)
  show ?thesis
  proof (rule links_okI)
    show "j \<notin> listed" if "linking ?wk k' j" for k' j
      using that n links_okD(1) [OF assms(1)] by (auto simp: l split: if_splits)
    show "k1 = k2" if "linking ?wk k1 j" "linking ?wk k2 j" for k1 k2 j
      using that n links_okD(2) [OF assms(1)] by (auto simp: l split: if_splits)
    show "nx[i := ?a] ! j = ucast (h' AND INDEX_MASK)" if "?wk k' = (j, WakePush h')" for k' j h'
    proof (cases "k' = k")
      case False
      with that have w: "wk k' = (j, WakePush h')" by simp
      then have "linking wk k' j" by (simp add: linking_def)
      with n have "j \<noteq> i" by blast
      with links_okD(3) [OF assms(1) w] show ?thesis by simp
    qed (use that i in simp)
    show "(ucast (h' AND INDEX_MASK) :: 32 word) \<noteq> SLEEPING" if "?wk k' = (j, pc)" "seen_head pc = Some h'" for k' j pc h'
      using that a links_okD(4) [OF assms(1), of k' j pc h'] by (auto split: if_splits)
    show "j < length (nx[i := ?a])" if "?wk k' = (j, pc)" "pc \<noteq> WakeDone" for k' j pc
      using that i links_okD(5) [OF assms(1), of k' j pc] by (auto split: if_splits)
    show "nx[i := ?a] ! j \<noteq> SLEEPING \<longleftrightarrow> j \<in> listed \<or> (\<exists>k'. linking ?wk k' j)" if "j < length (nx[i := ?a])" for j
    proof (cases "j = i")
      case False
      then have "(\<exists>k'. linking ?wk k' j) \<longleftrightarrow> (\<exists>k'. linking wk k' j)" using nk by (metis l)
      with False that links_okD(6) [OF assms(1), of j] show ?thesis by simp
    qed (use that a l [of k i] in auto)
  qed
qed

lemma links_ok_relink:
  assumes "links_ok nx wk listed" "wk k = (i, WakeRelink h)"
  shows "links_ok (nx[i := ucast (h AND INDEX_MASK)]) (wk(k := (i, WakePush h))) listed"
proof -
  let ?wk = "wk(k := (i, WakePush h))" and ?a = "ucast (h AND INDEX_MASK) :: 32 word"
  have i: "i < length nx" and a: "?a \<noteq> SLEEPING"
    using links_okD(4,5) [OF assms] by simp_all
  have l: "linking ?wk = linking wk"
    using assms(2) by (auto simp: linking_def fun_eq_iff)
  have li: "linking wk k i" using assms(2) by (simp add: linking_def)
  show ?thesis
  proof (rule links_okI, unfold l)
    show "nx[i := ?a] ! j = ucast (h' AND INDEX_MASK)" if "?wk k' = (j, WakePush h')" for k' j h'
    proof (cases "k' = k")
      case False
      with that have w: "wk k' = (j, WakePush h')" by simp
      then have "linking wk k' j" by (simp add: linking_def)
      with li False links_okD(2) [OF assms(1)] have "j \<noteq> i" by blast
      with links_okD(3) [OF assms(1) w] show ?thesis by simp
    qed (use that i in simp)
    show "(ucast (h' AND INDEX_MASK) :: 32 word) \<noteq> SLEEPING" if "?wk k' = (j, pc)" "seen_head pc = Some h'" for k' j pc h'
      using that a links_okD(4) [OF assms(1), of k' j pc h'] by (auto split: if_splits)
    show "j < length (nx[i := ?a])" if "?wk k' = (j, pc)" "pc \<noteq> WakeDone" for k' j pc
      using that i links_okD(5) [OF assms(1), of k' j pc] by (auto split: if_splits)
    show "nx[i := ?a] ! j \<noteq> SLEEPING \<longleftrightarrow> j \<in> listed \<or> (\<exists>k'. linking wk k' j)" if "j < length (nx[i := ?a])" for j
      using that a li links_okD(6) [OF assms(1), of j] by (cases "j = i") auto
  qed (use links_okD(1,2) [OF assms(1)] in blast)+
qed

lemma links_ok_push:
  assumes "links_ok nx wk listed" "wk k = (i, WakePush h)" "pc' = WakeNotify \<or> pc' = WakeDone"
  shows "links_ok nx (wk(k := (i, pc'))) (insert i listed)"
proof -
  let ?wk = "wk(k := (i, pc'))"
  have i: "i < length nx" using links_okD(5) [OF assms(1,2)] by simp
  have l: "linking ?wk k' j \<longleftrightarrow> k' \<noteq> k \<and> linking wk k' j" for k' j
    using assms(3) by (auto simp: linking_def)
  have li: "linking wk k' i \<longleftrightarrow> k' = k" for k'
    using assms(2) links_okD(2) [OF assms(1), of k i k'] by (auto simp: linking_def)
  show ?thesis
  proof (rule links_okI)
    show "j \<notin> insert i listed" if "linking ?wk k' j" for k' j
      using that li links_okD(1) [OF assms(1)] by (auto simp: l)
    show "k1 = k2" if "linking ?wk k1 j" "linking ?wk k2 j" for k1 k2 j
      using that links_okD(2) [OF assms(1)] by (auto simp: l)
    show "nx ! j \<noteq> SLEEPING \<longleftrightarrow> j \<in> insert i listed \<or> (\<exists>k'. linking ?wk k' j)" if "j < length nx" for j
    proof (cases "j = i")
      case True
      with that links_okD(6) [OF assms(1), of i] li show ?thesis by auto
    next
      case False
      with assms(2) have "\<not> linking wk k j" by (simp add: linking_def)
      with False that links_okD(6) [OF assms(1), of j] show ?thesis unfolding l by (metis insert_iff)
    qed
  qed (use assms(3) i links_okD(3-5) [OF assms(1)] in \<open>auto split: if_splits\<close>)
qed

lemma links_ok_sleep:
  assumes "links_ok nx wk listed" "i \<in> listed"
  shows "links_ok (nx[i := SLEEPING]) wk (listed - {i})"
proof -
  have n: "\<not> linking wk k i" for k using links_okD(1) [OF assms(1)] assms(2) by blast
  show ?thesis
  proof (rule links_okI)
    show "nx[i := SLEEPING] ! j = ucast (h AND INDEX_MASK)" if "wk k = (j, WakePush h)" for k j h
    proof -
      have "linking wk k j" using that by (simp add: linking_def)
      with n have "j \<noteq> i" by blast
      with links_okD(3) [OF assms(1) that] show ?thesis by simp
    qed
    show "nx[i := SLEEPING] ! j \<noteq> SLEEPING \<longleftrightarrow> j \<in> listed - {i} \<or> (\<exists>k. linking wk k j)" if "j < length (nx[i := SLEEPING])" for j
      using that n links_okD(6) [OF assms(1), of j] by (cases "j = i") auto
  qed (use links_okD [OF assms(1)] in auto)
qed

lemma links_ok_append:
  assumes "links_ok nx wk listed" "\<forall>i \<in> listed. i < length nx"
  shows "links_ok (nx @ replicate n SLEEPING) wk listed"
proof -
  have ln: "j < length nx" if "linking wk k j" for k j
    using that links_okD(5) [OF assms(1), of k j "snd (wk k)"] by (cases "wk k"; cases "snd (wk k)") (auto simp: linking_def)
  show ?thesis
  proof (rule links_okI)
    show "(nx @ replicate n SLEEPING) ! j = ucast (h AND INDEX_MASK)" if "wk k = (j, WakePush h)" for k j h
      using that links_okD(3,5) [OF assms(1) that] by (simp add: nth_append)
    show "(nx @ replicate n SLEEPING) ! j \<noteq> SLEEPING \<longleftrightarrow> j \<in> listed \<or> (\<exists>k. linking wk k j)"
      if "j < length (nx @ replicate n SLEEPING)" for j
      using that assms(2) ln links_okD(6) [OF assms(1), of j] by (cases "j < length nx") (auto simp: nth_append)
    show "i < length (nx @ replicate n SLEEPING)" if "wk k = (i, pc)" "pc \<noteq> WakeDone" for k i pc
      using links_okD(5) [OF assms(1) that] by simp
  qed (use links_okD(1,2,4) [OF assms(1)] in auto)
qed

lemma listed_bound:
  assumes "lists_ok ts ow sch det"
  shows "\<forall>i \<in> set sch \<union> set det. i < length (ts_next ts)"
proof -
  have c: "chain nx a is \<Longrightarrow> \<forall>i \<in> set is. i < length nx" for nx a "is"
    by (induction "is" arbitrary: a) auto
  have "owner_list nx ow det \<Longrightarrow> \<forall>i \<in> set det. i < length nx" for nx
    by (cases ow; cases det) (auto dest: c)
  with assms c show ?thesis unfolding lists_ok_def by blast
qed

lemma notify_kept:
  assumes "wk k = (i, pc)" "pc \<noteq> WakeNotify"
  shows "notifying wk \<Longrightarrow> notifying (wk(k := x))"
  using assms unfolding notifying_def by (metis fun_upd_other snd_conv)

lemma armed_ok_keep:
  assumes "armed_ok s sch" "sy_wake s k = (i, pc)" "pc \<noteq> WakeNotify"
    and "ts_head ts = ts_head (sy_set s)" "ts_notifications ts = ts_notifications (sy_set s)"
  shows "armed_ok (s\<lparr>sy_set := ts, sy_wake := (sy_wake s)(k := (i, pc'))\<rparr>) sch"
  using assms(1,4,5) notify_kept [of "sy_wake s" k, OF assms(2,3), of "(i, pc')"] unfolding armed_ok_def by auto

lemma head_word_top [simp]: "ucast (drop_bit 32 (head_word c h)) = c"
  by (auto intro!: bit_eqI simp: bit_head_word bit_simps dest: bit32)

lemma armed_ok_push:
  assumes "armed_ok s sch" "sy_wake s k = (i, pc)" "pc \<noteq> WakeNotify" "ts_head (sy_set s) = head_word c h"
  shows "armed_ok (s\<lparr>sy_set := (sy_set s)\<lparr>ts_head := head_word (if c = 0 then 0 else c - 1) a\<rparr>,
    sy_wake := (sy_wake s)(k := (i, if c = 1 then WakeNotify else WakeDone))\<rparr>) (j # sch)" (is "armed_ok ?s _")
proof (cases "0 < sy_armed s")
  case True
  have o: "sy_owner s = OwIdle" and c: "unat c = sy_armed s - length sch"
    and n: "sy_armed s \<le> length sch \<Longrightarrow> sy_base s < ts_notifications (sy_set s) \<or> notifying (sy_wake s)"
    and b: "sy_base s \<le> ts_notifications (sy_set s)"
    using assms(1,4) True by (auto simp: armed_ok_def)
  have p: "unat (c - 1) = unat c - 1" if "c \<noteq> 0" using that by (rule unat_minus_one)
  show ?thesis
  proof (cases "c = 0")
    case True
    with c n notify_kept [of "sy_wake s" k, OF assms(2,3), of "(i, WakeDone)"] o b show ?thesis
      by (auto simp: armed_ok_def)
  next
    case False
    moreover from this p c have "sy_armed s \<le> Suc (length sch) \<Longrightarrow> c = 1"
      using unat_eq_zero [of "c - 1"] by auto
    moreover have "notifying ((sy_wake s)(k := (i, WakeNotify)))"
      unfolding notifying_def by (rule exI [of _ k]) simp
    ultimately show ?thesis using c p o b by (auto simp: armed_ok_def)
  qed
qed (simp add: armed_ok_def)

text \<open>A wake call.\<close>

lemma wake_step_inv:
  assumes "ts_inv s sch det" "sy_wake s k = (i, pc)" "wake_step weak i pc (sy_set s) = Some (pc', ts)"
  shows "\<exists>sch'. ts_inv (s\<lparr>sy_set := ts, sy_wake := (sy_wake s)(k := (i, pc'))\<rparr>) sch' det"
proof -
  have lo: "lists_ok (sy_set s) (sy_owner s) sch det" and li: "links_ok (ts_next (sy_set s)) (sy_wake s) (set sch \<union> set det)"
    and ar: "armed_ok s sch"
    using assms(1) by (simp_all add: ts_inv_def)
  obtain c h where h: "ts_head (sy_set s) = head_word c h" "chain (ts_next (sy_set s)) h sch" "h \<noteq> SLEEPING"
    and ln: "length (ts_next (sy_set s)) \<le> task_limit"
    using lo by (rule lists_okD)
  have i: "i < length (ts_next (sy_set s))" if "pc \<noteq> WakeDone"
    using links_okD(5) [OF li assms(2) that] .
  have "pc \<noteq> WakeDone" using assms(3) by auto
  note i = i [OF this]
  have hi: "(ucast (ts_head (sy_set s) AND INDEX_MASK) :: 32 word) = h" by (simp add: h(1))
  have same: ?thesis if "ts = sy_set s" "links pc' = links pc" "\<forall>h. pc' \<noteq> WakePush h" "pc \<noteq> WakeNotify"
    "\<forall>h. seen_head pc' = Some h \<longrightarrow> (ucast (h AND INDEX_MASK) :: 32 word) \<noteq> SLEEPING"
    using lo links_ok_pc [OF li assms(2) that(2,3) i that(5)] armed_ok_keep [OF ar assms(2) that(4), of ts] that(1)
    unfolding ts_inv_def by (intro exI [of _ sch]) auto
  show ?thesis
  proof (cases pc)
    case WakeStart
    then show ?thesis using assms(3) i by (intro same) auto
  next
    case (WakeLoop n)
    then show ?thesis using assms(3) i h(3) by (intro same) (auto simp: hi split: if_splits)
  next
    case (WakeLink hd)
    show ?thesis
    proof (cases "ts_next (sy_set s) ! i = SLEEPING \<and> \<not> weak")
      case True
      have ts: "ts = (sy_set s)\<lparr>ts_next := (ts_next (sy_set s))[i := ucast (hd AND INDEX_MASK)]\<rparr>" "pc' = WakePush hd"
        using assms(3) WakeLink i True by auto
      have n: "i \<notin> set sch" "i \<notin> set det"
        using links_okD(6) [OF li i] True by auto
      have "lists_ok ts (sy_owner s) sch det"
        using lo n by (auto simp: lists_ok_def ts)
      with links_ok_link [OF li assms(2) [unfolded WakeLink]] True armed_ok_keep [OF ar assms(2), of ts pc'] WakeLink
      show ?thesis by (intro exI [of _ sch]) (auto simp: ts_inv_def ts)
    qed (use assms(3) WakeLink i in \<open>intro same, auto\<close>)
  next
    case (WakePush hd)
    show ?thesis
    proof (cases "ts_head (sy_set s) = hd \<and> \<not> weak")
      case True
      let ?c = "if c = 0 then 0 else c - 1"
      have hw: "hd = head_word c h" using True h(1) by simp
      have ts: "ts = (sy_set s)\<lparr>ts_head := head_word ?c (word_of_nat i)\<rparr>" "pc' = (if c = 1 then WakeNotify else WakeDone)"
        using assms(3) i ln True by (simp_all add: WakePush hw h(1) pushed_head_word head_word_consts(2))
      have n: "i \<notin> set sch" "i \<notin> set det"
        using links_okD(1) [OF li, of k i] assms(2) WakePush by (auto simp: linking_def)
      have "ts_next (sy_set s) ! i = h"
        using links_okD(3) [OF li assms(2) [unfolded WakePush]] True hi by simp
      with lo n i h(2) have "lists_ok ts (sy_owner s) (i # sch) det"
        by (auto simp: lists_ok_def ts)
      moreover have "links_ok (ts_next ts) ((sy_wake s)(k := (i, pc'))) (set (i # sch) \<union> set det)"
        using links_ok_push [OF li assms(2) [unfolded WakePush], of pc'] by (auto simp: ts)
      moreover have "armed_ok (s\<lparr>sy_set := ts, sy_wake := (sy_wake s)(k := (i, pc'))\<rparr>) (i # sch)"
        using armed_ok_push [OF ar assms(2) _ h(1)] WakePush by (simp add: ts)
      ultimately show ?thesis by (intro exI [of _ "i # sch"]) (auto simp: ts_inv_def)
    qed (use assms(3) WakePush h(3) in \<open>intro same, auto simp: hi\<close>)
  next
    case (WakeRelink hd)
    have ts: "ts = (sy_set s)\<lparr>ts_next := (ts_next (sy_set s))[i := ucast (hd AND INDEX_MASK)]\<rparr>" "pc' = WakePush hd"
      using assms(3) WakeRelink i by auto
    have n: "i \<notin> set sch" "i \<notin> set det"
      using links_okD(1) [OF li, of k i] assms(2) WakeRelink by (auto simp: linking_def)
    have "lists_ok ts (sy_owner s) sch det"
      using lo n by (auto simp: lists_ok_def ts)
    with links_ok_relink [OF li assms(2) [unfolded WakeRelink]] armed_ok_keep [OF ar assms(2), of ts pc'] WakeRelink
    show ?thesis by (intro exI [of _ sch]) (auto simp: ts_inv_def ts)
  next
    case WakeNotify
    have armed_notified: "sy_base s < ts_notifications (sy_set s) + 1" if "0 < sy_armed s"
      using ar that by (simp add: armed_ok_def)
    have ts: "ts = (sy_set s)\<lparr>ts_notifications := ts_notifications (sy_set s) + 1\<rparr>" "pc' = WakeDone"
      using assms(3) WakeNotify by auto
    have "lists_ok ts (sy_owner s) sch det"
      using lo by (auto simp: lists_ok_def ts)
    moreover have "armed_ok (s\<lparr>sy_set := ts, sy_wake := (sy_wake s)(k := (i, pc'))\<rparr>) sch"
      using ar armed_notified by (auto simp: armed_ok_def ts)
    ultimately show ?thesis using links_ok_pc [OF li assms(2), of pc'] WakeNotify i
      by (intro exI [of _ sch]) (auto simp: ts_inv_def ts)
  next
    case WakeDone
    with assms(3) show ?thesis by simp
  qed
qed

text \<open>The owner.\<close>

lemma owner_idle_inv:
  assumes "ts_inv s sch det" "sy_owner s = OwIdle"
  shows "take_scheduled n (sy_set s) = Some (pc, ts) \<Longrightarrow> ts_inv (s\<lparr>sy_set := ts, sy_owner := pc, sy_armed := 0\<rparr>) sch det"
    and "discard_scheduled (sy_set s) = Some (pc, ts) \<Longrightarrow>
      ts_inv (s\<lparr>sy_set := ts, sy_owner := pc, sy_armed := if pc = OwIdle then sy_armed s else 0\<rparr>) sch det"
    and "ts_resize len (sy_set s) = Some ts \<Longrightarrow> ts_inv (s\<lparr>sy_set := ts\<rparr>) sch det"
proof -
  have lo: "lists_ok (sy_set s) OwIdle sch det" and li: "links_ok (ts_next (sy_set s)) (sy_wake s) (set sch \<union> set det)"
    and ar: "armed_ok s sch"
    using assms by (simp_all add: ts_inv_def)
  show "ts_inv (s\<lparr>sy_set := ts, sy_owner := pc, sy_armed := 0\<rparr>) sch det" if "take_scheduled n (sy_set s) = Some (pc, ts)"
    using that lo li by (auto simp: ts_inv_def take_scheduled_def armed_ok_def lists_ok_def split: if_splits)
  show "ts_inv (s\<lparr>sy_set := ts, sy_owner := pc, sy_armed := if pc = OwIdle then sy_armed s else 0\<rparr>) sch det"
    if "discard_scheduled (sy_set s) = Some (pc, ts)"
    using that lo li ar assms(2) by (auto simp: ts_inv_def discard_scheduled_def armed_ok_def lists_ok_def split: if_splits)
  show "ts_inv (s\<lparr>sy_set := ts\<rparr>) sch det" if "ts_resize len (sy_set s) = Some ts"
    using that lo links_ok_append [OF li listed_bound [OF lo]] ar assms(2)
    by (auto simp: ts_inv_def ts_resize_def armed_ok_def lists_ok_def split: if_splits intro: chain_append)
qed

lemma take_cas_inv:
  assumes "ts_inv s sch det" "sy_owner s = OwTake d n head" "take_cas weak d n head (sy_set s) = Some (pc, ts)"
  shows "\<exists>sch' det'. ts_inv (s\<lparr>sy_set := ts, sy_owner := pc, sy_armed := if pc = OwIdle then unat n else 0, sy_base := ts_notifications ts\<rparr>) sch' det'"
proof -
  have lo: "lists_ok (sy_set s) (OwTake d n head) sch det" and li: "links_ok (ts_next (sy_set s)) (sy_wake s) (set sch \<union> set det)"
    using assms by (simp_all add: ts_inv_def)
  obtain c h where h: "ts_head (sy_set s) = head_word c h" "chain (ts_next (sy_set s)) h sch" "(h = EMPTY) = (sch = [])" "det = []"
    "distinct sch" "length (ts_next (sy_set s)) \<le> task_limit" "ts_task_count (sy_set s) \<le> length (ts_next (sy_set s))"
    using lo chain_nil by (auto simp: lists_ok_def)
  show ?thesis
  proof (cases "ts_head (sy_set s) = head \<and> \<not> weak")
    case True
    have hw: "head = head_word c h" using True h(1) by simp
    show ?thesis
    proof (cases "sch = []")
      case True
      with assms(3) \<open>_ \<and> \<not> weak\<close> h li show ?thesis
        by (intro exI [of _ "[]"])
          (auto simp: take_cas_def hw taken_head_word ts_inv_def lists_ok_def armed_ok_def)
    next
      case False
      with assms(3) \<open>_ \<and> \<not> weak\<close> h li show ?thesis
        by - (rule exI [of _ "[]"], rule exI [of _ sch], cases d,
          auto simp: take_cas_def hw taken_head_word ts_inv_def lists_ok_def armed_ok_def)
    qed
  next
    case False
    with assms(3) h li show ?thesis
      by - (rule exI [of _ sch], rule exI [of _ "[]"], auto simp: take_cas_def ts_inv_def lists_ok_def armed_ok_def)
  qed
qed

lemma listed_sleep:
  assumes "lists_ok ts ow sch (i # det)"
  shows "lists_ok (ts\<lparr>ts_next := (ts_next ts)[i := SLEEPING]\<rparr>) (OwIter a) sch det \<longleftrightarrow> chain (ts_next ts) a det"
    and "lists_ok (ts\<lparr>ts_next := (ts_next ts)[i := SLEEPING]\<rparr>) (OwDrop a) sch det \<longleftrightarrow> chain (ts_next ts) a det"
    and "(set sch \<union> set (i # det)) - {i} = set sch \<union> set det"
  using assms by (auto simp: lists_ok_def)

lemma owner_iter_inv:
  assumes "ts_inv s sch det" "sy_owner s = OwIter idx"
  shows "iter_next idx (sy_set s) = Some (y, pc, ts) \<Longrightarrow> \<exists>det'. ts_inv (s\<lparr>sy_set := ts, sy_owner := pc, sy_yielded := ys\<rparr>) sch det'"
    and "ts_inv (s\<lparr>sy_owner := OwDrop idx\<rparr>) sch det"
proof -
  have lo: "lists_ok (sy_set s) (OwIter idx) sch det" and li: "links_ok (ts_next (sy_set s)) (sy_wake s) (set sch \<union> set det)"
    and ar: "sy_armed s = 0"
    using assms by (auto simp: ts_inv_def armed_ok_def)
  show "ts_inv (s\<lparr>sy_owner := OwDrop idx\<rparr>) sch det"
    using lo li ar by (simp add: ts_inv_def lists_ok_def armed_ok_def)
  have c: "chain (ts_next (sy_set s)) idx det" "length (ts_next (sy_set s)) \<le> task_limit"
    using lo by (auto simp: lists_ok_def)
  show "\<exists>det'. ts_inv (s\<lparr>sy_set := ts, sy_owner := pc, sy_yielded := ys\<rparr>) sch det'"
    if it: "iter_next idx (sy_set s) = Some (y, pc, ts)"
  proof (cases det)
    case Nil
    with c it lo li ar show ?thesis
      by (intro exI [of _ "[]"]) (auto simp: iter_next_def ts_inv_def lists_ok_def armed_ok_def)
  next
    case (Cons i det')
    with c have i: "idx = word_of_nat i" "i < length (ts_next (sy_set s))" "chain (ts_next (sy_set s)) (ts_next (sy_set s) ! i) det'"
      by simp_all
    then have "ts = (sy_set s)\<lparr>ts_next := (ts_next (sy_set s))[i := SLEEPING]\<rparr>" "pc = OwIter (ts_next (sy_set s) ! i)"
      using it c(2) by (auto simp: iter_next_def)
    with i(3) listed_sleep [OF lo [unfolded Cons]] links_ok_sleep [OF li, of i] ar show ?thesis
      by (intro exI [of _ det']) (simp add: Cons ts_inv_def armed_ok_def)
  qed
qed

lemma owner_drop_inv:
  assumes "ts_inv s sch det"
  shows "sy_owner s = OwDrop idx \<Longrightarrow> iter_drop idx (sy_set s) = Some (pc, ts) \<Longrightarrow> ts_inv (s\<lparr>sy_set := ts, sy_owner := pc\<rparr>) sch det"
    and "sy_owner s = OwDropStore idx next \<Longrightarrow> iter_drop_store idx next (sy_set s) = Some (pc, ts) \<Longrightarrow>
      \<exists>det'. ts_inv (s\<lparr>sy_set := ts, sy_owner := pc\<rparr>) sch det'"
proof -
  have li: "links_ok (ts_next (sy_set s)) (sy_wake s) (set sch \<union> set det)"
    and lo: "lists_ok (sy_set s) (sy_owner s) sch det" and ar: "sy_owner s \<noteq> OwIdle \<Longrightarrow> sy_armed s = 0"
    using assms by (auto simp: ts_inv_def armed_ok_def)
  have ln: "length (ts_next (sy_set s)) \<le> task_limit" using lo by (simp add: lists_ok_def)
  show "ts_inv (s\<lparr>sy_set := ts, sy_owner := pc\<rparr>) sch det"
    if "sy_owner s = OwDrop idx" "iter_drop idx (sy_set s) = Some (pc, ts)"
    using that ln lo li ar by (cases det) (auto simp: iter_drop_def ts_inv_def lists_ok_def armed_ok_def)
  show "\<exists>det'. ts_inv (s\<lparr>sy_set := ts, sy_owner := pc\<rparr>) sch det'"
    if o: "sy_owner s = OwDropStore idx next" and st: "iter_drop_store idx next (sy_set s) = Some (pc, ts)"
  proof -
    obtain i det' where d: "det = i # det'" and i: "idx = word_of_nat i" "i < length (ts_next (sy_set s))" "chain (ts_next (sy_set s)) next det'"
      using lo o by (cases det) (auto simp: lists_ok_def)
    then have "ts = (sy_set s)\<lparr>ts_next := (ts_next (sy_set s))[i := SLEEPING]\<rparr>" "pc = OwDrop next"
      using st ln by (auto simp: iter_drop_store_def)
    with i(3) listed_sleep [OF lo [unfolded d]] links_ok_sleep [OF li, of i] ar o show ?thesis
      by (intro exI [of _ det']) (simp add: d ts_inv_def armed_ok_def)
  qed
qed

lemma call_inv:
  assumes "ts_inv s sch det" "snd (sy_wake s k) = WakeDone" "i < length (ts_next (sy_set s))"
  shows "ts_inv (s\<lparr>sy_wake := (sy_wake s)(k := (i, WakeStart))\<rparr>) sch det"
proof -
  let ?wk = "(sy_wake s)(k := (i, WakeStart))"
  have lo: "lists_ok (sy_set s) (sy_owner s) sch det" and li: "links_ok (ts_next (sy_set s)) (sy_wake s) (set sch \<union> set det)"
    and ar: "armed_ok s sch"
    using assms by (simp_all add: ts_inv_def)
  have "linking ?wk = linking (sy_wake s)"
    using assms(2) by (auto simp: linking_def fun_eq_iff)
  then have "links_ok (ts_next (sy_set s)) ?wk (set sch \<union> set det)"
    using li assms(3) unfolding links_ok_def by (auto split: if_splits)
  moreover obtain j where j: "sy_wake s k = (j, WakeDone)"
    using assms(2) by (cases "sy_wake s k") simp
  have "notifying (sy_wake s) \<Longrightarrow> notifying ?wk"
    using notify_kept [of "sy_wake s" k, OF j] by blast
  with ar have "armed_ok (s\<lparr>sy_wake := ?wk\<rparr>) sch"
    by (auto simp: armed_ok_def)
  ultimately show ?thesis using lo by (simp add: ts_inv_def)
qed

lemma ts_step_inv: "ts_step s s' \<Longrightarrow> ts_inv s sch det \<Longrightarrow> \<exists>sch' det'. ts_inv s' sch' det'"
proof (induction rule: ts_step.induct)
  case (call s k i)
  from call_inv [OF call(3,1,2)] show ?case by blast
next
  case (wake s k i pc weak pc' ts)
  from wake_step_inv [OF wake(3,1,2)] show ?case by blast
next
  case (take s n pc ts)
  from owner_idle_inv(1) [OF take(3,1,2)] show ?case by blast
next
  case (discard s pc ts)
  from owner_idle_inv(2) [OF discard(3,1,2)] show ?case by blast
next
  case (cas s d n head weak pc ts)
  from take_cas_inv [OF cas(3,1,2)] show ?case .
next
  case (iter s idx y pc ts)
  from owner_iter_inv(1) [OF iter(3,1,2)] show ?case by blast
next
  case (drop_iter s idx)
  from owner_iter_inv(2) [OF drop_iter(2,1)] show ?case by blast
next
  case (drop s idx pc ts)
  from owner_drop_inv(1) [OF drop(3,1,2)] show ?case by blast
next
  case (drop_store s idx nxt pc ts)
  from owner_drop_inv(2) [OF drop_store(3,1,2)] show ?case by blast
next
  case (resize s len ts)
  from owner_idle_inv(3) [OF resize(3,1,2)] show ?case by blast
qed

lemma ts_init_inv:
  assumes "ts_next ts = replicate n SLEEPING" "ts_head ts = ucast EMPTY" "n \<le> task_limit" "ts_task_count ts \<le> n"
  shows "ts_inv (ts_init ts) [] []"
  using assms by (auto simp: ts_inv_def ts_init_def lists_ok_def links_ok_def armed_ok_def linking_def head_word_consts(1))

lemma ts_reach_inv: "ts_reach s \<Longrightarrow> \<exists>sch det. ts_inv s sch det"
proof (induction rule: ts_reach.induct)
  case new
  have "ts_inv (ts_init ts_new) [] []" by (rule ts_init_inv [of _ 0]) (simp_all add: ts_new_def)
  then show ?case by blast
next
  case (with_len len ts)
  then have "ts_inv (ts_init ts) [] []"
    by (intro ts_init_inv [of _ len]) (auto simp: ts_with_len_def split: if_splits)
  then show ?case by blast
next
  case (step s s')
  then show ?case using ts_step_inv by blast
qed

subsection \<open>Properties\<close>

text \<open>The tasks that are linked from an index on, and those that are scheduled and those that the owner has taken and not
  yet put to sleep.\<close>

fun tasks_from :: "nat \<Rightarrow> 32 word list \<Rightarrow> 32 word \<Rightarrow> nat list" where
  "tasks_from 0 nx a = []"
| "tasks_from (Suc n) nx a = (if unat a < length nx then unat a # tasks_from n nx (nx ! unat a) else [])"

definition scheduled :: "task_sys \<Rightarrow> nat list" where
  "scheduled s = (let nx = ts_next (sy_set s) in tasks_from (length nx) nx (ucast (ts_head (sy_set s) AND INDEX_MASK)))"

definition taken :: "task_sys \<Rightarrow> nat list" where
  "taken s = (let nx = ts_next (sy_set s) in
     case sy_owner s of
       OwIter a \<Rightarrow> tasks_from (length nx) nx a
     | OwDrop a \<Rightarrow> tasks_from (length nx) nx a
     | OwDropStore a b \<Rightarrow> unat a # tasks_from (length nx) nx b
     | _ \<Rightarrow> [])"

lemma tasks_from_chain: "chain nx a is \<Longrightarrow> length nx \<le> task_limit \<Longrightarrow> length is \<le> n \<Longrightarrow> tasks_from n nx a = is"
proof (induction n arbitrary: a "is")
  case (Suc n)
  then show ?case by (cases "is") auto
qed simp

lemma lists_length:
  assumes "lists_ok ts ow sch det"
  shows "length (sch @ det) \<le> length (ts_next ts)"
proof -
  have "card (set (sch @ det)) \<le> card {..< length (ts_next ts)}"
    using listed_bound [OF assms] by (intro card_mono) auto
  moreover have "card (set (sch @ det)) = length (sch @ det)"
    using assms unfolding lists_ok_def by (intro distinct_card) blast
  ultimately show ?thesis by simp
qed

lemma ts_inv_lists:
  assumes "ts_inv s sch det"
  shows "scheduled s = sch" "taken s = det"
proof -
  have lo: "lists_ok (sy_set s) (sy_owner s) sch det" using assms by (simp add: ts_inv_def)
  note len = lists_length [OF lo]
  obtain c h where h: "ts_head (sy_set s) = head_word c h" "chain (ts_next (sy_set s)) h sch"
    "owner_list (ts_next (sy_set s)) (sy_owner s) det" "length (ts_next (sy_set s)) \<le> task_limit"
    using lo by (rule lists_okD)
  show "scheduled s = sch"
    using tasks_from_chain [OF h(2,4)] len by (simp add: scheduled_def h(1) Let_def)
  show "taken s = det"
    using h(3,4) len tasks_from_chain [OF _ h(4)]
    by (cases "sy_owner s"; cases det) (auto simp: taken_def Let_def)
qed

definition owner_next :: "bool \<Rightarrow> nat \<Rightarrow> task_sys \<Rightarrow> (owner_pc \<times> task_set) exec" where
  "owner_next weak n s =
     (case sy_owner s of
        OwIdle \<Rightarrow> take_scheduled n (sy_set s)
      | OwTake d c head \<Rightarrow> take_cas weak d c head (sy_set s)
      | OwIter idx \<Rightarrow> map_option snd (iter_next idx (sy_set s))
      | OwDrop idx \<Rightarrow> iter_drop idx (sy_set s)
      | OwDropStore idx next \<Rightarrow> iter_drop_store idx next (sy_set s))"

lemma owner_next_ok:
  assumes "lists_ok (sy_set s) (sy_owner s) sch det" "n < 2 ^ 32"
  shows "owner_next weak n s \<noteq> None"
  using assms
  by (cases "sy_owner s"; cases det)
    (auto simp: owner_next_def take_scheduled_def take_cas_def iter_next_def iter_drop_def iter_drop_store_def lists_ok_def Let_def split: option.splits)

lemma wake_step_ok:
  assumes "links_ok nx wk listed" "wk k = (i, pc)" "pc \<noteq> WakeDone" "nx = ts_next ts"
  shows "wake_step weak i pc ts \<noteq> None"
  using links_okD(5) [OF assms(1-3)] assms(3,4) by (cases pc) auto

text \<open>Consistency of the lock-free stack. Under every interleaving of wake calls with the owner, no task is at two places: the
  scheduled tasks and the tasks that the owner has taken and not yet put to sleep are distinct, a task that
  is not asleep is in one of these lists or is being linked by exactly one wake call, a task that is asleep is in none;
  and no step of a wake call or of the owner goes out of bounds.\<close>

lemma task_set_lists:
  assumes "ts_reach s"
  shows "distinct (scheduled s @ taken s) \<and>
    (\<forall>i < length (ts_next (sy_set s)).
      if ts_next (sy_set s) ! i = SLEEPING then i \<notin> set (scheduled s @ taken s) \<and> (\<nexists>k. linking (sy_wake s) k i)
      else if i \<in> set (scheduled s @ taken s) then \<nexists>k. linking (sy_wake s) k i
      else \<exists>!k. linking (sy_wake s) k i) \<and>
    (\<forall>k. case sy_wake s k of (i, pc) \<Rightarrow> pc = WakeDone \<or> wake_step weak i pc (sy_set s) \<noteq> None) \<and>
    owner_next weak 1 s \<noteq> None"
proof -
  obtain sch det where inv: "ts_inv s sch det" using ts_reach_inv [OF assms] by blast
  then have lo: "lists_ok (sy_set s) (sy_owner s) sch det" and li: "links_ok (ts_next (sy_set s)) (sy_wake s) (set sch \<union> set det)"
    by (simp_all add: ts_inv_def)
  note ls = ts_inv_lists [OF inv]
  have d: "distinct (sch @ det)" using lo by (simp add: lists_ok_def)
  have places: "if ts_next (sy_set s) ! i = SLEEPING then i \<notin> set (sch @ det) \<and> (\<nexists>k. linking (sy_wake s) k i)
      else if i \<in> set (sch @ det) then \<nexists>k. linking (sy_wake s) k i else \<exists>!k. linking (sy_wake s) k i"
    if "i < length (ts_next (sy_set s))" for i
    using links_okD(1,2) [OF li, of _ i] links_okD(6) [OF li that] by (auto simp: Ex1_def)
  have wakes: "pc = WakeDone \<or> wake_step weak i pc (sy_set s) \<noteq> None" if "sy_wake s k = (i, pc)" for k i pc
    using wake_step_ok [OF li that _ refl] by blast
  show ?thesis
    unfolding ls
  proof (intro conjI allI impI)
    show "case sy_wake s k of (i, pc) \<Rightarrow> pc = WakeDone \<or> wake_step weak i pc (sy_set s) \<noteq> None" for k
      using wakes [of k] by (cases "sy_wake s k") simp
    show "owner_next weak 1 s \<noteq> None" using owner_next_ok [OF lo, of 1 weak] by simp
  qed (use d places in blast)+
qed

text \<open>C32: No lost wake-up. When a wake call on a task has made its last access to the links, the task is not asleep. And when the
  owner has found no scheduled task and asked to be notified after \<open>n\<close> wakes, then once \<open>n\<close> tasks are
  scheduled the parent has been notified, or the wake call that is to notify it is still in progress.\<close>

theorem parent_notified:
  assumes "ts_reach s"
  shows "(sy_wake s k = (i, pc) \<and> wake_step weak i pc (sy_set s) = Some (pc', ts) \<and> pc \<noteq> WakeNotify \<and>
      (pc' = WakeDone \<or> pc' = WakeNotify) \<longrightarrow> ts_next ts ! i \<noteq> SLEEPING) \<and>
    (0 < sy_armed s \<and> sy_armed s \<le> length (scheduled s) \<longrightarrow>
      sy_base s < ts_notifications (sy_set s) \<or> (\<exists>k. snd (sy_wake s k) = WakeNotify))"
proof -
  obtain sch det where inv: "ts_inv s sch det" using ts_reach_inv [OF assms] by blast
  then have li: "links_ok (ts_next (sy_set s)) (sy_wake s) (set sch \<union> set det)" and ar: "armed_ok s sch"
    by (simp_all add: ts_inv_def)
  have "ts_next ts ! i \<noteq> SLEEPING"
    if a: "sy_wake s k = (i, pc)" "wake_step weak i pc (sy_set s) = Some (pc', ts)" "pc \<noteq> WakeNotify" "pc' = WakeDone \<or> pc' = WakeNotify"
  proof (cases pc)
    case (WakePush hd)
    with a have "ts_next ts = ts_next (sy_set s)" by (auto split: if_splits)
    with links_okD(3) [OF li a(1) [unfolded WakePush]] links_okD(4) [OF li a(1)] WakePush show ?thesis by auto
  qed (use a links_okD(5) [OF li a(1)] in \<open>auto split: if_splits simp: vec_get_eq_Some\<close>)
  with ar ts_inv_lists(1) [OF inv] show ?thesis
    by (auto simp: armed_ok_def notifying_def)
qed

definition wake_exec :: "nat \<Rightarrow> task_sys \<Rightarrow> task_sys option" where
  "wake_exec k s = (case sy_wake s k of (i, pc) \<Rightarrow> do {
     (pc', ts) \<leftarrow> wake_step False i pc (sy_set s);
     Some (s\<lparr>sy_set := ts, sy_wake := (sy_wake s)(k := (i, pc'))\<rparr>)
   })"

lemma wake_exec_reach: "ts_reach s \<Longrightarrow> wake_exec k s = Some s' \<Longrightarrow> ts_reach s'"
  by (auto simp: wake_exec_def split: prod.splits Option.bind_splits intro: ts_reach.step ts_step.wake)

text \<open>A set of two tasks whose owner waits for one wake; the second task is woken twice.\<close>

definition woken :: task_sys where
  "woken = \<lparr>sy_set = \<lparr>ts_next = [SLEEPING, EMPTY], ts_head = head_word 0 1, ts_task_count = 2, ts_notifications = 0\<rparr>,
     sy_wake = (\<lambda>_. (0, WakeDone))(0 := (1, WakeNotify), 1 := (1, WakeLoop EMPTY)), sy_owner = OwIdle,
     sy_armed = 1, sy_base = 0, sy_yielded = []\<rparr>"

lemma woken_reach: "ts_reach woken"
proof -
  let ?ts = "\<lambda>nx h. \<lparr>ts_next = nx, ts_head = h, ts_task_count = 2, ts_notifications = 0\<rparr>"
  let ?s = "\<lambda>nx h wk ow a. \<lparr>sy_set = ?ts nx h, sy_wake = wk, sy_owner = ow, sy_armed = a, sy_base = 0, sy_yielded = []\<rparr>"
  let ?w = "\<lambda>_. (0, WakeDone)" and ?N = "[SLEEPING, SLEEPING]" and ?h = "head_word 0 EMPTY" and ?h1 = "head_word 1 EMPTY"
  have two: "replicate 2 SLEEPING = [SLEEPING, SLEEPING]" by (simp add: numeral_2_eq_2)
  have "ts_reach (?s ?N ?h ?w OwIdle 0)"
    using ts_reach.with_len [of 2 "?ts ?N ?h"] two by (simp add: ts_with_len_def ts_init_def head_word_consts(1))
  from ts_reach.step [OF this ts_step.take [of _ 1]] have "ts_reach (?s ?N ?h ?w (OwTake False 1 ?h) 0)"
    by (simp add: take_scheduled_def)
  from ts_reach.step [OF this ts_step.cas [where weak = False and d = False and pc = OwIdle and ts = "?ts ?N ?h1" and n = 1]] have "ts_reach (?s ?N ?h1 ?w OwIdle 1)"
    by (simp add: take_cas_def taken_head_word)
  from ts_reach.step [OF this ts_step.call [of _ 0 1]] have r: "ts_reach (?s ?N ?h1 (?w(0 := (1, WakeStart))) OwIdle 1)"
    by simp
  from wake_exec_reach [OF this, of 0] have "ts_reach (?s ?N ?h1 (?w(0 := (1, WakeLoop SLEEPING))) OwIdle 1)"
    by (simp add: wake_exec_def)
  from wake_exec_reach [OF this, of 0] have "ts_reach (?s ?N ?h1 (?w(0 := (1, WakeLink ?h1))) OwIdle 1)"
    by (simp add: wake_exec_def)
  from wake_exec_reach [OF this, of 0] have "ts_reach (?s [SLEEPING, EMPTY] ?h1 (?w(0 := (1, WakePush ?h1))) OwIdle 1)"
    by (simp add: wake_exec_def)
  from wake_exec_reach [OF this, of 0] have "ts_reach (?s [SLEEPING, EMPTY] (head_word 0 1) (?w(0 := (1, WakeNotify))) OwIdle 1)"
    by (simp add: wake_exec_def pushed_head_word head_word_consts(2))
  from ts_reach.step [OF this ts_step.call [of _ 1 1]]
  have "ts_reach (?s [SLEEPING, EMPTY] (head_word 0 1) (?w(0 := (1, WakeNotify), 1 := (1, WakeStart))) OwIdle 1)"
    by simp
  from wake_exec_reach [OF this, of 1] show ?thesis
    by (simp add: wake_exec_def woken_def)
qed

theorem parent_notified_witness:
  "wake_step False 1 (WakeLoop EMPTY) (sy_set woken) = Some (WakeDone, sy_set woken) \<and> ts_next (sy_set woken) ! 1 \<noteq> SLEEPING \<and>
   sy_armed woken = 1 \<and> scheduled woken = [1] \<and> (\<exists>k. snd (sy_wake woken k) = WakeNotify)"
proof -
  have w: "wake_step False 1 (WakeLoop EMPTY) (sy_set woken) = Some (WakeDone, sy_set woken)" "sy_wake woken 1 = (1, WakeLoop EMPTY)"
    "sy_armed woken = 1" "sy_base woken = 0" "ts_notifications (sy_set woken) = 0"
    by (simp_all add: woken_def)
  have sc: "scheduled woken = [1]"
    by (simp add: woken_def scheduled_def)
  from parent_notified [OF woken_reach, of 1 1 "WakeLoop EMPTY" False WakeDone "sy_set woken"] w sc show ?thesis
    by simp
qed

end
