(* ===== verification/Broadcast_Future.thy ===== *)
theory Broadcast_Future
  imports Task_Set
begin

text \<open>
  Model of the futures that join the sender futures of a broadcast: \<^verbatim>\<open>BroadcastFuture\<close> of
  \<^verbatim>\<open>src/nexosim/src/ports/output/broadcaster.rs\<close> (\<open>out_step\<close>) and of
  \<^verbatim>\<open>src/nexosim/src/ports/source/broadcaster.rs\<close> (\<open>src_step\<close>).

  A call of \<open>poll\<close> is a sequence of steps: each access to the task set is a step, since wakers of the
  sender futures may be used by other threads at the same time, and so is each poll of a sender future, whose
  outcome the environment chooses. The loads of \<open>has_scheduled\<close> and of the beginning of \<open>take_scheduled\<close> are one step: a change
  of the head between them has the same effect as a compare-exchange that fails. \<open>None\<close> is a panic. The memory that the output ports recycle between
  broadcasts holds no data and is not modelled.
\<close>

subsection \<open>The owner of a task set\<close>

text \<open>The steps of the owner in the system of wake calls of the theory on task sets.\<close>

definition sy_take :: "nat \<Rightarrow> task_sys \<Rightarrow> task_sys exec" where
  "sy_take n s = do { (pc, ts) \<leftarrow> take_scheduled n (sy_set s); Some (s\<lparr>sy_set := ts, sy_owner := pc, sy_armed := 0\<rparr>) }"

definition sy_discard :: "task_sys \<Rightarrow> task_sys exec" where
  "sy_discard s = do {
     (pc, ts) \<leftarrow> discard_scheduled (sy_set s);
     Some (s\<lparr>sy_set := ts, sy_owner := pc, sy_armed := if pc = OwIdle then sy_armed s else 0\<rparr>)
   }"

definition sy_iter :: "32 word \<Rightarrow> task_sys \<Rightarrow> (nat option \<times> task_sys) exec" where
  "sy_iter idx s = do {
     (y, pc, ts) \<leftarrow> iter_next idx (sy_set s);
     Some (y, s\<lparr>sy_set := ts, sy_owner := pc, sy_yielded := sy_yielded s @ (case y of None \<Rightarrow> [] | Some i \<Rightarrow> [i])\<rparr>)
   }"

text \<open>The rest of a call of \<open>take_scheduled\<close> or of the drop of an iterator.\<close>

definition sy_owner_step :: "bool \<Rightarrow> task_sys \<Rightarrow> task_sys exec" where
  "sy_owner_step weak s =
     (case sy_owner s of
        OwTake d n head \<Rightarrow> do {
          (pc, ts) \<leftarrow> take_cas weak d n head (sy_set s);
          Some (s\<lparr>sy_set := ts, sy_owner := pc, sy_armed := if pc = OwIdle then unat n else 0, sy_base := ts_notifications ts\<rparr>)
        }
      | OwDrop idx \<Rightarrow> do { (pc, ts) \<leftarrow> iter_drop idx (sy_set s); Some (s\<lparr>sy_set := ts, sy_owner := pc\<rparr>) }
      | OwDropStore idx next \<Rightarrow> do { (pc, ts) \<leftarrow> iter_drop_store idx next (sy_set s); Some (s\<lparr>sy_set := ts, sy_owner := pc\<rparr>) }
      | _ \<Rightarrow> Some s)"

subsection \<open>Broadcast futures\<close>

datatype 'r sent = SentOk 'r | SentErr | SentPending

datatype future_state = FsUninit | FsPending | FsCompleted

text \<open>Where a call of \<open>poll\<close> is: not running, discarding, before and at the poll of a sender future in the
  first round, before \<open>has_scheduled\<close>, in \<open>take_scheduled\<close>, between and at polls of scheduled futures, and dropping the
  iterator after an error.\<close>

datatype bc_pc = BcIdle | BcDiscard | BcFirst nat | BcFirstPoll nat | BcCheck | BcTaking | BcIter | BcPoll nat | BcDropIter

datatype 'o bc_result = BrPending | BrOk 'o | BrErr

subsection \<open>Output ports\<close>

text \<open>\<open>ob_count\<close> is the number of sender futures; there are at least as many outputs, one for each sender.
  \<open>ob_registered\<close> tells whether this poll has registered the waker of the parent.\<close>

record 'r out_bcast =
  ob_count :: nat
  ob_outputs :: "'r option list"
  ob_pending :: nat
  ob_state :: future_state
  ob_pc :: bc_pc
  ob_result :: "unit bc_result option"
  ob_registered :: bool

definition out_new :: "nat \<Rightarrow> 'r option list \<Rightarrow> task_set \<Rightarrow> ('r out_bcast \<times> task_set) exec" where
  "out_new len outputs ts = do {
     ts \<leftarrow> ts_resize len ts;
     Some (\<lparr>ob_count = len, ob_outputs = replicate (min len (length outputs)) None @ drop len outputs,
       ob_pending = len, ob_state = FsUninit, ob_pc = BcIdle, ob_result = None, ob_registered = False\<rparr>, ts)
   }"

definition out_return :: "unit bc_result \<Rightarrow> 'r out_bcast \<Rightarrow> 'r out_bcast" where
  "out_return r b = b\<lparr>ob_pc := BcIdle, ob_result := Some r\<rparr>"

definition out_start :: "task_sys \<Rightarrow> 'r out_bcast \<Rightarrow> (task_sys \<times> 'r out_bcast) exec" where
  "out_start s b =
     (let b = b\<lparr>ob_result := None, ob_registered := False\<rparr> in
      case ob_state b of
        FsCompleted \<Rightarrow> None
      | FsUninit \<Rightarrow> do { s \<leftarrow> sy_discard s; Some (s, b\<lparr>ob_pc := if sy_owner s = OwIdle then BcFirst 0 else BcDiscard\<rparr>) }
      | FsPending \<Rightarrow> Some (s, b\<lparr>ob_pc := BcCheck\<rparr>))"

text \<open>Before the poll of future \<open>i\<close>: the output slot, the future and the waker are looked up.\<close>

definition out_lookup :: "nat \<Rightarrow> bc_pc \<Rightarrow> task_sys \<Rightarrow> 'r out_bcast \<Rightarrow> (task_sys \<times> 'r out_bcast) exec" where
  "out_lookup i pc s b = do {
     _ \<leftarrow> vec_get (ob_outputs b) i;
     _ \<leftarrow> (if i < ob_count b then Some () else None);
     _ \<leftarrow> waker_of i (sy_set s);
     Some (s, b\<lparr>ob_pc := pc\<rparr>)
   }"

definition out_ready :: "nat \<Rightarrow> 'r \<Rightarrow> 'r out_bcast \<Rightarrow> 'r out_bcast exec" where
  "out_ready i r b = do {
     outputs \<leftarrow> vec_set (ob_outputs b) i (Some r);
     if ob_pending b = 0 then None else Some (b\<lparr>ob_outputs := outputs, ob_pending := ob_pending b - 1\<rparr>)
   }"

definition out_first :: "nat \<Rightarrow> task_sys \<Rightarrow> 'r out_bcast \<Rightarrow> (task_sys \<times> 'r out_bcast) exec" where
  "out_first i s b =
     (if i < ob_count b then out_lookup i (BcFirstPoll i) s b
      else if ob_pending b = 0 then Some (s, out_return (BrOk ()) (b\<lparr>ob_state := FsCompleted\<rparr>))
      else Some (s, b\<lparr>ob_state := FsPending, ob_pc := BcCheck\<rparr>))"

definition out_first_polled :: "nat \<Rightarrow> 'r sent \<Rightarrow> task_sys \<Rightarrow> 'r out_bcast \<Rightarrow> (task_sys \<times> 'r out_bcast) exec" where
  "out_first_polled i outcome s b =
     (case outcome of
        SentOk r \<Rightarrow> do { b \<leftarrow> out_ready i r b; Some (s, b\<lparr>ob_pc := BcFirst (i + 1)\<rparr>) }
      | SentErr \<Rightarrow> Some (s, out_return BrErr (b\<lparr>ob_state := FsCompleted\<rparr>))
      | SentPending \<Rightarrow> Some (s, b\<lparr>ob_pc := BcFirst (i + 1)\<rparr>))"

definition out_check :: "task_sys \<Rightarrow> 'r out_bcast \<Rightarrow> (task_sys \<times> 'r out_bcast) exec" where
  "out_check s b = do {
     let b = (if \<not> has_scheduled (sy_set s) then b\<lparr>ob_registered := True\<rparr> else b\<lparr>ob_registered := False\<rparr>);
     s \<leftarrow> sy_take 1 s;
     Some (s, b\<lparr>ob_pc := BcTaking\<rparr>)
   }"

definition out_taking :: "bool \<Rightarrow> task_sys \<Rightarrow> 'r out_bcast \<Rightarrow> (task_sys \<times> 'r out_bcast) exec" where
  "out_taking weak s b = do {
     s \<leftarrow> sy_owner_step weak s;
     (case sy_owner s of
        OwIdle \<Rightarrow> Some (s, out_return BrPending b)
      | OwIter _ \<Rightarrow> Some (s, b\<lparr>ob_pc := BcIter\<rparr>)
      | _ \<Rightarrow> Some (s, b))
   }"

definition out_iter :: "task_sys \<Rightarrow> 'r out_bcast \<Rightarrow> (task_sys \<times> 'r out_bcast) exec" where
  "out_iter s b =
     (case sy_owner s of
        OwIter idx \<Rightarrow> do {
          (y, s) \<leftarrow> sy_iter idx s;
          (case y of
             Some i \<Rightarrow> do {
               output \<leftarrow> vec_get (ob_outputs b) i;
               if output \<noteq> None then Some (s, b) else out_lookup i (BcPoll i) s b
             }
           | None \<Rightarrow>
               if sy_owner s \<noteq> OwIdle then Some (s, b)
               else if ob_pending b = 0 then Some (s, out_return (BrOk ()) (b\<lparr>ob_state := FsCompleted\<rparr>))
               else Some (s, b\<lparr>ob_pc := BcCheck\<rparr>))
        }
      | _ \<Rightarrow> None)"

definition out_polled :: "nat \<Rightarrow> 'r sent \<Rightarrow> task_sys \<Rightarrow> 'r out_bcast \<Rightarrow> (task_sys \<times> 'r out_bcast) exec" where
  "out_polled i outcome s b =
     (case outcome of
        SentOk r \<Rightarrow> do { b \<leftarrow> out_ready i r b; Some (s, b\<lparr>ob_pc := BcIter\<rparr>) }
      | SentErr \<Rightarrow>
          (case sy_owner s of
             OwIter idx \<Rightarrow> Some (s\<lparr>sy_owner := OwDrop idx\<rparr>, b\<lparr>ob_state := FsCompleted, ob_pc := BcDropIter\<rparr>)
           | _ \<Rightarrow> None)
      | SentPending \<Rightarrow> Some (s, b\<lparr>ob_pc := BcIter\<rparr>))"

definition out_step :: "bool \<Rightarrow> 'r sent \<Rightarrow> task_sys \<Rightarrow> 'r out_bcast \<Rightarrow> (task_sys \<times> 'r out_bcast) exec" where
  "out_step weak outcome s b =
     (case ob_pc b of
        BcIdle \<Rightarrow> out_start s b
      | BcDiscard \<Rightarrow> do {
          s \<leftarrow> sy_owner_step weak s;
          Some (s, if sy_owner s = OwIdle then b\<lparr>ob_pc := BcFirst 0\<rparr> else b)
        }
      | BcFirst i \<Rightarrow> out_first i s b
      | BcFirstPoll i \<Rightarrow> out_first_polled i outcome s b
      | BcCheck \<Rightarrow> out_check s b
      | BcTaking \<Rightarrow> out_taking weak s b
      | BcIter \<Rightarrow> out_iter s b
      | BcPoll i \<Rightarrow> out_polled i outcome s b
      | BcDropIter \<Rightarrow> do {
          s \<leftarrow> sy_owner_step weak s;
          Some (s, if sy_owner s = OwIdle then out_return BrErr b else b)
        })"

subsection \<open>Event and query sources\<close>

text \<open>A sender future and its output share a slot.\<close>

datatype 'r slot_state = SfPending | SfReady 'r

record 'r src_bcast =
  sb_states :: "'r slot_state list"
  sb_pending :: nat
  sb_state :: future_state
  sb_pc :: bc_pc
  sb_result :: "'r slot_state list bc_result option"
  sb_registered :: bool

definition src_new :: "nat \<Rightarrow> ('r src_bcast \<times> task_set) exec" where
  "src_new len = do {
     ts \<leftarrow> ts_with_len len;
     Some (\<lparr>sb_states = replicate len SfPending, sb_pending = len, sb_state = FsUninit, sb_pc = BcIdle,
       sb_result = None, sb_registered = False\<rparr>, ts)
   }"

definition src_return :: "'r slot_state list bc_result \<Rightarrow> 'r src_bcast \<Rightarrow> 'r src_bcast" where
  "src_return r b = b\<lparr>sb_pc := BcIdle, sb_result := Some r\<rparr>"

text \<open>All sender futures are ready: their outputs are moved out.\<close>

definition src_complete :: "'r src_bcast \<Rightarrow> 'r src_bcast" where
  "src_complete b = src_return (BrOk (sb_states b)) (b\<lparr>sb_state := FsCompleted, sb_states := []\<rparr>)"

definition src_start :: "task_sys \<Rightarrow> 'r src_bcast \<Rightarrow> (task_sys \<times> 'r src_bcast) exec" where
  "src_start s b =
     (let b = b\<lparr>sb_result := None, sb_registered := False\<rparr> in
      case sb_state b of
        FsCompleted \<Rightarrow> None
      | FsUninit \<Rightarrow> Some (s, b\<lparr>sb_pc := BcFirst 0\<rparr>)
      | FsPending \<Rightarrow> Some (s, b\<lparr>sb_pc := BcCheck\<rparr>))"

definition src_lookup :: "bc_pc \<Rightarrow> nat \<Rightarrow> bc_pc \<Rightarrow> task_sys \<Rightarrow> 'r src_bcast \<Rightarrow> (task_sys \<times> 'r src_bcast) exec" where
  "src_lookup skip i pc s b = do {
     st \<leftarrow> vec_get (sb_states b) i;
     if st = SfPending then do {
       _ \<leftarrow> waker_of i (sy_set s);
       Some (s, b\<lparr>sb_pc := pc\<rparr>)
     }
     else Some (s, b\<lparr>sb_pc := skip\<rparr>)
   }"

definition src_ready :: "nat \<Rightarrow> 'r \<Rightarrow> 'r src_bcast \<Rightarrow> 'r src_bcast exec" where
  "src_ready i r b = do {
     states \<leftarrow> vec_set (sb_states b) i (SfReady r);
     if sb_pending b = 0 then None else Some (b\<lparr>sb_states := states, sb_pending := sb_pending b - 1\<rparr>)
   }"

definition src_first :: "nat \<Rightarrow> task_sys \<Rightarrow> 'r src_bcast \<Rightarrow> (task_sys \<times> 'r src_bcast) exec" where
  "src_first i s b =
     (if i < length (sb_states b) then src_lookup (BcFirst (i + 1)) i (BcFirstPoll i) s b
      else if sb_pending b = 0 then Some (s, src_complete b)
      else Some (s, b\<lparr>sb_state := FsPending, sb_pc := BcCheck\<rparr>))"

definition src_first_polled :: "nat \<Rightarrow> 'r sent \<Rightarrow> task_sys \<Rightarrow> 'r src_bcast \<Rightarrow> (task_sys \<times> 'r src_bcast) exec" where
  "src_first_polled i outcome s b =
     (case outcome of
        SentOk r \<Rightarrow> do { b \<leftarrow> src_ready i r b; Some (s, b\<lparr>sb_pc := BcFirst (i + 1)\<rparr>) }
      | SentErr \<Rightarrow> Some (s, src_return BrErr (b\<lparr>sb_state := FsCompleted\<rparr>))
      | SentPending \<Rightarrow> Some (s, b\<lparr>sb_pc := BcFirst (i + 1)\<rparr>))"

definition src_check :: "task_sys \<Rightarrow> 'r src_bcast \<Rightarrow> (task_sys \<times> 'r src_bcast) exec" where
  "src_check s b = do {
     let b = (if \<not> has_scheduled (sy_set s) then b\<lparr>sb_registered := True\<rparr> else b\<lparr>sb_registered := False\<rparr>);
     s \<leftarrow> sy_take 1 s;
     Some (s, b\<lparr>sb_pc := BcTaking\<rparr>)
   }"

definition src_taking :: "bool \<Rightarrow> task_sys \<Rightarrow> 'r src_bcast \<Rightarrow> (task_sys \<times> 'r src_bcast) exec" where
  "src_taking weak s b = do {
     s \<leftarrow> sy_owner_step weak s;
     (case sy_owner s of
        OwIdle \<Rightarrow> Some (s, src_return BrPending b)
      | OwIter _ \<Rightarrow> Some (s, b\<lparr>sb_pc := BcIter\<rparr>)
      | _ \<Rightarrow> Some (s, b))
   }"

definition src_iter :: "task_sys \<Rightarrow> 'r src_bcast \<Rightarrow> (task_sys \<times> 'r src_bcast) exec" where
  "src_iter s b =
     (case sy_owner s of
        OwIter idx \<Rightarrow> do {
          (y, s) \<leftarrow> sy_iter idx s;
          (case y of
             Some i \<Rightarrow> src_lookup BcIter i (BcPoll i) s b
           | None \<Rightarrow>
               if sy_owner s \<noteq> OwIdle then Some (s, b)
               else if sb_pending b = 0 then Some (s, src_complete b)
               else Some (s, b\<lparr>sb_pc := BcCheck\<rparr>))
        }
      | _ \<Rightarrow> None)"

definition src_polled :: "nat \<Rightarrow> 'r sent \<Rightarrow> task_sys \<Rightarrow> 'r src_bcast \<Rightarrow> (task_sys \<times> 'r src_bcast) exec" where
  "src_polled i outcome s b =
     (case outcome of
        SentOk r \<Rightarrow> do { b \<leftarrow> src_ready i r b; Some (s, b\<lparr>sb_pc := BcIter\<rparr>) }
      | SentErr \<Rightarrow>
          (case sy_owner s of
             OwIter idx \<Rightarrow> Some (s\<lparr>sy_owner := OwDrop idx\<rparr>, b\<lparr>sb_state := FsCompleted, sb_pc := BcDropIter\<rparr>)
           | _ \<Rightarrow> None)
      | SentPending \<Rightarrow> Some (s, b\<lparr>sb_pc := BcIter\<rparr>))"

definition src_step :: "bool \<Rightarrow> 'r sent \<Rightarrow> task_sys \<Rightarrow> 'r src_bcast \<Rightarrow> (task_sys \<times> 'r src_bcast) exec" where
  "src_step weak outcome s b =
     (case sb_pc b of
        BcIdle \<Rightarrow> src_start s b
      | BcDiscard \<Rightarrow> None
      | BcFirst i \<Rightarrow> src_first i s b
      | BcFirstPoll i \<Rightarrow> src_first_polled i outcome s b
      | BcCheck \<Rightarrow> src_check s b
      | BcTaking \<Rightarrow> src_taking weak s b
      | BcIter \<Rightarrow> src_iter s b
      | BcPoll i \<Rightarrow> src_polled i outcome s b
      | BcDropIter \<Rightarrow> do {
          s \<leftarrow> sy_owner_step weak s;
          Some (s, if sy_owner s = OwIdle then src_return BrErr b else b)
        })"

text \<open>\<open>ReplyIterator\<close>: the replies that it yields; a slot without reply makes it panic.\<close>

fun replies :: "'r slot_state list \<Rightarrow> 'r list exec" where
  "replies [] = Some []"
| "replies (SfReady r # states) = do { rs \<leftarrow> replies states; Some (r # rs) }"
| "replies (SfPending # states) = None"

subsection \<open>Runs\<close>

text \<open>A broadcast future is polled any number of times while wake calls go on; the log records the outcomes of the polls of sender
  futures. A wake call is a step of the task set that is not one of its owner. The wakers of a new task set are
  handed out with the first polls; those of the task set of an output port may be left from earlier broadcasts.\<close>

inductive env_step :: "task_sys \<Rightarrow> task_sys \<Rightarrow> bool" where
  call: "snd (sy_wake s k) = WakeDone \<Longrightarrow> i < length (ts_next (sy_set s)) \<Longrightarrow>
    env_step s (s\<lparr>sy_wake := (sy_wake s)(k := (i, WakeStart))\<rparr>)"
| wake: "sy_wake s k = (i, pc) \<Longrightarrow> wake_step weak i pc (sy_set s) = Some (pc', ts) \<Longrightarrow>
    env_step s (s\<lparr>sy_set := ts, sy_wake := (sy_wake s)(k := (i, pc'))\<rparr>)"

fun polls :: "bc_pc \<Rightarrow> 'r sent \<Rightarrow> (nat \<times> 'r sent) list" where
  "polls (BcFirstPoll i) outcome = [(i, outcome)]"
| "polls (BcPoll i) outcome = [(i, outcome)]"
| "polls _ outcome = []"

inductive out_reach :: "nat \<Rightarrow> task_sys \<Rightarrow> 'r out_bcast \<Rightarrow> (nat \<times> 'r sent) list \<Rightarrow> bool" for len where
  new: "ts_reach s \<Longrightarrow> sy_owner s = OwIdle \<Longrightarrow> out_new len outputs (sy_set s) = Some (b, ts) \<Longrightarrow> len \<le> length outputs \<Longrightarrow>
    out_reach len (s\<lparr>sy_set := ts\<rparr>) b []"
| env: "out_reach len s b log \<Longrightarrow> env_step s s' \<Longrightarrow> out_reach len s' b log"
| step: "out_reach len s b log \<Longrightarrow> out_step weak outcome s b = Some (s', b') \<Longrightarrow>
    out_reach len s' b' (log @ polls (ob_pc b) outcome)"

inductive src_reach :: "nat \<Rightarrow> task_sys \<Rightarrow> 'r src_bcast \<Rightarrow> (nat \<times> 'r sent) list \<Rightarrow> bool" for len where
  new: "src_new len = Some (b, ts) \<Longrightarrow> src_reach len (ts_init ts) b []"
| env: "src_reach len s b log \<Longrightarrow> sb_pc b \<noteq> BcIdle \<or> sb_state b \<noteq> FsUninit \<Longrightarrow> env_step s s' \<Longrightarrow> src_reach len s' b log"
| step: "src_reach len s b log \<Longrightarrow> src_step weak outcome s b = Some (s', b') \<Longrightarrow>
    src_reach len s' b' (log @ polls (sb_pc b) outcome)"

subsection \<open>Steps of the task set\<close>

lemma env_step_ts: "env_step s s' \<Longrightarrow> ts_step s s'"
  by (cases rule: env_step.cases) (auto intro: ts_step.call ts_step.wake)

lemma sy_take_ts: "sy_take n s = Some s' \<Longrightarrow> sy_owner s = OwIdle \<Longrightarrow> ts_step s s'"
  by (auto simp: sy_take_def split: Option.bind_splits intro: ts_step.take)

lemma sy_discard_ts: "sy_discard s = Some s' \<Longrightarrow> sy_owner s = OwIdle \<Longrightarrow> ts_step s s'"
  by (auto simp: sy_discard_def split: Option.bind_splits intro: ts_step.discard simp del: if_split)

lemma sy_iter_ts: "sy_iter idx s = Some (y, s') \<Longrightarrow> sy_owner s = OwIter idx \<Longrightarrow> ts_step s s'"
  by (auto simp: sy_iter_def split: Option.bind_splits intro: ts_step.iter)

lemma sy_owner_step_ts: "sy_owner_step weak s = Some s' \<Longrightarrow> s' = s \<or> ts_step s s'"
  by (auto simp: sy_owner_step_def split: owner_pc.splits Option.bind_splits intro: ts_step.cas ts_step.drop ts_step.drop_store simp del: if_split)

definition task_count_ok :: "nat \<Rightarrow> task_sys \<Rightarrow> bool" where
  "task_count_ok len s \<longleftrightarrow> ts_task_count (sy_set s) = len \<and> len \<le> length (ts_next (sy_set s))"

lemma env_step_keeps:
  "env_step s s' \<Longrightarrow> sy_owner s' = sy_owner s \<and> sy_armed s' = sy_armed s \<and> (task_count_ok len s' = task_count_ok len s)"
proof (induction rule: env_step.induct)
  case (wake s k i pc weak pc' ts)
  then show ?case
    by (cases pc) (auto simp: task_count_ok_def vec_set_def split: if_splits Option.bind_splits)
qed (simp add: task_count_ok_def)

lemma sy_keeps_count:
  "sy_take n s = Some s' \<Longrightarrow> task_count_ok len s \<Longrightarrow> task_count_ok len s'"
  "sy_discard s = Some s' \<Longrightarrow> task_count_ok len s \<Longrightarrow> task_count_ok len s'"
  "sy_iter idx s = Some (y, s') \<Longrightarrow> task_count_ok len s \<Longrightarrow> task_count_ok len s'"
  "sy_owner_step weak s = Some s' \<Longrightarrow> task_count_ok len s \<Longrightarrow> task_count_ok len s'"
  by (auto simp: task_count_ok_def sy_take_def take_scheduled_def sy_discard_def discard_scheduled_def sy_iter_def iter_next_def
      sy_owner_step_def take_cas_def iter_drop_def iter_drop_store_def vec_set_def Let_def
      split: Option.bind_splits if_splits owner_pc.splits)

lemma sy_total:
  assumes "ts_reach s"
  shows "sy_owner s = OwIdle \<Longrightarrow> \<exists>s' head. sy_take 1 s = Some s' \<and> sy_owner s' = OwTake False 1 head \<and> sy_set s' = sy_set s"
    "sy_owner s = OwIdle \<Longrightarrow> \<exists>s'. sy_discard s = Some s'"
    "sy_owner s = OwIter idx \<Longrightarrow> \<exists>y s'. sy_iter idx s = Some (y, s')"
    "\<exists>s'. sy_owner_step weak s = Some s'"
proof -
  obtain sch det where "ts_inv s sch det" using ts_reach_inv [OF assms] by blast
  then have n: "owner_next weak 1 s \<noteq> None" by (intro owner_next_ok) (auto simp: ts_inv_def)
  show "\<exists>s' head. sy_take 1 s = Some s' \<and> sy_owner s' = OwTake False 1 head \<and> sy_set s' = sy_set s" if "sy_owner s = OwIdle"
    by (simp add: sy_take_def take_scheduled_def)
  show "\<exists>s'. sy_discard s = Some s'" if "sy_owner s = OwIdle"
    by (simp add: sy_discard_def discard_scheduled_def)
  show "\<exists>y s'. sy_iter idx s = Some (y, s')" if "sy_owner s = OwIter idx"
    using n that by (auto simp: owner_next_def sy_iter_def)
  show "\<exists>s'. sy_owner_step weak s = Some s'"
    using n by (auto simp: owner_next_def sy_owner_step_def split: owner_pc.splits)
qed

fun discarding :: "owner_pc \<Rightarrow> bool" where
  "discarding (OwTake d _ _) = d"
| "discarding (OwDrop _) = True"
| "discarding (OwDropStore _ _) = True"
| "discarding _ = False"

fun dropping :: "owner_pc \<Rightarrow> bool" where
  "dropping (OwDrop _) = True"
| "dropping (OwDropStore _ _) = True"
| "dropping _ = False"

lemma sy_discard_owner: "sy_discard s = Some s' \<Longrightarrow> sy_owner s' = OwIdle \<or> discarding (sy_owner s')"
  by (auto simp: sy_discard_def discard_scheduled_def split: if_splits)

lemma discarding_step: "sy_owner_step weak s = Some s' \<Longrightarrow> discarding (sy_owner s) \<Longrightarrow> sy_owner s' = OwIdle \<or> discarding (sy_owner s')"
  by (cases "sy_owner s") (auto simp: sy_owner_step_def take_cas_def iter_drop_def iter_drop_store_def Let_def split: Option.bind_splits if_splits)

lemma dropping_step: "sy_owner_step weak s = Some s' \<Longrightarrow> dropping (sy_owner s) \<Longrightarrow> sy_owner s' = OwIdle \<or> dropping (sy_owner s')"
  by (cases "sy_owner s") (auto simp: sy_owner_step_def iter_drop_def iter_drop_store_def split: Option.bind_splits if_splits)

lemma taking_step:
  assumes "sy_owner_step weak s = Some s'" "sy_owner s = OwTake False 1 head"
  obtains "sy_owner s' = OwIdle" "sy_armed s' = 1" "\<not> has_scheduled (sy_set s)"
  | idx where "sy_owner s' = OwIter idx"
  | head' where "sy_owner s' = OwTake False 1 head'" "has_scheduled (sy_set s') = has_scheduled (sy_set s)"
proof (cases "ts_head (sy_set s) = head \<and> \<not> weak")
  case True
  have e: "has_scheduled (sy_set s) \<longleftrightarrow> ucast (head AND INDEX_MASK) \<noteq> EMPTY"
    using True head_word_cases [of head] by (metis has_scheduled_def head_word_consts(1) head_word_index head_word_inject)
  show thesis
    using assms True e that by (auto simp: sy_owner_step_def take_cas_def Let_def split: if_splits)
qed (use assms that in \<open>auto simp: sy_owner_step_def take_cas_def\<close>)

lemma sy_iter_owner:
  assumes "sy_iter idx s = Some (y, s')"
  shows "case y of Some i \<Rightarrow> i < ts_task_count (sy_set s) \<and> (\<exists>idx'. sy_owner s' = OwIter idx')
    | None \<Rightarrow> sy_owner s' = OwIdle \<or> (\<exists>idx'. sy_owner s' = OwIter idx')"
  using assms by (auto simp: sy_iter_def iter_next_def Let_def split: Option.bind_splits if_splits)

lemma env_step_scheduled:
  assumes "ts_reach s" "env_step s s'" "has_scheduled (sy_set s)"
  shows "has_scheduled (sy_set s')"
  using assms(2)
proof (cases rule: env_step.cases)
  case (wake k i pc weak pc' ts)
  obtain sch det where "ts_inv s sch det" using ts_reach_inv [OF assms(1)] by blast
  then have li: "links_ok (ts_next (sy_set s)) (sy_wake s) (set sch \<union> set det)" and ln: "length (ts_next (sy_set s)) \<le> task_limit"
    by (simp_all add: ts_inv_def lists_ok_def)
  have "has_scheduled ts"
  proof (cases pc)
    case (WakePush head)
    obtain c h where h: "head = head_word c h" by (rule head_word_cases)
    have "i < length (ts_next (sy_set s))" using links_okD(5) [OF li wake(2)] WakePush by simp
    with ln have i: "i < task_limit" by simp
    show ?thesis
      using wake(3) assms(3) i by (auto simp: WakePush has_scheduled_def h pushed_head_word head_word_consts(1) split: if_splits)
  qed (use wake(3) assms(3) in \<open>auto simp: has_scheduled_def vec_set_def split: if_splits Option.bind_splits\<close>)
  then show ?thesis by (simp add: wake)
qed (use assms in simp)

subsection \<open>Logs\<close>

definition of_task :: "nat \<Rightarrow> (nat \<times> 'r sent) list \<Rightarrow> 'r sent list" where
  "of_task i log = map snd (filter (\<lambda>p. fst p = i) log)"

lemma of_task_simps [simp]:
  "of_task i [] = []" "of_task i (log @ log') = of_task i log @ of_task i log'"
  "of_task i [(j, r)] = (if i = j then [r] else [])"
  by (auto simp: of_task_def)

text \<open>A sender future is pending at every poll but the last one; \<open>err\<close> is the one that failed.\<close>

definition log_ok :: "nat \<Rightarrow> 'r option list \<Rightarrow> nat option \<Rightarrow> (nat \<times> 'r sent) list \<Rightarrow> bool" where
  "log_ok len outputs err log \<longleftrightarrow> (\<forall>p \<in> set log. fst p < len) \<and> (\<forall>i. err = Some i \<longrightarrow> i < len \<and> outputs ! i = None) \<and>
     (\<forall>i < len. \<exists>n. of_task i log = replicate n SentPending @
       (case outputs ! i of Some r \<Rightarrow> [SentOk r] | None \<Rightarrow> if err = Some i then [SentErr] else []))"

lemma log_ok_new: "(\<forall>i < len. outputs ! i = None) \<Longrightarrow> log_ok len outputs None []"
  by (simp add: log_ok_def)

lemma log_ok_poll:
  assumes "log_ok len outputs None log" "i < len" "outputs ! i = None" "len \<le> length outputs"
  shows "log_ok len outputs None (log @ [(i, SentPending)])"
    "log_ok len (outputs[i := Some r]) None (log @ [(i, SentOk r)])"
    "log_ok len outputs (Some i) (log @ [(i, SentErr)])"
proof -
  obtain n where n: "of_task i log = replicate n SentPending"
    using assms(1-3) by (auto simp: log_ok_def)
  have o: "\<exists>n. of_task j log = replicate n SentPending @ (case outputs ! j of Some r \<Rightarrow> [SentOk r] | None \<Rightarrow> [])" if "j < len" for j
    using assms(1) that by (auto simp: log_ok_def)
  have b: "\<forall>p \<in> set log. fst p < len" using assms(1) by (simp add: log_ok_def)
  have p: "\<exists>m. of_task i log @ [SentPending] = replicate m SentPending"
    by (rule exI [of _ "Suc n"]) (simp add: n replicate_append_same)
  have m: "\<exists>m. of_task j (log @ [(i, SentPending)]) = replicate m SentPending @ (case outputs ! j of Some r \<Rightarrow> [SentOk r] | None \<Rightarrow> [])"
    if "j < len" for j
    using o [OF that] p assms(3) by (cases "j = i") auto
  have "\<forall>p \<in> set (log @ [(i, SentPending)]). fst p < len" using b assms(2) by auto
  with m show "log_ok len outputs None (log @ [(i, SentPending)])"
    unfolding log_ok_def by (simp del: of_task_simps)
  show "log_ok len (outputs[i := Some r]) None (log @ [(i, SentOk r)])"
    unfolding log_ok_def using o b assms(2,4) n by (auto simp: nth_list_update)
  show "log_ok len outputs (Some i) (log @ [(i, SentErr)])"
    unfolding log_ok_def using o b assms(2,3) n by auto
qed

text \<open>The outputs that are missing.\<close>

definition missing :: "nat \<Rightarrow> 'r option list \<Rightarrow> nat" where
  "missing len outputs = length (filter (\<lambda>out. out = None) (take len outputs))"

lemma missing_card: "len \<le> length outputs \<Longrightarrow> missing len outputs = card {i. i < len \<and> outputs ! i = None}"
  by (simp add: missing_def length_filter_conv_card min_def cong: conj_cong)

lemma missing_set:
  assumes "i < len" "len \<le> length outputs" "outputs ! i = None"
  shows "missing len outputs = Suc (missing len (outputs[i := Some r]))"
proof -
  have "{j. j < len \<and> outputs ! j = None} = insert i {j. j < len \<and> outputs[i := Some r] ! j = None}"
    using assms by (auto simp: nth_list_update)
  then show ?thesis using assms by (simp add: missing_card)
qed

lemma missing_zero: "len \<le> length outputs \<Longrightarrow> missing len outputs = 0 \<longleftrightarrow> (\<forall>i < len. outputs ! i \<noteq> None)"
  by (auto simp: missing_card)

subsection \<open>Invariant\<close>

fun out_pc_ok :: "bc_pc \<Rightarrow> task_sys \<Rightarrow> 'r out_bcast \<Rightarrow> nat option \<Rightarrow> (nat \<times> 'r sent) list \<Rightarrow> bool" where
  "out_pc_ok BcIdle s b err log \<longleftrightarrow> sy_owner s = OwIdle \<and>
     (case ob_state b of
        FsUninit \<Rightarrow> log = [] \<and> ob_result b = None \<and> (\<forall>i < ob_count b. ob_outputs b ! i = None) \<and> err = None
      | FsPending \<Rightarrow> ob_result b = Some BrPending \<and> ob_registered b \<and> sy_armed s = 1 \<and> 0 < ob_pending b \<and> err = None
      | FsCompleted \<Rightarrow> (ob_result b = Some (BrOk ()) \<and> ob_pending b = 0 \<and> err = None) \<or> (ob_result b = Some BrErr \<and> err \<noteq> None))"
| "out_pc_ok BcDiscard s b err log \<longleftrightarrow> discarding (sy_owner s) \<and> ob_state b = FsUninit \<and> log = [] \<and> err = None \<and>
     (\<forall>i < ob_count b. ob_outputs b ! i = None) \<and> ob_result b = None"
| "out_pc_ok (BcFirst i) s b err log \<longleftrightarrow> sy_owner s = OwIdle \<and> ob_state b = FsUninit \<and> err = None \<and> i \<le> ob_count b \<and>
     (\<forall>j < ob_count b. i \<le> j \<longrightarrow> ob_outputs b ! j = None) \<and> ob_result b = None"
| "out_pc_ok (BcFirstPoll i) s b err log \<longleftrightarrow> sy_owner s = OwIdle \<and> ob_state b = FsUninit \<and> err = None \<and> i < ob_count b \<and>
     (\<forall>j < ob_count b. i \<le> j \<longrightarrow> ob_outputs b ! j = None) \<and> ob_result b = None"
| "out_pc_ok BcCheck s b err log \<longleftrightarrow> sy_owner s = OwIdle \<and> ob_state b = FsPending \<and> err = None \<and> 0 < ob_pending b \<and> ob_result b = None"
| "out_pc_ok BcTaking s b err log \<longleftrightarrow> (\<exists>head. sy_owner s = OwTake False 1 head) \<and> ob_state b = FsPending \<and> err = None \<and>
     0 < ob_pending b \<and> (ob_registered b \<or> has_scheduled (sy_set s)) \<and> ob_result b = None"
| "out_pc_ok BcIter s b err log \<longleftrightarrow> (\<exists>idx. sy_owner s = OwIter idx) \<and> ob_state b = FsPending \<and> err = None \<and> ob_result b = None"
| "out_pc_ok (BcPoll i) s b err log \<longleftrightarrow> (\<exists>idx. sy_owner s = OwIter idx) \<and> ob_state b = FsPending \<and> err = None \<and>
     i < ob_count b \<and> ob_outputs b ! i = None \<and> ob_result b = None"
| "out_pc_ok BcDropIter s b err log \<longleftrightarrow> dropping (sy_owner s) \<and> ob_state b = FsCompleted \<and> err \<noteq> None \<and> ob_result b = None"

definition out_inv :: "nat \<Rightarrow> task_sys \<Rightarrow> 'r out_bcast \<Rightarrow> nat option \<Rightarrow> (nat \<times> 'r sent) list \<Rightarrow> bool" where
  "out_inv len s b err log \<longleftrightarrow> ts_reach s \<and> task_count_ok len s \<and> ob_count b = len \<and> len \<le> length (ob_outputs b) \<and>
     ob_pending b = missing len (ob_outputs b) \<and> log_ok len (ob_outputs b) err log \<and> out_pc_ok (ob_pc b) s b err log"

lemma out_new_inv:
  assumes "ts_reach s" "sy_owner s = OwIdle" "out_new len outputs (sy_set s) = Some (b, ts)" "len \<le> length outputs"
  shows "out_inv len (s\<lparr>sy_set := ts\<rparr>) b None []"
proof -
  have r: "ts_resize len (sy_set s) = Some ts" and b: "b = \<lparr>ob_count = len, ob_outputs = replicate len None @ drop len outputs,
       ob_pending = len, ob_state = FsUninit, ob_pc = BcIdle, ob_result = None, ob_registered = False\<rparr>"
    using assms(3,4) by (auto simp: out_new_def min_def split: Option.bind_splits)
  from ts_reach.step [OF assms(1) ts_step.resize [OF assms(2) r]] have "ts_reach (s\<lparr>sy_set := ts\<rparr>)" .
  moreover have "task_count_ok len (s\<lparr>sy_set := ts\<rparr>)"
    using r by (auto simp: ts_resize_def task_count_ok_def split: if_splits)
  moreover have "missing len (replicate len None @ drop len outputs) = len"
    by (simp add: missing_def)
  ultimately show ?thesis
    using assms(2,4) by (auto simp: out_inv_def b nth_append intro!: log_ok_new)
qed

lemma out_env_inv:
  assumes "out_inv len s b err log" "env_step s s'"
  shows "out_inv len s' b err log"
proof -
  have r: "ts_reach s" using assms(1) by (simp add: out_inv_def)
  note e = env_step_keeps [OF assms(2)]
  have "out_pc_ok (ob_pc b) s' b err log"
    using assms(1) e env_step_scheduled [OF r assms(2)] by (cases "ob_pc b") (auto simp: out_inv_def split: future_state.splits)
  with assms e ts_reach.step [OF r env_step_ts [OF assms(2)]] show ?thesis
    by (simp add: out_inv_def)
qed

text \<open>The branches of a poll. The hypotheses of a step are unpacked once.\<close>

lemma out_invD:
  assumes "out_inv len s b err log"
  shows "ts_reach s" "task_count_ok len s" "ob_count b = len" "len \<le> length (ob_outputs b)"
    "ob_pending b = missing len (ob_outputs b)" "log_ok len (ob_outputs b) err log" "out_pc_ok (ob_pc b) s b err log"
  using assms by (simp_all add: out_inv_def)

text \<open>A step of the poll that only moves on, with or without a step of the owner.\<close>

lemma out_inv_move:
  assumes "out_inv len s b err log" "s' = s \<or> ts_step s s'" "task_count_ok len s'"
    and "ob_count b' = ob_count b" "ob_outputs b' = ob_outputs b" "ob_pending b' = ob_pending b"
    and "out_pc_ok (ob_pc b') s' b' err log"
  shows "out_inv len s' b' err log"
  using assms out_invD [OF assms(1)] ts_reach.step by (auto simp: out_inv_def)

lemma out_start_inv:
  assumes "out_inv len s b err log" "ob_pc b = BcIdle" "out_start s b = Some (s', b')"
  shows "out_inv len s' b' err log"
proof -
  note d = out_invD [OF assms(1)]
  show ?thesis
  proof (cases "ob_state b")
    case FsUninit
    with assms(3) obtain s1 where s1: "sy_discard s = Some s1" "s' = s1"
      and b': "b' = b\<lparr>ob_result := None, ob_registered := False, ob_pc := if sy_owner s1 = OwIdle then BcFirst 0 else BcDiscard\<rparr>"
      by (auto simp: out_start_def split: Option.bind_splits)
    show ?thesis
      using d(7) assms(2) FsUninit sy_discard_ts [OF s1(1)] sy_keeps_count(2) [OF s1(1) d(2)] sy_discard_owner [OF s1(1)]
      by (intro out_inv_move [OF assms(1)]) (auto simp: s1(2) b')
  next
    case FsPending
    with assms(3) have e: "s' = s" "b' = b\<lparr>ob_result := None, ob_registered := False, ob_pc := BcCheck\<rparr>"
      by (auto simp: out_start_def)
    show ?thesis
      using d(2,7) assms(2) FsPending by (intro out_inv_move [OF assms(1)]) (auto simp: e)
  qed (use assms(3) in \<open>simp add: out_start_def\<close>)
qed

lemma out_first_inv:
  assumes "out_inv len s b err log" "ob_pc b = BcFirst i" "out_first i s b = Some (s', b')"
  shows "out_inv len s' b' err log"
proof -
  note d = out_invD [OF assms(1)]
  show ?thesis
  proof (cases "i < ob_count b")
    case True
    then have e: "s' = s" "b' = b\<lparr>ob_pc := BcFirstPoll i\<rparr>"
      using assms(3) by (auto simp: out_first_def out_lookup_def split: Option.bind_splits if_splits)
    show ?thesis using d(2,7) assms(2) True by (intro out_inv_move [OF assms(1)]) (auto simp: e)
  next
    case False
    then have e: "s' = s" "b' = (if ob_pending b = 0 then out_return (BrOk ()) (b\<lparr>ob_state := FsCompleted\<rparr>) else b\<lparr>ob_state := FsPending, ob_pc := BcCheck\<rparr>)"
      using assms(3) by (auto simp: out_first_def split: if_splits)
    show ?thesis using d(2,7) assms(2) by (intro out_inv_move [OF assms(1)]) (auto simp: e out_return_def)
  qed
qed

text \<open>The outcome of a poll.\<close>

lemma out_ready_inv:
  assumes "out_ready i r b = Some b1" "log_ok len (ob_outputs b) None log" "i < len" "ob_outputs b ! i = None"
    "len \<le> length (ob_outputs b)" "ob_pending b = missing len (ob_outputs b)"
  shows "b1 = b\<lparr>ob_outputs := (ob_outputs b)[i := Some r], ob_pending := ob_pending b - 1\<rparr>"
    "log_ok len (ob_outputs b1) None (log @ [(i, SentOk r)])" "ob_pending b1 = missing len (ob_outputs b1)"
proof -
  show b1: "b1 = b\<lparr>ob_outputs := (ob_outputs b)[i := Some r], ob_pending := ob_pending b - 1\<rparr>"
    using assms(1,3,5) by (auto simp: out_ready_def split: if_splits)
  show "log_ok len (ob_outputs b1) None (log @ [(i, SentOk r)])"
    using log_ok_poll(2) [OF assms(2-5)] by (simp add: b1)
  show "ob_pending b1 = missing len (ob_outputs b1)"
    using missing_set [OF assms(3,5,4), of r] assms(6) by (simp add: b1)
qed

lemma out_first_polled_inv:
  assumes "out_inv len s b err log" "ob_pc b = BcFirstPoll i" "out_first_polled i outcome s b = Some (s', b')"
  shows "\<exists>err'. out_inv len s' b' err' (log @ [(i, outcome)])"
proof -
  note d = out_invD [OF assms(1)]
  have pc: "sy_owner s = OwIdle" "ob_state b = FsUninit" "err = None" "i < len" "ob_result b = None"
    "\<forall>j < len. i \<le> j \<longrightarrow> ob_outputs b ! j = None"
    using d(3,7) assms(2) by auto
  note l = log_ok_poll [OF d(6) [unfolded pc(3)] pc(4) _ d(4)]
  have n: "ob_outputs b ! i = None" using pc(4,6) by simp
  show ?thesis
  proof (cases outcome)
    case (SentOk r)
    then obtain b1 where b1: "out_ready i r b = Some b1" "s' = s" "b' = b1\<lparr>ob_pc := BcFirst (i + 1)\<rparr>"
      using assms(3) by (auto simp: out_first_polled_def split: Option.bind_splits)
    note r = out_ready_inv [OF b1(1) d(6) [unfolded pc(3)] pc(4) n d(4,5)]
    show ?thesis
      using d(1-4) r(2,3) pc by (intro exI [of _ None]) (auto simp: out_inv_def b1 r(1) SentOk nth_list_update)
  next
    case SentErr
    then have e: "s' = s" "b' = out_return BrErr (b\<lparr>ob_state := FsCompleted\<rparr>)"
      using assms(3) by (auto simp: out_first_polled_def)
    show ?thesis
      using d(1-5) l(3) [OF n] pc by (intro exI [of _ "Some i"]) (auto simp: out_inv_def e SentErr out_return_def)
  next
    case SentPending
    then have e: "s' = s" "b' = b\<lparr>ob_pc := BcFirst (i + 1)\<rparr>"
      using assms(3) by (auto simp: out_first_polled_def)
    show ?thesis
      using d(1-5) l(1) [OF n] pc by (intro exI [of _ None]) (auto simp: out_inv_def e SentPending)
  qed
qed

lemma out_check_inv:
  assumes "out_inv len s b err log" "ob_pc b = BcCheck" "out_check s b = Some (s', b')"
  shows "out_inv len s' b' err log"
proof -
  note d = out_invD [OF assms(1)]
  have o: "sy_owner s = OwIdle" using d(7) assms(2) by simp
  obtain s1 head where s1: "sy_take 1 s = Some s1" "sy_owner s1 = OwTake False 1 head" "sy_set s1 = sy_set s"
    using sy_total(1) [OF d(1) o] by blast
  then have e: "s' = s1" "b' = b\<lparr>ob_registered := \<not> has_scheduled (sy_set s), ob_pc := BcTaking\<rparr>"
    using assms(3) by (auto simp: out_check_def split: if_splits)
  show ?thesis
    using d(7) assms(2) sy_take_ts [OF s1(1) o] sy_keeps_count(1) [OF s1(1) d(2)] s1(2,3)
    by (intro out_inv_move [OF assms(1)]) (auto simp: e)
qed

lemma out_taking_inv:
  assumes "out_inv len s b err log" "ob_pc b = BcTaking" "out_taking weak s b = Some (s', b')"
  shows "out_inv len s' b' err log"
proof -
  note d = out_invD [OF assms(1)]
  obtain head where o: "sy_owner s = OwTake False 1 head" using d(7) assms(2) by auto
  obtain s1 where s1: "sy_owner_step weak s = Some s1" using sy_total(4) [OF d(1)] by blast
  note k = sy_owner_step_ts [OF s1] sy_keeps_count(4) [OF s1 d(2)]
  from s1 o show ?thesis
  proof (cases rule: taking_step)
    case 1
    then have e: "s' = s1" "b' = out_return BrPending b" using assms(3) s1 by (auto simp: out_taking_def)
    show ?thesis using d(7) assms(2) k 1 by (intro out_inv_move [OF assms(1)]) (auto simp: e out_return_def)
  next
    case (2 idx)
    then have e: "s' = s1" "b' = b\<lparr>ob_pc := BcIter\<rparr>" using assms(3) s1 by (auto simp: out_taking_def)
    show ?thesis using d(7) assms(2) k 2 by (intro out_inv_move [OF assms(1)]) (auto simp: e)
  next
    case (3 head')
    then have e: "s' = s1" "b' = b" using assms(3) s1 by (auto simp: out_taking_def)
    show ?thesis using d(7) assms(2) k 3 by (intro out_inv_move [OF assms(1)]) (auto simp: e)
  qed
qed

lemma out_iter_inv:
  assumes "out_inv len s b err log" "ob_pc b = BcIter" "out_iter s b = Some (s', b')"
  shows "out_inv len s' b' err log"
proof -
  note d = out_invD [OF assms(1)]
  obtain idx where o: "sy_owner s = OwIter idx" using d(7) assms(2) by auto
  obtain y s1 where s1: "sy_iter idx s = Some (y, s1)" using sy_total(3) [OF d(1) o] by blast
  note k = sy_iter_ts [OF s1 o] sy_keeps_count(3) [OF s1 d(2)] and ow = sy_iter_owner [OF s1]
  show ?thesis
  proof (cases y)
    case (Some i)
    have i: "i < len" using ow d(2) Some by (simp add: task_count_ok_def)
    then have e: "s' = s1" "b' = (if ob_outputs b ! i \<noteq> None then b else b\<lparr>ob_pc := BcPoll i\<rparr>)"
      using assms(3) d(3,4) by (auto simp: out_iter_def o s1 Some out_lookup_def split: Option.bind_splits if_splits)
    show ?thesis using d(3,7) assms(2) k ow i Some by (intro out_inv_move [OF assms(1)]) (auto simp: e)
  next
    case None
    then have e: "s' = s1" "b' = (if sy_owner s1 \<noteq> OwIdle then b else if ob_pending b = 0
        then out_return (BrOk ()) (b\<lparr>ob_state := FsCompleted\<rparr>) else b\<lparr>ob_pc := BcCheck\<rparr>)"
      using assms(3) by (auto simp: out_iter_def o s1 split: if_splits)
    show ?thesis using d(7) assms(2) k ow None by (intro out_inv_move [OF assms(1)]) (auto simp: e out_return_def)
  qed
qed

lemma out_polled_inv:
  assumes "out_inv len s b err log" "ob_pc b = BcPoll i" "out_polled i outcome s b = Some (s', b')"
  shows "\<exists>err'. out_inv len s' b' err' (log @ [(i, outcome)])"
proof -
  note d = out_invD [OF assms(1)]
  obtain idx where o: "sy_owner s = OwIter idx" using d(7) assms(2) by auto
  have pc: "ob_state b = FsPending" "err = None" "i < len" "ob_result b = None" "ob_outputs b ! i = None"
    using d(3,7) assms(2) by auto
  note l = log_ok_poll [OF d(6) [unfolded pc(2)] pc(3,5) d(4)]
  show ?thesis
  proof (cases outcome)
    case (SentOk r)
    then obtain b1 where b1: "out_ready i r b = Some b1" "s' = s" "b' = b1\<lparr>ob_pc := BcIter\<rparr>"
      using assms(3) by (auto simp: out_polled_def split: Option.bind_splits)
    note r = out_ready_inv [OF b1(1) d(6) [unfolded pc(2)] pc(3,5) d(4,5)]
    show ?thesis
      using d(1-4) r(2,3) pc o by (intro exI [of _ None]) (auto simp: out_inv_def b1 r(1) SentOk)
  next
    case SentErr
    then have e: "s' = s\<lparr>sy_owner := OwDrop idx\<rparr>" "b' = b\<lparr>ob_state := FsCompleted, ob_pc := BcDropIter\<rparr>"
      using assms(3) o by (auto simp: out_polled_def)
    show ?thesis
      using d(1-5) l(3) pc ts_reach.step [OF d(1) ts_step.drop_iter [OF o]]
      by (intro exI [of _ "Some i"]) (auto simp: out_inv_def e SentErr task_count_ok_def)
  next
    case SentPending
    then have e: "s' = s" "b' = b\<lparr>ob_pc := BcIter\<rparr>"
      using assms(3) by (auto simp: out_polled_def)
    show ?thesis
      using d(1-5) l(1) pc o by (intro exI [of _ None]) (auto simp: out_inv_def e SentPending)
  qed
qed

lemma out_step_inv:
  assumes "out_inv len s b err log" "out_step weak outcome s b = Some (s', b')"
  shows "\<exists>err'. out_inv len s' b' err' (log @ polls (ob_pc b) outcome)"
proof -
  note d = out_invD [OF assms(1)]
  obtain s1 where s1: "sy_owner_step weak s = Some s1" using sy_total(4) [OF d(1)] by blast
  note k = sy_owner_step_ts [OF s1] sy_keeps_count(4) [OF s1 d(2)]
  show ?thesis
  proof (cases "ob_pc b")
    case BcDiscard
    then have e: "s' = s1" "b' = (if sy_owner s1 = OwIdle then b\<lparr>ob_pc := BcFirst 0\<rparr> else b)"
      using assms(2) s1 by (auto simp: out_step_def)
    have "out_inv len s' b' err log"
      using d(7) BcDiscard k discarding_step [OF s1] by (intro out_inv_move [OF assms(1)]) (auto simp: e)
    then show ?thesis using BcDiscard by auto
  next
    case BcDropIter
    then have e: "s' = s1" "b' = (if sy_owner s1 = OwIdle then out_return BrErr b else b)"
      using assms(2) s1 by (auto simp: out_step_def)
    have "out_inv len s' b' err log"
      using d(7) BcDropIter k dropping_step [OF s1] by (intro out_inv_move [OF assms(1)]) (auto simp: e out_return_def)
    then show ?thesis using BcDropIter by auto
  qed (use assms(2) out_start_inv [OF assms(1)] out_first_inv [OF assms(1)] out_first_polled_inv [OF assms(1)]
      out_check_inv [OF assms(1)] out_taking_inv [OF assms(1)] out_iter_inv [OF assms(1)] out_polled_inv [OF assms(1)]
      in \<open>auto simp: out_step_def\<close>)
qed

lemma out_reach_inv: "out_reach len s b log \<Longrightarrow> \<exists>err. out_inv len s b err log"
proof (induction rule: out_reach.induct)
  case (new s outputs b ts)
  then show ?case using out_new_inv by blast
next
  case (env s b log s')
  then show ?case using out_env_inv by blast
next
  case (step s b log weak outcome s' b')
  then show ?case using out_step_inv by blast
qed

lemma out_step_total:
  assumes "out_inv len s b err log" "\<not> (ob_pc b = BcIdle \<and> ob_state b = FsCompleted)"
  shows "out_step weak outcome s b \<noteq> None"
proof -
  note d = out_invD [OF assms(1)]
  obtain s1 where s1: "sy_owner_step weak s = Some s1" using sy_total(4) [OF d(1)] by blast
  have lookup: "out_lookup i pc s' b \<noteq> None" if "i < len" "task_count_ok len s'" for i pc s'
    using that d(3,4) by (auto simp: out_lookup_def waker_of_def task_count_ok_def)
  have ready: "out_ready i r b \<noteq> None" if "i < len" "ob_outputs b ! i = None" for i r
    using that d(4,5) missing_set [OF that(1) d(4) that(2), of r] by (simp add: out_ready_def)
  show ?thesis
  proof (cases "ob_pc b")
    case BcIdle
    then show ?thesis
      using assms(2) d(7) sy_total(2) [OF d(1)] by (cases "ob_state b") (auto simp: out_step_def out_start_def)
  next
    case (BcFirst i)
    then show ?thesis using d(2,3,7) lookup by (auto simp: out_step_def out_first_def)
  next
    case (BcFirstPoll i)
    then have "i < len" "ob_outputs b ! i = None" using d(3,7) by auto
    note r = ready [OF this]
    show ?thesis
      by (cases outcome) (simp_all add: out_step_def BcFirstPoll out_first_polled_def Option.bind_eq_None_conv r del: not_None_eq)
  next
    case BcCheck
    then show ?thesis using d(7) sy_total(1) [OF d(1)] by (auto simp: out_step_def out_check_def)
  next
    case BcTaking
    then show ?thesis using s1 by (auto simp: out_step_def out_taking_def split: owner_pc.splits)
  next
    case BcIter
    then obtain idx where o: "sy_owner s = OwIter idx" using d(7) by auto
    obtain y s2 where s2: "sy_iter idx s = Some (y, s2)" using sy_total(3) [OF d(1) o] by blast
    show ?thesis
      using sy_iter_owner [OF s2] sy_keeps_count(3) [OF s2 d(2)] lookup [of _ s2] d(2,4)
      by (cases y) (auto simp: out_step_def BcIter out_iter_def o s2 task_count_ok_def)
  next
    case (BcPoll i)
    then obtain idx where "i < len" "ob_outputs b ! i = None" and o: "sy_owner s = OwIter idx" using d(3,7) by auto
    note r = ready [OF this(1,2)]
    show ?thesis
      by (cases outcome) (simp_all add: out_step_def BcPoll out_polled_def o Option.bind_eq_None_conv r del: not_None_eq)
  qed (use s1 in \<open>auto simp: out_step_def\<close>)
qed

subsection \<open>Properties\<close>

lemma output_broadcast_joins_result:
  assumes "out_inv len s b err log" "ob_result b = Some (BrOk ())"
  shows "\<exists>rs. length rs = len \<and> take len (ob_outputs b) = map Some rs \<and>
    (\<forall>i < len. \<exists>n. of_task i log = replicate n SentPending @ [SentOk (rs ! i)])"
proof -
  note d = out_invD [OF assms(1)]
  have "ob_pc b = BcIdle" using d(7) assms(2) by (cases "ob_pc b") auto
  with d(7) assms(2) have "ob_pending b = 0" by (auto split: future_state.splits)
  then have all: "ob_outputs b ! i \<noteq> None" if "i < len" for i
    using that d(5) missing_zero [OF d(4)] by simp
  let ?rs = "map the (take len (ob_outputs b))"
  have o: "ob_outputs b ! i = Some (?rs ! i)" if "i < len" for i
    using all [OF that] that d(4) by simp
  have "take len (ob_outputs b) = map Some ?rs"
    using all d(4) by (intro nth_equalityI) auto
  moreover have "\<exists>n. of_task i log = replicate n SentPending @ [SentOk (?rs ! i)]" if "i < len" for i
    using d(6) that unfolding log_ok_def o [OF that] by (metis (no_types, lifting) o option.simps(5))
  ultimately show ?thesis
    using d(4) by (intro exI [of _ ?rs]) simp
qed

text \<open>C30: Joining the sender futures of a broadcast from an output port. Whatever the sender futures and the wakers do, a poll does not panic
  unless the broadcast was complete; a sender future is polled until it is ready for the first time and
  never again; the broadcast succeeds only if all sender futures did, and its outputs are then theirs, in
  order; it fails only if one of them failed; and when it is pending, the waker of the parent is registered and the next wake of a
  sub-task notifies it.\<close>

theorem output_broadcast_joins:
  assumes "out_reach len s b log"
  shows "((ob_pc b = BcIdle \<and> ob_state b = FsCompleted) \<or> out_step weak outcome s b \<noteq> None) \<and>
    (\<forall>p \<in> set log. fst p < len) \<and>
    (\<forall>i < len. \<exists>n tl. of_task i log = replicate n SentPending @ tl \<and> length tl \<le> 1) \<and>
    (case ob_result b of
       Some (BrOk _) \<Rightarrow> \<exists>rs. length rs = len \<and> take len (ob_outputs b) = map Some rs \<and>
         (\<forall>i < len. \<exists>n. of_task i log = replicate n SentPending @ [SentOk (rs ! i)])
     | Some BrErr \<Rightarrow> SentErr \<in> snd ` set log
     | Some BrPending \<Rightarrow> ob_registered b \<and> sy_owner s = OwIdle \<and> sy_armed s = 1 \<and> (\<exists>i < len. ob_outputs b ! i = None)
     | None \<Rightarrow> True)" (is "_ \<and> _ \<and> _ \<and> ?result")
proof -
  obtain err where inv: "out_inv len s b err log" using out_reach_inv [OF assms] by blast
  note d = out_invD [OF inv]
  have polled: "\<exists>n tl. of_task i log = replicate n SentPending @ tl \<and> length tl \<le> 1" if i: "i < len" for i
  proof -
    let ?tl = "case ob_outputs b ! i of Some r \<Rightarrow> [SentOk r] | None \<Rightarrow> if err = Some i then [SentErr] else []"
    obtain n where "of_task i log = replicate n SentPending @ ?tl"
      using d(6) i by (auto simp: log_ok_def)
    moreover have "length ?tl \<le> 1" by (simp split: option.split)
    ultimately show ?thesis by blast
  qed
  have idle: "ob_pc b = BcIdle" if "ob_result b \<noteq> None"
    using d(7) that by (cases "ob_pc b") auto
  have ?result
  proof (cases "ob_result b")
    case (Some r)
    note pc = idle [unfolded Some] d(7)
    show ?thesis
    proof (cases r)
      case BrPending
      with pc Some d(4,5) missing_zero [OF d(4)] show ?thesis by (auto split: future_state.splits)
    next
      case BrErr
      with pc Some obtain i where i: "err = Some i" by (auto split: future_state.splits)
      with d(6) have "i < len" "ob_outputs b ! i = None" by (auto simp: log_ok_def)
      with d(6) i obtain n where "of_task i log = replicate n SentPending @ [SentErr]" by (auto simp: log_ok_def)
      then have "SentErr \<in> set (of_task i log)" by simp
      then have "SentErr \<in> snd ` set log" by (auto simp: of_task_def)
      then show ?thesis by (simp add: Some BrErr)
    next
      case (BrOk u)
      with output_broadcast_joins_result [OF inv] show ?thesis by (simp add: Some)
    qed
  qed simp
  with out_step_total [OF inv] polled d(6) show ?thesis
    unfolding log_ok_def by blast
qed

text \<open>A broadcast of two events that are both sent at once.\<close>

definition two_tasks :: task_sys where
  "two_tasks = ts_init \<lparr>ts_next = [SLEEPING, SLEEPING], ts_head = ucast EMPTY, ts_task_count = 2, ts_notifications = 0\<rparr>"

definition two_sends :: "bc_pc \<Rightarrow> nat option list \<Rightarrow> nat \<Rightarrow> nat out_bcast" where
  "two_sends pc outputs pending = \<lparr>ob_count = 2, ob_outputs = outputs, ob_pending = pending, ob_state = FsUninit, ob_pc = pc,
     ob_result = None, ob_registered = False\<rparr>"

lemma two_sends_reach:
  "out_reach 2 two_tasks (out_return (BrOk ()) (two_sends (BcFirst 2) [Some 5, Some 7] 0\<lparr>ob_state := FsCompleted\<rparr>))
     [(0, SentOk 5), (1, SentOk 7)]"
proof -
  have two: "replicate 2 (x :: 'a) = [x, x]" for x by (simp add: numeral_2_eq_2)
  have "out_reach 2 two_tasks (two_sends BcIdle [None, None] 2) []"
    using out_reach.new [of "ts_init ts_new" 2 "[None, None]" "two_sends BcIdle [None, None] 2" "sy_set two_tasks"] ts_reach.new
    by (simp add: two_tasks_def two_sends_def ts_init_def ts_new_def out_new_def ts_resize_def two)
  from out_reach.step [OF this, of False SentErr] have "out_reach 2 two_tasks (two_sends (BcFirst 0) [None, None] 2) []"
    by (simp add: two_tasks_def two_sends_def ts_init_def out_step_def out_start_def sy_discard_def discard_scheduled_def)
  from out_reach.step [OF this, of False SentErr] have "out_reach 2 two_tasks (two_sends (BcFirstPoll 0) [None, None] 2) []"
    by (simp add: two_tasks_def two_sends_def ts_init_def out_step_def out_first_def out_lookup_def waker_of_def)
  from out_reach.step [OF this, of False "SentOk 5"] have "out_reach 2 two_tasks (two_sends (BcFirst 1) [Some 5, None] 1) [(0, SentOk 5)]"
    by (simp add: two_sends_def out_step_def out_first_polled_def out_ready_def)
  from out_reach.step [OF this, of False SentErr] have "out_reach 2 two_tasks (two_sends (BcFirstPoll 1) [Some 5, None] 1) [(0, SentOk 5)]"
    by (simp add: two_tasks_def two_sends_def ts_init_def out_step_def out_first_def out_lookup_def waker_of_def)
  from out_reach.step [OF this, of False "SentOk 7"]
  have "out_reach 2 two_tasks (two_sends (BcFirst 2) [Some 5, Some 7] 0) [(0, SentOk 5), (1, SentOk 7)]"
    by (simp add: two_sends_def out_step_def out_first_polled_def out_ready_def numeral_2_eq_2)
  from out_reach.step [OF this, of False SentErr] show ?thesis
    by (simp add: two_sends_def out_step_def out_first_def)
qed

theorem output_broadcast_joins_witness:
  "\<exists>s b log. out_reach 2 s (b :: nat out_bcast) log \<and> ob_result b = Some (BrOk ()) \<and>
     (\<exists>rs. length rs = 2 \<and> take 2 (ob_outputs b) = map Some rs \<and>
       (\<forall>i < 2. \<exists>n. of_task i log = replicate n SentPending @ [SentOk (rs ! i)]))"
proof -
  let ?b = "out_return (BrOk ()) (two_sends (BcFirst 2) [Some 5, Some 7] 0\<lparr>ob_state := FsCompleted\<rparr>)"
  have r: "ob_result ?b = Some (BrOk ())" by (simp add: out_return_def)
  from output_broadcast_joins [OF two_sends_reach, of False SentErr] two_sends_reach show ?thesis
    by (intro exI [of _ two_tasks] exI [of _ ?b] exI [of _ "[(0, SentOk 5), (1, SentOk 7)]"]) (simp add: r)
qed

subsection \<open>Equivalence\<close>

fun slot_of :: "'r option \<Rightarrow> 'r slot_state" where
  "slot_of None = SfPending"
| "slot_of (Some r) = SfReady r"

definition slots :: "'r out_bcast \<Rightarrow> 'r slot_state list" where
  "slots b = map slot_of (take (ob_count b) (ob_outputs b))"

definition agree :: "'r out_bcast \<Rightarrow> 'r src_bcast \<Rightarrow> bool" where
  "agree b sb \<longleftrightarrow> ob_state b = sb_state sb \<and> ob_pc b = sb_pc sb \<and> ob_pending b = sb_pending sb \<and>
     ob_registered b = sb_registered sb \<and>
     (case ob_result b of
        None \<Rightarrow> sb_result sb = None \<and> sb_states sb = slots b
      | Some BrPending \<Rightarrow> sb_result sb = Some BrPending \<and> sb_states sb = slots b
      | Some BrErr \<Rightarrow> sb_result sb = Some BrErr \<and> sb_states sb = slots b
      | Some (BrOk _) \<Rightarrow> sb_result sb = Some (BrOk (slots b)) \<and> sb_states sb = [])"

abbreviation agree_step :: "(task_sys \<times> 'r out_bcast) exec \<Rightarrow> (task_sys \<times> 'r src_bcast) exec \<Rightarrow> bool" where
  "agree_step \<equiv> rel_option (\<lambda>(s, b) (s', sb). s = s' \<and> agree b sb)"

lemma slots_nth: "len \<le> length (ob_outputs b) \<Longrightarrow> ob_count b = len \<Longrightarrow> i < len \<Longrightarrow> slots b ! i = slot_of (ob_outputs b ! i)"
  "len \<le> length (ob_outputs b) \<Longrightarrow> ob_count b = len \<Longrightarrow> length (slots b) = len"
  by (simp_all add: slots_def)

lemma slots_set: "slots (b\<lparr>ob_outputs := (ob_outputs b)[i := Some r], ob_pending := n\<rparr>) = (slots b)[i := SfReady r]"
  by (simp add: slots_def take_update_swap map_update)

lemma slots_keep [simp]:
  "slots (b\<lparr>ob_pc := pc\<rparr>) = slots b" "slots (b\<lparr>ob_state := st\<rparr>) = slots b" "slots (b\<lparr>ob_result := r\<rparr>) = slots b"
  "slots (b\<lparr>ob_registered := x\<rparr>) = slots b"
  by (simp_all add: slots_def)

lemma agree_running:
  assumes "agree b sb" "ob_result b = None \<or> ob_pc b \<noteq> BcIdle" "out_inv len s b err log"
  shows "sb_states sb = slots b" "sb_result sb = None" "ob_result b = None"
proof -
  have "ob_result b = None" using out_invD(7) [OF assms(3)] assms(2) by (cases "ob_pc b") auto
  with assms(1) show "sb_states sb = slots b" "sb_result sb = None" "ob_result b = None" by (simp_all add: agree_def)
qed

lemma agree_fields:
  assumes "agree b sb"
  shows "sb_state sb = ob_state b" "sb_pc sb = ob_pc b" "sb_pending sb = ob_pending b" "sb_registered sb = ob_registered b"
  using assms by (simp_all add: agree_def)

lemma step_agrees:
  assumes inv: "out_inv len s b err log" and ag: "agree b sb"
    and "ob_pc b = BcIdle \<and> ob_state b = FsUninit \<longrightarrow> ts_head (sy_set s) = ucast EMPTY" "ob_pc b \<noteq> BcDiscard"
  shows "agree_step (out_step weak outcome s b) (src_step weak outcome s sb)"
proof -
  note d = out_invD [OF inv] and f = agree_fields [OF ag]
  have run: "sb_states sb = slots b" "sb_result sb = None" "ob_result b = None" if "ob_pc b \<noteq> BcIdle"
    using agree_running [OF ag _ inv] that by blast+
  obtain s1 where s1: "sy_owner_step weak s = Some s1" using sy_total(4) [OF d(1)] by blast
  show ?thesis
  proof (cases "ob_pc b")
    case BcIdle
    show ?thesis
    proof (cases "ob_state b")
      case FsUninit
      with BcIdle assms(3) d(7) have "sy_discard s = Some s"
        by (simp add: sy_discard_def discard_scheduled_def)
      with BcIdle FsUninit d(7) ag f show ?thesis
        by (simp add: out_step_def src_step_def out_start_def src_start_def agree_def)
    next
      case FsPending
      with BcIdle d(7) ag f show ?thesis
        by (simp add: out_step_def src_step_def out_start_def src_start_def agree_def)
    next
      case FsCompleted
      with BcIdle f show ?thesis by (simp add: out_step_def src_step_def out_start_def src_start_def)
    qed
  next
    case BcCheck
    obtain s2 where "sy_take 1 s = Some s2" using sy_total(1) [OF d(1)] d(7) BcCheck by auto
    with BcCheck run ag f show ?thesis
      by (simp add: out_step_def src_step_def out_check_def src_check_def agree_def)
  next
    case BcTaking
    with s1 run ag f show ?thesis
      by (simp add: out_step_def src_step_def out_taking_def src_taking_def out_return_def src_return_def agree_def split: owner_pc.split)
  next
    case BcDropIter
    with s1 run ag f show ?thesis
      by (simp add: out_step_def src_step_def out_return_def src_return_def agree_def)
  next
    case BcDiscard
    with assms(4) show ?thesis by simp
  next
    case (BcFirst i)
    show ?thesis
    proof (cases "i < len")
      case True
      with BcFirst d(7,3) have "ob_outputs b ! i = None" by auto
      with BcFirst True d(2-4) run ag f slots_nth [OF d(4,3)] show ?thesis
        by (simp add: out_step_def src_step_def out_first_def src_first_def out_lookup_def src_lookup_def waker_of_def
            task_count_ok_def agree_def)
    next
      case False
      with BcFirst d(3,4) run ag f slots_nth(2) [OF d(4,3)] show ?thesis
        by (simp add: out_step_def src_step_def out_first_def src_first_def out_return_def src_return_def src_complete_def agree_def)
    qed
  next
    case (BcFirstPoll i)
    then have i: "i < len" using d(3,7) by auto
    show ?thesis
      using BcFirstPoll i d(3,4) run ag f slots_nth(2) [OF d(4,3)]
      by (cases outcome) (simp_all add: out_step_def src_step_def out_first_polled_def src_first_polled_def out_ready_def src_ready_def
        out_return_def src_return_def agree_def slots_set)
  next
    case BcIter
    then obtain idx where o: "sy_owner s = OwIter idx" using d(7) by auto
    obtain y s2 where s2: "sy_iter idx s = Some (y, s2)" using sy_total(3) [OF d(1) o] by blast
    show ?thesis
    proof (cases y)
      case (Some i)
      have i: "i < len" "task_count_ok len s2"
        using sy_iter_owner [OF s2] sy_keeps_count(3) [OF s2 d(2)] d(2) Some by (simp_all add: task_count_ok_def)
      show ?thesis
        using BcIter o s2 Some i d(3,4) run ag f slots_nth [OF d(4,3)]
        by (cases "ob_outputs b ! i") (simp_all add: out_step_def src_step_def out_iter_def src_iter_def out_lookup_def src_lookup_def
          waker_of_def task_count_ok_def agree_def)
    next
      case None
      show ?thesis
        using BcIter o s2 None run ag f
        by (simp add: out_step_def src_step_def out_iter_def src_iter_def out_return_def src_return_def src_complete_def agree_def)
    qed
  next
    case (BcPoll i)
    then obtain idx where i: "i < len" and o: "sy_owner s = OwIter idx" using d(3,7) by auto
    show ?thesis
      using BcPoll i o d(3,4) run ag f slots_nth(2) [OF d(4,3)]
      by (cases outcome) (simp_all add: out_step_def src_step_def out_polled_def src_polled_def out_ready_def src_ready_def agree_def slots_set)
  qed
qed

lemma out_step_running:
  assumes "out_inv len s b err log" "out_step weak outcome s b = Some (s', b')"
    and "ob_pc b = BcIdle \<and> ob_state b = FsUninit \<longrightarrow> ts_head (sy_set s) = ucast EMPTY" "ob_pc b \<noteq> BcDiscard"
  shows "ob_pc b' \<noteq> BcDiscard" "ob_pc b' = BcIdle \<longrightarrow> ob_state b' \<noteq> FsUninit"
proof -
  note d = out_invD(7) [OF assms(1)]
  have "ob_pc b' \<noteq> BcDiscard \<and> (ob_pc b' = BcIdle \<longrightarrow> ob_state b' \<noteq> FsUninit)"
  proof (cases "ob_pc b")
    case BcIdle
    then show ?thesis
      using assms(2,3) by (cases "ob_state b") (auto simp: out_step_def out_start_def sy_discard_def discard_scheduled_def)
  next
    case (BcFirst i)
    then show ?thesis
      using assms(2) by (auto simp: out_step_def out_first_def out_lookup_def out_return_def split: if_splits Option.bind_splits)
  next
    case (BcFirstPoll i)
    then show ?thesis
      using assms(2) by (auto simp: out_step_def out_first_polled_def out_return_def split: sent.splits Option.bind_splits)
  next
    case BcCheck
    then show ?thesis
      using assms(2) by (auto simp: out_step_def out_check_def split: if_splits Option.bind_splits)
  next
    case BcTaking
    then show ?thesis
      using assms(2) d by (auto simp: out_step_def out_taking_def out_return_def split: owner_pc.splits Option.bind_splits)
  next
    case BcIter
    then show ?thesis
      using assms(2) d by (auto simp: out_step_def out_iter_def out_lookup_def out_return_def split: option.splits if_splits Option.bind_splits)
  next
    case (BcPoll i)
    then show ?thesis
      using assms(2) d by (auto simp: out_step_def out_polled_def split: sent.splits Option.bind_splits owner_pc.splits)
  next
    case BcDropIter
    then show ?thesis
      using assms(2) d by (auto simp: out_step_def out_return_def split: if_splits Option.bind_splits)
  qed (use assms(4) in simp)
  then show "ob_pc b' \<noteq> BcDiscard" "ob_pc b' = BcIdle \<longrightarrow> ob_state b' \<noteq> FsUninit" by blast+
qed

lemma src_reach_out:
  "src_reach len s sb log \<Longrightarrow> \<exists>b. out_reach len s b log \<and> agree b sb \<and> ob_pc b \<noteq> BcDiscard \<and>
     (ob_pc b = BcIdle \<and> ob_state b = FsUninit \<longrightarrow> ts_head (sy_set s) = ucast EMPTY)"
proof (induction rule: src_reach.induct)
  case (new sb ts)
  let ?b = "\<lparr>ob_count = len, ob_outputs = replicate len None, ob_pending = len, ob_state = FsUninit, ob_pc = BcIdle,
    ob_result = None, ob_registered = False\<rparr> :: 'a out_bcast"
  from new have ts: "ts_with_len len = Some ts"
    and sb: "sb = \<lparr>sb_states = replicate len SfPending, sb_pending = len, sb_state = FsUninit, sb_pc = BcIdle,
       sb_result = None, sb_registered = False\<rparr>"
    by (auto simp: src_new_def split: Option.bind_splits)
  have "out_new len (replicate len None) (sy_set (ts_init ts_new)) = Some (?b, ts)"
    using ts by (auto simp: out_new_def ts_resize_def ts_with_len_def ts_init_def ts_new_def split: if_splits)
  from out_reach.new [OF ts_reach.new _ this] have "out_reach len (ts_init ts) ?b []"
    by (simp add: ts_init_def)
  moreover have "agree ?b sb" by (simp add: agree_def sb slots_def)
  moreover have "ts_head (sy_set (ts_init ts)) = ucast EMPTY"
    using ts by (auto simp: ts_with_len_def ts_init_def split: if_splits)
  ultimately show ?case by (intro exI [of _ ?b]) simp
next
  case (env s sb log s')
  then obtain b where b: "out_reach len s b log" "agree b sb" "ob_pc b \<noteq> BcDiscard" by blast
  from out_reach.env [OF b(1) env(3)] b(2,3) env(2) agree_fields [OF b(2)] show ?case by (intro exI [of _ b]) auto
next
  case (step s sb log weak outcome s' sb')
  then obtain b where b: "out_reach len s b log" "agree b sb" "ob_pc b \<noteq> BcDiscard"
    "ob_pc b = BcIdle \<and> ob_state b = FsUninit \<longrightarrow> ts_head (sy_set s) = ucast EMPTY" by blast
  obtain err where inv: "out_inv len s b err log" using out_reach_inv [OF b(1)] by blast
  from step_agrees [OF inv b(2,4,3), of weak outcome] step(2)
  obtain b' where b': "out_step weak outcome s b = Some (s', b')" "agree b' sb'"
    by (cases "out_step weak outcome s b") auto
  from out_reach.step [OF b(1) b'(1)] b'(2) out_step_running [OF inv b'(1) b(4,3)] agree_fields(2) [OF b(2)]
  show ?case by (intro exI [of _ b']) auto
qed

text \<open>C31: The two implementations are equivalent. Every run of the broadcast future of an event or query source is a run of the broadcast future of an
  output port with the same polls of sender futures, the same accesses to the task set and the same results, and the
  two agree on every next step.\<close>

theorem broadcast_futures_equivalent:
  assumes "src_reach len s sb log"
  shows "\<exists>b. out_reach len s b log \<and> agree b sb \<and>
    (\<forall>weak outcome. agree_step (out_step weak outcome s b) (src_step weak outcome s sb))"
proof -
  obtain b where b: "out_reach len s b log" "agree b sb" "ob_pc b \<noteq> BcDiscard"
    "ob_pc b = BcIdle \<and> ob_state b = FsUninit \<longrightarrow> ts_head (sy_set s) = ucast EMPTY"
    using src_reach_out [OF assms] by blast
  obtain err where inv: "out_inv len s b err log" using out_reach_inv [OF b(1)] by blast
  show ?thesis using b step_agrees [OF inv b(2,4,3)] by blast
qed

theorem broadcast_futures_equivalent_witness:
  "\<exists>s sb b. src_new 2 = Some (sb :: nat src_bcast, sy_set s) \<and> out_reach 2 s b [] \<and> agree b sb \<and>
     agree_step (out_step False (SentOk 5) s b) (src_step False (SentOk 5) s sb)"
proof -
  have "(2 :: nat) \<le> task_limit" by simp
  then obtain sb :: "nat src_bcast" and ts where n: "src_new 2 = Some (sb, ts)"
    by (auto simp: src_new_def ts_with_len_def)
  moreover have "sy_set (ts_init ts) = ts" by (simp add: ts_init_def)
  ultimately show ?thesis
    using broadcast_futures_equivalent [OF src_reach.new [OF n]] by metis
qed

text \<open>Replies come in the order of the connections. When the broadcast of a query source succeeds, the iterator over the
  replies does not panic and yields the reply of each sender future at its position, whatever the order in which
  they became ready.\<close>

lemma source_replies_in_order:
  assumes "src_reach len s sb log" "sb_result sb = Some (BrOk states)"
  shows "\<exists>rs. replies states = Some rs \<and> length rs = len \<and>
    (\<forall>i < len. \<exists>n. of_task i log = replicate n SentPending @ [SentOk (rs ! i)])"
proof -
  obtain b where b: "out_reach len s b log" "agree b sb" using src_reach_out [OF assms(1)] by blast
  obtain err where inv: "out_inv len s b err log" using out_reach_inv [OF b(1)] by blast
  have res: "ob_result b = Some (BrOk ())" "states = slots b"
    using b(2) assms(2) by (auto simp: agree_def split: option.splits bc_result.splits)
  from output_broadcast_joins_result [OF inv res(1)] obtain rs where rs: "length rs = len" "take len (ob_outputs b) = map Some rs"
    "\<forall>i < len. \<exists>n. of_task i log = replicate n SentPending @ [SentOk (rs ! i)]" by blast
  have "replies (map slot_of (map Some rs)) = Some rs" by (induction rs) simp_all
  with rs res(2) out_invD(3) [OF inv] have "replies states = Some rs" by (simp add: slots_def)
  with rs show ?thesis by blast
qed

definition two_queries :: "bc_pc \<Rightarrow> nat slot_state list \<Rightarrow> nat \<Rightarrow> nat src_bcast" where
  "two_queries pc states pending = \<lparr>sb_states = states, sb_pending = pending, sb_state = FsUninit, sb_pc = pc,
     sb_result = None, sb_registered = False\<rparr>"

lemma two_queries_reach:
  "src_reach 2 two_tasks (src_complete (two_queries (BcFirst 2) [SfReady 5, SfReady 7] 0)) [(0, SentOk 5), (1, SentOk 7)]"
proof -
  have two: "replicate 2 (x :: 'a) = [x, x]" for x by (simp add: numeral_2_eq_2)
  have "src_reach 2 two_tasks (two_queries BcIdle [SfPending, SfPending] 2) []"
    using src_reach.new [of 2 "two_queries BcIdle [SfPending, SfPending] 2" "sy_set two_tasks"]
    by (simp add: two_tasks_def two_queries_def ts_init_def src_new_def ts_with_len_def two)
  from src_reach.step [OF this, of False SentErr] have "src_reach 2 two_tasks (two_queries (BcFirst 0) [SfPending, SfPending] 2) []"
    by (simp add: two_queries_def src_step_def src_start_def)
  from src_reach.step [OF this, of False SentErr] have "src_reach 2 two_tasks (two_queries (BcFirstPoll 0) [SfPending, SfPending] 2) []"
    by (simp add: two_tasks_def two_queries_def ts_init_def src_step_def src_first_def src_lookup_def waker_of_def)
  from src_reach.step [OF this, of False "SentOk 5"] have "src_reach 2 two_tasks (two_queries (BcFirst 1) [SfReady 5, SfPending] 1) [(0, SentOk 5)]"
    by (simp add: two_queries_def src_step_def src_first_polled_def src_ready_def)
  from src_reach.step [OF this, of False SentErr] have "src_reach 2 two_tasks (two_queries (BcFirstPoll 1) [SfReady 5, SfPending] 1) [(0, SentOk 5)]"
    by (simp add: two_tasks_def two_queries_def ts_init_def src_step_def src_first_def src_lookup_def waker_of_def)
  from src_reach.step [OF this, of False "SentOk 7"]
  have "src_reach 2 two_tasks (two_queries (BcFirst 2) [SfReady 5, SfReady 7] 0) [(0, SentOk 5), (1, SentOk 7)]"
    by (simp add: two_queries_def src_step_def src_first_polled_def src_ready_def numeral_2_eq_2)
  from src_reach.step [OF this, of False SentErr] show ?thesis
    by (simp add: two_queries_def src_step_def src_first_def)
qed

end
