(* ===== verification/Ports.thy ===== *)
theory Ports
  imports Broadcast_Future
begin

text \<open>
  Model of the ports that send events and queries: the senders and broadcasters of \<^verbatim>\<open>src/nexosim/src/ports/output/\<close>
  and \<^verbatim>\<open>src/nexosim/src/ports/source/\<close>, the ports \<^verbatim>\<open>Output\<close>, \<^verbatim>\<open>Requestor\<close> and \<^verbatim>\<open>UniRequestor\<close> of
  \<^verbatim>\<open>src/nexosim/src/ports/output.rs\<close>, the sources of \<^verbatim>\<open>src/nexosim/src/ports/source.rs\<close>, and the lock that clones of
  a port share, \<^verbatim>\<open>src/nexosim/src/util/cached_rw_lock.rs\<close>.

  A method of a model that is connected to a port is a function from its argument to the call that
  the mailbox executes; a sink is a function from an event to a write. A sender turns an argument into the future of a
  send, which is described by what it sends where; polling it is the environment of the theory on
  broadcast futures. The one-shot channels of replies are of third-party crates: a parameter tells whether a
  reply channel is free.
\<close>

subsection \<open>Senders of output ports\<close>

datatype ('t, 'u, 'c, 'e) event_sender =
    InputSender "'t \<Rightarrow> 'c" nat
  | MapInputSender "'t \<Rightarrow> 'u" "'u \<Rightarrow> 'c" nat
  | FilterMapInputSender "'t \<Rightarrow> 'u option" "'u \<Rightarrow> 'c" nat
  | EventSinkSender "'t \<Rightarrow> 'e"
  | MapEventSinkSender "'t \<Rightarrow> 'u" "'u \<Rightarrow> 'e"
  | FilterMapEventSinkSender "'t \<Rightarrow> 'u option" "'u \<Rightarrow> 'e"

text \<open>A call to a mailbox or a write to a sink.\<close>

datatype ('c, 'e) event_future = SendTo nat 'c | WriteTo 'e

definition input_send :: "('t \<Rightarrow> 'c) \<Rightarrow> nat \<Rightarrow> 't \<Rightarrow> ('c, 'e) event_future option" where
  "input_send func sender arg = Some (SendTo sender (func arg))"

definition map_input_send :: "('t \<Rightarrow> 'u) \<Rightarrow> ('u \<Rightarrow> 'c) \<Rightarrow> nat \<Rightarrow> 't \<Rightarrow> ('c, 'e) event_future option" where
  "map_input_send mp func sender arg = Some (SendTo sender (func (mp arg)))"

definition filter_map_input_send :: "('t \<Rightarrow> 'u option) \<Rightarrow> ('u \<Rightarrow> 'c) \<Rightarrow> nat \<Rightarrow> 't \<Rightarrow> ('c, 'e) event_future option" where
  "filter_map_input_send filter_map func sender arg = map_option (\<lambda>arg. SendTo sender (func arg)) (filter_map arg)"

definition sink_send :: "('t \<Rightarrow> 'e) \<Rightarrow> 't \<Rightarrow> ('c, 'e) event_future option" where
  "sink_send writer arg = Some (WriteTo (writer arg))"

definition map_sink_send :: "('t \<Rightarrow> 'u) \<Rightarrow> ('u \<Rightarrow> 'e) \<Rightarrow> 't \<Rightarrow> ('c, 'e) event_future option" where
  "map_sink_send mp writer arg = Some (WriteTo (writer (mp arg)))"

definition filter_map_sink_send :: "('t \<Rightarrow> 'u option) \<Rightarrow> ('u \<Rightarrow> 'e) \<Rightarrow> 't \<Rightarrow> ('c, 'e) event_future option" where
  "filter_map_sink_send filter_map writer arg = map_option (\<lambda>arg. WriteTo (writer arg)) (filter_map arg)"

fun event_send :: "('t, 'u, 'c, 'e) event_sender \<Rightarrow> 't \<Rightarrow> ('c, 'e) event_future option" where
  "event_send (InputSender func sender) arg = input_send func sender arg"
| "event_send (MapInputSender mp func sender) arg = map_input_send mp func sender arg"
| "event_send (FilterMapInputSender filter_map func sender) arg = filter_map_input_send filter_map func sender arg"
| "event_send (EventSinkSender writer) arg = sink_send writer arg"
| "event_send (MapEventSinkSender mp writer) arg = map_sink_send mp writer arg"
| "event_send (FilterMapEventSinkSender filter_map writer) arg = filter_map_sink_send filter_map writer arg"

text \<open>The senders of queries own the receiving end of a reply channel; \<open>free\<close> tells for a sender whether a new sending end of
  its channel can be made, otherwise sending panics. Cloning a sender gives it a new channel.\<close>

datatype ('t, 'u, 'q, 'r, 'c) query_sender =
    ReplierSender "'t \<Rightarrow> 'c" nat
  | MapReplierSender "'t \<Rightarrow> 'u" "'q \<Rightarrow> 'r" "'u \<Rightarrow> 'c" nat
  | FilterMapReplierSender "'t \<Rightarrow> 'u option" "'q \<Rightarrow> 'r" "'u \<Rightarrow> 'c" nat

datatype ('q, 'r, 'c) query_future = QueryTo nat 'c | MapQueryTo nat 'c "'q \<Rightarrow> 'r"

definition replier_send :: "bool \<Rightarrow> ('t \<Rightarrow> 'c) \<Rightarrow> nat \<Rightarrow> 't \<Rightarrow> ('q, 'r, 'c) query_future option exec" where
  "replier_send free func sender arg = (if free then Some (Some (QueryTo sender (func arg))) else None)"

definition map_replier_send ::
    "bool \<Rightarrow> ('t \<Rightarrow> 'u) \<Rightarrow> ('q \<Rightarrow> 'r) \<Rightarrow> ('u \<Rightarrow> 'c) \<Rightarrow> nat \<Rightarrow> 't \<Rightarrow> ('q, 'r, 'c) query_future option exec" where
  "map_replier_send free query_map reply_map func sender arg =
     (if free then Some (Some (MapQueryTo sender (func (query_map arg)) reply_map)) else None)"

definition filter_map_replier_send ::
    "bool \<Rightarrow> ('t \<Rightarrow> 'u option) \<Rightarrow> ('q \<Rightarrow> 'r) \<Rightarrow> ('u \<Rightarrow> 'c) \<Rightarrow> nat \<Rightarrow> 't \<Rightarrow> ('q, 'r, 'c) query_future option exec" where
  "filter_map_replier_send free query_filter_map reply_map func sender arg =
     (case query_filter_map arg of
        None \<Rightarrow> Some None
      | Some arg \<Rightarrow> if free then Some (Some (MapQueryTo sender (func arg) reply_map)) else None)"

definition query_send ::
    "(('t, 'u, 'q, 'r, 'c) query_sender \<Rightarrow> bool) \<Rightarrow> ('t, 'u, 'q, 'r, 'c) query_sender \<Rightarrow> 't
      \<Rightarrow> ('q, 'r, 'c) query_future option exec" where
  "query_send free s arg =
     (case s of
        ReplierSender func sender \<Rightarrow> replier_send (free s) func sender arg
      | MapReplierSender query_map reply_map func sender \<Rightarrow> map_replier_send (free s) query_map reply_map func sender arg
      | FilterMapReplierSender query_filter_map reply_map func sender \<Rightarrow>
          filter_map_replier_send (free s) query_filter_map reply_map func sender arg)"

subsection \<open>Broadcasters of output ports\<close>

record ('s, 'r) broadcaster =
  br_senders :: "'s list"
  br_outputs :: "'r option list"

definition br_default :: "('s, 'r) broadcaster" where
  "br_default = \<lparr>br_senders = [], br_outputs = []\<rparr>"

definition u32_max :: nat where
  "u32_max = 2 ^ 32 - 1"

definition br_add :: "'s \<Rightarrow> ('s, 'r) broadcaster \<Rightarrow> ('s, 'r) broadcaster exec" where
  "br_add sender br =
     (if length (br_senders br) < u32_max - 2
      then Some (br\<lparr>br_senders := br_senders br @ [sender], br_outputs := br_outputs br @ [None]\<rparr>)
      else None)"

text \<open>Cloning a broadcaster clones its senders and starts with empty outputs.\<close>

definition br_clone :: "('s, 'r) broadcaster \<Rightarrow> ('s, 'r) broadcaster" where
  "br_clone br = br\<lparr>br_outputs := replicate (length (br_outputs br)) None\<rparr>"

text \<open>The futures of all senders, in order; the last one gets the argument itself and the others a clone of it.\<close>

fun br_futures :: "('s \<Rightarrow> 't \<Rightarrow> 'f option exec) \<Rightarrow> 't \<Rightarrow> 's list \<Rightarrow> 'f list exec" where
  "br_futures send arg [] = Some []"
| "br_futures send arg (sender # senders) = do {
     fut \<leftarrow> send sender arg;
     futures \<leftarrow> br_futures send arg senders;
     Some (case fut of Some fut \<Rightarrow> fut # futures | None \<Rightarrow> futures)
   }"

text \<open>What a broadcast awaits: nothing, one future, or a broadcast future.\<close>

datatype 'f awaited_sends = AwaitNone | AwaitOne 'f | AwaitAll "'f list"

definition br_await :: "('s \<Rightarrow> 't \<Rightarrow> 'f option exec) \<Rightarrow> 't \<Rightarrow> 's list \<Rightarrow> 'f awaited_sends exec" where
  "br_await send arg senders =
     (case senders of
        [] \<Rightarrow> Some AwaitNone
      | [sender] \<Rightarrow> do {
          fut \<leftarrow> send sender arg;
          Some (case fut of None \<Rightarrow> AwaitNone | Some fut \<Rightarrow> AwaitOne fut)
        }
      | _ \<Rightarrow> do {
          futures \<leftarrow> br_futures send arg senders;
          Some (case futures of [] \<Rightarrow> AwaitNone | [fut] \<Rightarrow> AwaitOne fut | _ \<Rightarrow> AwaitAll futures)
        })"

text \<open>Awaiting the futures. A single future is polled until it is ready; several are joined by a broadcast future. The log
  records the outcomes of all polls, and the result is the error or the outputs.\<close>

inductive awaits :: "'f awaited_sends \<Rightarrow> 'r option list \<Rightarrow> (nat \<times> 'r sent) list \<Rightarrow> unit + 'r option list \<Rightarrow> bool" where
  none: "awaits AwaitNone outputs [] (Inr outputs)"
| one: "outputs \<noteq> [] \<Longrightarrow> awaits (AwaitOne fut) outputs (replicate n (0, SentPending) @ [(0, SentOk r)]) (Inr (outputs[0 := Some r]))"
| one_err: "awaits (AwaitOne fut) outputs (replicate n (0, SentPending) @ [(0, SentErr)]) (Inl ())"
| all: "out_reach (length futures) s b log \<Longrightarrow> ob_result b = Some (BrOk ()) \<Longrightarrow> awaits (AwaitAll futures) outputs log (Inr (ob_outputs b))"
| all_err: "out_reach (length futures) s b log \<Longrightarrow> ob_result b = Some BrErr \<Longrightarrow> awaits (AwaitAll futures) outputs log (Inl ())"

text \<open>The replies to a query: the outputs of the futures, all of which should be available.\<close>

fun output_count :: "'f awaited_sends \<Rightarrow> nat" where
  "output_count AwaitNone = 0"
| "output_count (AwaitOne _) = 1"
| "output_count (AwaitAll futures) = length futures"

fun take_outputs :: "'r option list \<Rightarrow> 'r list exec" where
  "take_outputs [] = Some []"
| "take_outputs (out # outputs) = do { r \<leftarrow> out; rs \<leftarrow> take_outputs outputs; Some (r # rs) }"

definition query_replies :: "'f awaited_sends \<Rightarrow> 'r option list \<Rightarrow> 'r list exec" where
  "query_replies aw outputs = take_outputs (take (output_count aw) outputs)"

subsection \<open>The lock of a port\<close>

text \<open>The data that the clones share, and the copy of one clone. A panic while the lock is held ends the run of the model, so
  that the lock is never poisoned.\<close>

record 'a lock_shared =
  ls_value :: 'a
  ls_epoch :: nat

record 'a cached_lock =
  cl_value :: 'a
  cl_epoch :: nat

definition cl_new :: "('a \<Rightarrow> 'a) \<Rightarrow> 'a \<Rightarrow> 'a lock_shared \<times> 'a cached_lock" where
  "cl_new clone t = (\<lparr>ls_value = clone t, ls_epoch = 0\<rparr>, \<lparr>cl_value = t, cl_epoch = 0\<rparr>)"

definition cl_clone :: "('a \<Rightarrow> 'a) \<Rightarrow> 'a cached_lock \<Rightarrow> 'a cached_lock" where
  "cl_clone clone ca = ca\<lparr>cl_value := clone (cl_value ca)\<rparr>"

definition write_scratchpad :: "('a \<Rightarrow> 'a) \<Rightarrow> 'a lock_shared \<Rightarrow> 'a cached_lock \<Rightarrow> 'a cached_lock" where
  "write_scratchpad clone sh ca =
     (if ls_epoch sh \<noteq> cl_epoch ca then ca\<lparr>cl_value := clone (ls_value sh), cl_epoch := ls_epoch sh\<rparr> else ca)"

definition lock_write :: "('a \<Rightarrow> 'a exec) \<Rightarrow> 'a lock_shared \<Rightarrow> 'a lock_shared exec" where
  "lock_write f sh = do {
     epoch \<leftarrow> (if ls_epoch sh < usize_max then Some (ls_epoch sh + 1) else None);
     v \<leftarrow> f (ls_value sh);
     Some (sh\<lparr>ls_value := v, ls_epoch := epoch\<rparr>)
   }"

subsection \<open>Output ports\<close>

type_synonym ('s, 'r) port = "('s, 'r) broadcaster lock_shared \<times> ('s, 'r) broadcaster cached_lock"

definition port_new :: "('s, 'r) port" where
  "port_new = cl_new br_clone br_default"

definition port_add :: "'s \<Rightarrow> ('s, 'r) port \<Rightarrow> ('s, 'r) port exec" where
  "port_add sender p = (case p of (sh, ca) \<Rightarrow> do { sh \<leftarrow> lock_write (br_add sender) sh; Some (sh, ca) })"

type_synonym ('t, 'u, 'c, 'e) output_port = "(('t, 'u, 'c, 'e) event_sender, unit) port"

definition output_connect :: "('t \<Rightarrow> 'c) \<Rightarrow> nat \<Rightarrow> ('t, 'u, 'c, 'e) output_port \<Rightarrow> ('t, 'u, 'c, 'e) output_port exec" where
  "output_connect input address = port_add (InputSender input address)"

definition output_connect_sink :: "('t \<Rightarrow> 'e) \<Rightarrow> ('t, 'u, 'c, 'e) output_port \<Rightarrow> ('t, 'u, 'c, 'e) output_port exec" where
  "output_connect_sink sink = port_add (EventSinkSender sink)"

definition output_map_connect :: "('t \<Rightarrow> 'u) \<Rightarrow> ('u \<Rightarrow> 'c) \<Rightarrow> nat \<Rightarrow> ('t, 'u, 'c, 'e) output_port \<Rightarrow> ('t, 'u, 'c, 'e) output_port exec" where
  "output_map_connect mp input address = port_add (MapInputSender mp input address)"

definition output_map_connect_sink :: "('t \<Rightarrow> 'u) \<Rightarrow> ('u \<Rightarrow> 'e) \<Rightarrow> ('t, 'u, 'c, 'e) output_port \<Rightarrow> ('t, 'u, 'c, 'e) output_port exec" where
  "output_map_connect_sink mp sink = port_add (MapEventSinkSender mp sink)"

definition output_filter_map_connect ::
    "('t \<Rightarrow> 'u option) \<Rightarrow> ('u \<Rightarrow> 'c) \<Rightarrow> nat \<Rightarrow> ('t, 'u, 'c, 'e) output_port \<Rightarrow> ('t, 'u, 'c, 'e) output_port exec" where
  "output_filter_map_connect filter_map input address = port_add (FilterMapInputSender filter_map input address)"

definition output_filter_map_connect_sink ::
    "('t \<Rightarrow> 'u option) \<Rightarrow> ('u \<Rightarrow> 'e) \<Rightarrow> ('t, 'u, 'c, 'e) output_port \<Rightarrow> ('t, 'u, 'c, 'e) output_port exec" where
  "output_filter_map_connect_sink filter_map sink = port_add (FilterMapEventSinkSender filter_map sink)"

text \<open>Sending: the copy of the clone is brought up to date, and its senders are awaited.\<close>

definition output_send :: "'t \<Rightarrow> ('t, 'u, 'c, 'e) output_port \<Rightarrow> (('c, 'e) event_future awaited_sends \<times> ('t, 'u, 'c, 'e) output_port) exec" where
  "output_send arg p = (case p of (sh, ca) \<Rightarrow> do {
     let ca = write_scratchpad br_clone sh ca;
     aw \<leftarrow> br_await (\<lambda>sender arg. Some (event_send sender arg)) arg (br_senders (cl_value ca));
     Some (aw, sh, ca)
   })"

type_synonym ('t, 'u, 'q, 'r, 'c) requestor = "(('t, 'u, 'q, 'r, 'c) query_sender, 'r) port"

definition requestor_connect ::
    "('t \<Rightarrow> 'c) \<Rightarrow> nat \<Rightarrow> ('t, 'u, 'q, 'r, 'c) requestor \<Rightarrow> ('t, 'u, 'q, 'r, 'c) requestor exec" where
  "requestor_connect replier address = port_add (ReplierSender replier address)"

definition requestor_map_connect ::
    "('t \<Rightarrow> 'u) \<Rightarrow> ('q \<Rightarrow> 'r) \<Rightarrow> ('u \<Rightarrow> 'c) \<Rightarrow> nat \<Rightarrow> ('t, 'u, 'q, 'r, 'c) requestor
      \<Rightarrow> ('t, 'u, 'q, 'r, 'c) requestor exec" where
  "requestor_map_connect query_map reply_map replier address =
     port_add (MapReplierSender query_map reply_map replier address)"

definition requestor_filter_map_connect ::
    "('t \<Rightarrow> 'u option) \<Rightarrow> ('q \<Rightarrow> 'r) \<Rightarrow> ('u \<Rightarrow> 'c) \<Rightarrow> nat \<Rightarrow> ('t, 'u, 'q, 'r, 'c) requestor
      \<Rightarrow> ('t, 'u, 'q, 'r, 'c) requestor exec" where
  "requestor_filter_map_connect query_filter_map reply_map replier address =
     port_add (FilterMapReplierSender query_filter_map reply_map replier address)"

definition requestor_send ::
    "(('t, 'u, 'q, 'r, 'c) query_sender \<Rightarrow> bool) \<Rightarrow> 't \<Rightarrow> ('t, 'u, 'q, 'r, 'c) requestor
      \<Rightarrow> (('q, 'r, 'c) query_future awaited_sends \<times> ('t, 'u, 'q, 'r, 'c) requestor) exec" where
  "requestor_send free arg p = (case p of (sh, ca) \<Rightarrow> do {
     let ca = write_scratchpad br_clone sh ca;
     aw \<leftarrow> br_await (query_send free) arg (br_senders (cl_value ca));
     Some (aw, sh, ca)
   })"

text \<open>A requestor with exactly one connection; without a connection, which only deserialization outside of a
  restoration makes, sending panics.\<close>

type_synonym ('t, 'u, 'q, 'r, 'c) uni_requestor = "('t, 'u, 'q, 'r, 'c) query_sender option"

definition uni_new :: "('t \<Rightarrow> 'c) \<Rightarrow> nat \<Rightarrow> ('t, 'u, 'q, 'r, 'c) uni_requestor" where
  "uni_new replier address = Some (ReplierSender replier address)"

definition uni_with_map ::
    "('t \<Rightarrow> 'u) \<Rightarrow> ('q \<Rightarrow> 'r) \<Rightarrow> ('u \<Rightarrow> 'c) \<Rightarrow> nat \<Rightarrow> ('t, 'u, 'q, 'r, 'c) uni_requestor" where
  "uni_with_map query_map reply_map replier address = Some (MapReplierSender query_map reply_map replier address)"

definition uni_send :: "(('t, 'u, 'q, 'r, 'c) query_sender \<Rightarrow> bool) \<Rightarrow> 't \<Rightarrow> ('t, 'u, 'q, 'r, 'c) uni_requestor \<Rightarrow> ('q, 'r, 'c) query_future option exec" where
  "uni_send free arg p = do { sender \<leftarrow> p; query_send free sender arg }"

subsection \<open>Sources\<close>

text \<open>The senders of sources make a new reply channel for each query.\<close>

datatype ('t, 'u, 'c) source_sender =
    SourceInput "'t \<Rightarrow> 'c" nat
  | SourceMapInput "'t \<Rightarrow> 'u" "'u \<Rightarrow> 'c" nat
  | SourceFilterMapInput "'t \<Rightarrow> 'u option" "'u \<Rightarrow> 'c" nat

definition source_input_send :: "('t \<Rightarrow> 'c) \<Rightarrow> nat \<Rightarrow> 't \<Rightarrow> (nat \<times> 'c) option" where
  "source_input_send func sender arg = Some (sender, func arg)"

definition source_map_input_send :: "('t \<Rightarrow> 'u) \<Rightarrow> ('u \<Rightarrow> 'c) \<Rightarrow> nat \<Rightarrow> 't \<Rightarrow> (nat \<times> 'c) option" where
  "source_map_input_send mp func sender arg = Some (sender, func (mp arg))"

definition source_filter_map_input_send :: "('t \<Rightarrow> 'u option) \<Rightarrow> ('u \<Rightarrow> 'c) \<Rightarrow> nat \<Rightarrow> 't \<Rightarrow> (nat \<times> 'c) option" where
  "source_filter_map_input_send filter_map func sender arg = map_option (\<lambda>arg. (sender, func arg)) (filter_map arg)"

fun source_send :: "('t, 'u, 'c) source_sender \<Rightarrow> 't \<Rightarrow> (nat \<times> 'c) option" where
  "source_send (SourceInput func sender) arg = source_input_send func sender arg"
| "source_send (SourceMapInput mp func sender) arg = source_map_input_send mp func sender arg"
| "source_send (SourceFilterMapInput filter_map func sender) arg = source_filter_map_input_send filter_map func sender arg"

datatype ('t, 'u, 'q, 'r, 'c) source_replier =
    SourceReplier "'t \<Rightarrow> 'c" nat
  | SourceMapReplier "'t \<Rightarrow> 'u" "'q \<Rightarrow> 'r" "'u \<Rightarrow> 'c" nat
  | SourceFilterMapReplier "'t \<Rightarrow> 'u option" "'q \<Rightarrow> 'r" "'u \<Rightarrow> 'c" nat

datatype ('q, 'r, 'c) source_query = SourceQuery nat 'c | SourceMapQuery nat 'c "'q \<Rightarrow> 'r"

definition source_replier_send :: "('t \<Rightarrow> 'c) \<Rightarrow> nat \<Rightarrow> 't \<Rightarrow> ('q, 'r, 'c) source_query option" where
  "source_replier_send func sender arg = Some (SourceQuery sender (func arg))"

definition source_map_replier_send ::
    "('t \<Rightarrow> 'u) \<Rightarrow> ('q \<Rightarrow> 'r) \<Rightarrow> ('u \<Rightarrow> 'c) \<Rightarrow> nat \<Rightarrow> 't \<Rightarrow> ('q, 'r, 'c) source_query option" where
  "source_map_replier_send query_map reply_map func sender arg = Some (SourceMapQuery sender (func (query_map arg)) reply_map)"

definition source_filter_map_replier_send ::
    "('t \<Rightarrow> 'u option) \<Rightarrow> ('q \<Rightarrow> 'r) \<Rightarrow> ('u \<Rightarrow> 'c) \<Rightarrow> nat \<Rightarrow> 't \<Rightarrow> ('q, 'r, 'c) source_query option" where
  "source_filter_map_replier_send query_filter_map reply_map func sender arg =
     map_option (\<lambda>arg. SourceMapQuery sender (func arg) reply_map) (query_filter_map arg)"

fun source_query_send :: "('t, 'u, 'q, 'r, 'c) source_replier \<Rightarrow> 't \<Rightarrow> ('q, 'r, 'c) source_query option" where
  "source_query_send (SourceReplier func sender) arg = source_replier_send func sender arg"
| "source_query_send (SourceMapReplier query_map reply_map func sender) arg = source_map_replier_send query_map reply_map func sender arg"
| "source_query_send (SourceFilterMapReplier query_filter_map reply_map func sender) arg =
     source_filter_map_replier_send query_filter_map reply_map func sender arg"

definition src_add :: "'s \<Rightarrow> 's list \<Rightarrow> 's list exec" where
  "src_add sender senders = (if length senders < u32_max - 2 then Some (senders @ [sender]) else None)"

fun src_futures :: "('s \<Rightarrow> 't \<Rightarrow> 'f option) \<Rightarrow> 't \<Rightarrow> 's list \<Rightarrow> 'f list" where
  "src_futures send arg [] = []"
| "src_futures send arg (sender # senders) =
     (case send sender arg of Some fut \<Rightarrow> fut # src_futures send arg senders | None \<Rightarrow> src_futures send arg senders)"

text \<open>The futures are made when the broadcast is called, and awaited later.\<close>

datatype 'f made_sends = MadeEmpty | MadeSingle "'f option" | MadeMultiple "'f list"

definition src_broadcast :: "('s \<Rightarrow> 't \<Rightarrow> 'f option) \<Rightarrow> 't \<Rightarrow> 's list \<Rightarrow> 'f made_sends" where
  "src_broadcast send arg senders =
     (case senders of
        [] \<Rightarrow> MadeEmpty
      | [sender] \<Rightarrow> MadeSingle (send sender arg)
      | _ \<Rightarrow> MadeMultiple (src_futures send arg senders))"

fun src_await :: "'f made_sends \<Rightarrow> 'f awaited_sends" where
  "src_await MadeEmpty = AwaitNone"
| "src_await (MadeSingle None) = AwaitNone"
| "src_await (MadeSingle (Some fut)) = AwaitOne fut"
| "src_await (MadeMultiple []) = AwaitNone"
| "src_await (MadeMultiple [fut]) = AwaitOne fut"
| "src_await (MadeMultiple futures) = AwaitAll futures"

inductive src_awaits :: "'f awaited_sends \<Rightarrow> (nat \<times> 'r sent) list \<Rightarrow> unit + 'r slot_state list \<Rightarrow> bool" where
  none: "src_awaits AwaitNone [] (Inr [])"
| one: "src_awaits (AwaitOne fut) (replicate n (0, SentPending) @ [(0, SentOk r)]) (Inr [SfReady r])"
| one_err: "src_awaits (AwaitOne fut) (replicate n (0, SentPending) @ [(0, SentErr)]) (Inl ())"
| all: "src_reach (length futures) s b log \<Longrightarrow> sb_result b = Some (BrOk states) \<Longrightarrow> src_awaits (AwaitAll futures) log (Inr states)"
| all_err: "src_reach (length futures) s b log \<Longrightarrow> sb_result b = Some BrErr \<Longrightarrow> src_awaits (AwaitAll futures) log (Inl ())"

definition source_connect :: "('t \<Rightarrow> 'c) \<Rightarrow> nat \<Rightarrow> ('t, 'u, 'c) source_sender list \<Rightarrow> ('t, 'u, 'c) source_sender list exec" where
  "source_connect input address = src_add (SourceInput input address)"

definition source_map_connect ::
    "('t \<Rightarrow> 'u) \<Rightarrow> ('u \<Rightarrow> 'c) \<Rightarrow> nat \<Rightarrow> ('t, 'u, 'c) source_sender list \<Rightarrow> ('t, 'u, 'c) source_sender list exec" where
  "source_map_connect mp input address = src_add (SourceMapInput mp input address)"

definition source_filter_map_connect ::
    "('t \<Rightarrow> 'u option) \<Rightarrow> ('u \<Rightarrow> 'c) \<Rightarrow> nat \<Rightarrow> ('t, 'u, 'c) source_sender list \<Rightarrow> ('t, 'u, 'c) source_sender list exec" where
  "source_filter_map_connect mp input address = src_add (SourceFilterMapInput mp input address)"

definition query_connect ::
    "('t \<Rightarrow> 'c) \<Rightarrow> nat \<Rightarrow> ('t, 'u, 'q, 'r, 'c) source_replier list \<Rightarrow> ('t, 'u, 'q, 'r, 'c) source_replier list exec" where
  "query_connect replier address = src_add (SourceReplier replier address)"

definition query_map_connect ::
    "('t \<Rightarrow> 'u) \<Rightarrow> ('q \<Rightarrow> 'r) \<Rightarrow> ('u \<Rightarrow> 'c) \<Rightarrow> nat \<Rightarrow> ('t, 'u, 'q, 'r, 'c) source_replier list
      \<Rightarrow> ('t, 'u, 'q, 'r, 'c) source_replier list exec" where
  "query_map_connect query_map reply_map replier address = src_add (SourceMapReplier query_map reply_map replier address)"

definition query_filter_map_connect ::
    "('t \<Rightarrow> 'u option) \<Rightarrow> ('q \<Rightarrow> 'r) \<Rightarrow> ('u \<Rightarrow> 'c) \<Rightarrow> nat \<Rightarrow> ('t, 'u, 'q, 'r, 'c) source_replier list
      \<Rightarrow> ('t, 'u, 'q, 'r, 'c) source_replier list exec" where
  "query_filter_map_connect query_filter_map reply_map replier address =
     src_add (SourceFilterMapReplier query_filter_map reply_map replier address)"

text \<open>The futures of a source: an error of the broadcast is thrown as a panic; the replies to a query are written to the reply
  writer, if there is one.\<close>

definition event_future_result :: "unit + unit slot_state list \<Rightarrow> unit exec" where
  "event_future_result res = (case res of Inr _ \<Rightarrow> Some () | Inl _ \<Rightarrow> None)"

definition query_future_result :: "bool \<Rightarrow> unit + 'r slot_state list \<Rightarrow> 'r slot_state list option exec" where
  "query_future_result replier res =
     (case res of Inl _ \<Rightarrow> None | Inr rs \<Rightarrow> Some (if replier then Some rs else None))"

subsection \<open>Ports in saved models\<close>

text \<open>A port is not written to the saved state of its model: serialization puts a clone of it in a registry, tagged with
  its type, and deserialization takes the next one, if there is a registry. A downcast to another type panics.\<close>

type_synonym 'p port_registry = "(nat \<times> 'p) list option"

definition port_serialize :: "nat \<Rightarrow> 'p \<Rightarrow> 'p port_registry \<Rightarrow> 'p port_registry" where
  "port_serialize type_id p reg = map_option (\<lambda>ports. ports @ [(type_id, p)]) reg"

definition port_deserialize :: "nat \<Rightarrow> 'p \<Rightarrow> 'p port_registry \<Rightarrow> ('p \<times> 'p port_registry) exec" where
  "port_deserialize type_id dflt reg =
     (case reg of
        None \<Rightarrow> Some (dflt, None)
      | Some [] \<Rightarrow> None
      | Some ((ty, p) # ports) \<Rightarrow> if ty = type_id then Some (p, Some ports) else None)"

lemmas sender_defs = input_send_def map_input_send_def filter_map_input_send_def sink_send_def map_sink_send_def filter_map_sink_send_def
  replier_send_def map_replier_send_def filter_map_replier_send_def query_send_def
  source_input_send_def source_map_input_send_def source_filter_map_input_send_def

subsection \<open>Clones of a port\<close>

text \<open>The clones of a port: connections may be added through any of them, any of them may be cloned again, and any of them may send, which
  brings its own copy up to date and may leave anything in the outputs of the copy. \<open>ss\<close> are the senders that were
  connected.\<close>

inductive port_clones :: "'s list \<Rightarrow> ('s, 'r) broadcaster lock_shared \<Rightarrow> ('s, 'r) broadcaster cached_lock list \<Rightarrow> bool" where
  new: "port_clones [] (fst port_new) [snd port_new]"
| connect: "port_clones ss sh cas \<Longrightarrow> ca \<in> set cas \<Longrightarrow> port_add sender (sh, ca) = Some (sh', ca') \<Longrightarrow>
    port_clones (ss @ [sender]) sh' cas"
| clone: "port_clones ss sh cas \<Longrightarrow> ca \<in> set cas \<Longrightarrow> port_clones ss sh (cas @ [cl_clone br_clone ca])"
| send: "port_clones ss sh cas \<Longrightarrow> i < length cas \<Longrightarrow> ca = write_scratchpad br_clone sh (cas ! i) \<Longrightarrow>
    length outs = length (br_outputs (cl_value ca)) \<Longrightarrow>
    port_clones ss sh (cas[i := ca\<lparr>cl_value := (cl_value ca)\<lparr>br_outputs := outs\<rparr>\<rparr>])"

definition copy_ok :: "'s list \<Rightarrow> ('s, 'r) broadcaster lock_shared \<Rightarrow> ('s, 'r) broadcaster cached_lock \<Rightarrow> bool" where
  "copy_ok ss sh ca \<longleftrightarrow> cl_epoch ca \<le> ls_epoch sh \<and> (cl_epoch ca = ls_epoch sh \<longrightarrow> br_senders (cl_value ca) = ss) \<and>
     length (br_outputs (cl_value ca)) = length (br_senders (cl_value ca))"

definition shared_ok :: "'s list \<Rightarrow> ('s, 'r) broadcaster lock_shared \<Rightarrow> bool" where
  "shared_ok ss sh \<longleftrightarrow> br_senders (ls_value sh) = ss \<and> length (br_outputs (ls_value sh)) = length ss"

lemma scratchpad_ok:
  assumes "shared_ok ss sh" "copy_ok ss sh ca"
  shows "copy_ok ss sh (write_scratchpad br_clone sh ca)" "br_senders (cl_value (write_scratchpad br_clone sh ca)) = ss"
    "length (br_outputs (cl_value (write_scratchpad br_clone sh ca))) = length ss"
  using assms by (auto simp: write_scratchpad_def copy_ok_def shared_ok_def br_clone_def)

lemma port_clones_ok: "port_clones ss sh cas \<Longrightarrow> shared_ok ss sh \<and> (\<forall>ca \<in> set cas. copy_ok ss sh ca)"
proof (induction rule: port_clones.induct)
  case new
  show ?case by (simp add: port_new_def cl_new_def br_default_def br_clone_def shared_ok_def copy_ok_def)
next
  case (connect ss sh cas ca sender sh' ca')
  then have "sh' = sh\<lparr>ls_value := (ls_value sh)\<lparr>br_senders := br_senders (ls_value sh) @ [sender], br_outputs := br_outputs (ls_value sh) @ [None]\<rparr>,
      ls_epoch := ls_epoch sh + 1\<rparr>"
    by (auto simp: port_add_def lock_write_def br_add_def split: if_splits)
  with connect.IH show ?case by (auto simp: shared_ok_def copy_ok_def)
next
  case (clone ss sh cas ca)
  then show ?case by (auto simp: cl_clone_def copy_ok_def br_clone_def)
next
  case (send ss sh cas i ca outs)
  then have "copy_ok ss sh ca" using scratchpad_ok(1) nth_mem by blast
  with send show ?case by (auto simp: copy_ok_def dest!: subsetD [OF set_update_subset_insert])
qed

subsection \<open>Delivery\<close>

text \<open>The reference: the futures of the senders that accept the argument, in the order of the connections.\<close>

definition sends :: "('s \<Rightarrow> 't \<Rightarrow> 'f option) \<Rightarrow> 't \<Rightarrow> 's list \<Rightarrow> 'f list" where
  "sends send arg ss = List.map_filter (\<lambda>s. send s arg) ss"

definition await_of :: "'f list \<Rightarrow> 'f awaited_sends" where
  "await_of futures = (case futures of [] \<Rightarrow> AwaitNone | [fut] \<Rightarrow> AwaitOne fut | _ \<Rightarrow> AwaitAll futures)"

lemma sends_simps [simp]:
  "sends send arg [] = []"
  "sends send arg (s # ss) = (case send s arg of None \<Rightarrow> sends send arg ss | Some fut \<Rightarrow> fut # sends send arg ss)"
  by (simp_all add: sends_def List.map_filter_simps split: option.split)

lemma br_futures_sends:
  "\<forall>s \<in> set ss. send s arg = Some (send' s arg) \<Longrightarrow> br_futures send arg ss = Some (sends send' arg ss)"
  by (induction ss) (auto split: option.split)

lemma br_await_sends:
  assumes "\<forall>s \<in> set ss. send s arg = Some (send' s arg)"
  shows "br_await send arg ss = Some (await_of (sends send' arg ss))"
proof (cases ss)
  case (Cons s ss')
  then show ?thesis
    using assms br_futures_sends [where ss = ss and send = send and arg = arg and send' = send', OF assms]
    by (cases ss') (auto simp: br_await_def await_of_def split: option.split list.split)
qed (simp add: br_await_def await_of_def)

lemma src_futures_sends: "src_futures send arg ss = sends send arg ss"
  by (induction ss) (auto split: option.split)

lemma sends_length: "length (sends send arg ss) \<le> length ss"
  by (induction ss) (auto split: option.split)

lemma output_count_await [simp]: "output_count (await_of fs) = length fs"
  by (simp add: await_of_def split: list.split)

text \<open>What is awaited completes with all outputs in order.\<close>

lemma awaits_outputs:
  assumes "awaits (await_of fs) outputs log (Inr outs)" "length fs \<le> length outputs"
  shows "\<exists>rs. length rs = length fs \<and> take (length fs) outs = map Some rs \<and>
    (\<forall>i < length fs. \<exists>n. of_task i log = replicate n SentPending @ [SentOk (rs ! i)])"
  using assms(1)
proof (cases rule: awaits.cases)
  case none
  then have "fs = []" by (auto simp: await_of_def split: list.splits)
  then show ?thesis by simp
next
  case (one fut n r)
  then have "length fs = 1" by (auto simp: await_of_def split: list.splits)
  moreover have "of_task 0 (replicate n (0, SentPending) @ [(0, SentOk r)]) = replicate n SentPending @ [SentOk r]"
    by (simp add: of_task_def)
  ultimately show ?thesis
    using one by (intro exI [of _ "[r]"]) (auto simp: neq_Nil_conv)
next
  case (all futures s b)
  then have "futures = fs" by (auto simp: await_of_def split: list.splits)
  moreover obtain err where inv: "out_inv (length futures) s b err log" using out_reach_inv [OF all(3)] by blast
  ultimately show ?thesis using output_broadcast_joins_result [OF inv all(4)] all(2) by simp
qed

lemma take_outputs_map: "take_outputs (map Some rs) = Some rs"
  by (induction rs) simp_all

text \<open>An event source sends as an output port with the same connections.\<close>

fun output_sender :: "('t, 'u, 'c) source_sender \<Rightarrow> ('t, 'u, 'c, 'e) event_sender" where
  "output_sender (SourceInput func sender) = InputSender func sender"
| "output_sender (SourceMapInput mp func sender) = MapInputSender mp func sender"
| "output_sender (SourceFilterMapInput filter_map func sender) = FilterMapInputSender filter_map func sender"

lemma src_broadcast_sends: "src_await (src_broadcast send arg ss) = await_of (sends send arg ss)"
proof (cases ss)
  case (Cons s ss')
  then show ?thesis
    by (cases ss') (auto simp: src_broadcast_def await_of_def src_futures_sends split: option.split list.split)
qed (simp add: src_broadcast_def await_of_def)

lemma sends_output_sender:
  "sends event_send arg (map output_sender ss) = map (\<lambda>(sender, call). SendTo sender call) (sends source_send arg ss)"
proof (induction ss)
  case (Cons s ss)
  then show ?case by (cases s) (auto simp: sender_defs split: option.split)
qed simp

lemma source_sends_like_output:
  "br_await (\<lambda>sender arg. Some (event_send sender arg)) arg (map output_sender ss) =
     Some (map_awaited_sends (\<lambda>(sender, call). SendTo sender call) (src_await (src_broadcast source_send arg ss)))"
proof -
  have m: "map_awaited_sends f (await_of fs) = await_of (map f fs)" for f :: "'x \<Rightarrow> 'y" and fs
    by (auto simp: await_of_def split: list.split)
  show ?thesis
    by (subst br_await_sends [where send' = event_send]) (simp_all add: src_broadcast_sends m sends_output_sender)
qed

text \<open>Ports of a saved model: the ports that are serialized come back in the same order.\<close>

lemma port_registry_fifo:
  "foldl (\<lambda>reg (ty, p). port_serialize ty p reg) (Some ports) ps = Some (ports @ ps)"
  by (induction ps arbitrary: ports) (auto simp: port_serialize_def)

lemma port_deserialize_next: "port_deserialize ty d (Some ((ty, p) # ports)) = Some (p, Some ports)"
  by (simp add: port_deserialize_def)

text \<open>C28: Delivery of events. Whatever clones of an output port were made and through whichever of them its connections were added, an event
  that is sent through any clone is sent to exactly the inputs and sinks that were connected and whose filter lets it pass,
  with the argument mapped, once each and in the order of the connections.\<close>

theorem output_reaches_all:
  assumes "port_clones ss sh cas" "i < length cas"
  shows "\<exists>ca. output_send arg (sh, cas ! i) = Some (await_of (sends event_send arg ss), sh, ca) \<and> br_senders (cl_value ca) = ss"
proof -
  have sh: "shared_ok ss sh" and ca: "copy_ok ss sh (cas ! i)"
    using port_clones_ok [OF assms(1)] assms(2) by auto
  have "br_await (\<lambda>sender arg. Some (event_send sender arg)) arg ss = Some (await_of (sends event_send arg ss))"
    by (rule br_await_sends) simp
  then show ?thesis
    by (simp add: output_send_def scratchpad_ok(2) [OF sh ca])
qed

text \<open>Two clones of a port: one with a filtered connection is made before a sink is connected through the other.\<close>

definition even_input :: "(nat, nat, nat, nat) event_sender" where
  "even_input = FilterMapInputSender (\<lambda>n. if even n then Some (n div 2) else None) Suc 3"

definition one_port :: "('s, 'r) broadcaster cached_lock" where
  "one_port = snd port_new"

definition connected :: "'s list \<Rightarrow> ('s, 'r) broadcaster lock_shared" where
  "connected ss = \<lparr>ls_value = \<lparr>br_senders = ss, br_outputs = map (\<lambda>_. None) ss\<rparr>, ls_epoch = length ss\<rparr>"

lemma two_clones: "port_clones [a, b] (connected [a, b]) [one_port, one_port]"
proof -
  have "port_clones [] (connected []) [one_port]"
    using port_clones.new by (simp add: one_port_def connected_def port_new_def cl_new_def br_clone_def br_default_def)
  from port_clones.connect [OF this, of one_port a "connected [a]" one_port]
  have "port_clones [a] (connected [a]) [one_port]"
    by (simp add: port_add_def lock_write_def br_add_def connected_def u32_max_def usize_max_def)
  from port_clones.clone [OF this, of one_port] have "port_clones [a] (connected [a]) [one_port, one_port]"
    by (simp add: one_port_def port_new_def cl_new_def cl_clone_def br_clone_def br_default_def)
  from port_clones.connect [OF this, of one_port b "connected [a, b]" one_port]
  show ?thesis
    by (simp add: port_add_def lock_write_def br_add_def connected_def u32_max_def usize_max_def)
qed

theorem output_reaches_all_witness:
  "\<exists>ca. output_send 8 (connected [even_input, EventSinkSender id], one_port) =
     Some (AwaitAll [SendTo 3 5, WriteTo 8], connected [even_input, EventSinkSender id], ca)"
  using output_reaches_all [OF two_clones [of even_input "EventSinkSender id"], of 1 8] by (auto simp: await_of_def even_input_def sender_defs)

text \<open>C29: Replies to queries. A query that is sent through any clone of a requestor whose reply channels are free goes to exactly the repliers that are connected and whose
  filter lets it pass, there is room for all their replies, and if the broadcast succeeds the replies are complete and in
  the order of the connections, whatever the order in which the repliers answered.\<close>

theorem requestor_replies_in_order:
  assumes "port_clones ss sh cas" "i < length cas" "\<forall>s \<in> set ss. free s"
  shows "\<exists>fs ca. requestor_send free arg (sh, cas ! i) = Some (await_of fs, sh, ca) \<and>
    fs = sends (\<lambda>s arg. the (query_send free s arg)) arg ss \<and> length fs \<le> length (br_outputs (cl_value ca)) \<and>
    (\<forall>log outs. awaits (await_of fs) (br_outputs (cl_value ca)) log (Inr outs) \<longrightarrow>
      (\<exists>rs. query_replies (await_of fs) outs = Some rs \<and> length rs = length fs \<and>
        (\<forall>i < length fs. \<exists>n. of_task i log = replicate n SentPending @ [SentOk (rs ! i)])))"
proof -
  have sh: "shared_ok ss sh" and ca: "copy_ok ss sh (cas ! i)"
    using port_clones_ok [OF assms(1)] assms(2) by auto
  let ?ca = "write_scratchpad br_clone sh (cas ! i)" and ?fs = "sends (\<lambda>s arg. the (query_send free s arg)) arg ss"
  have "query_send free s arg = Some (the (query_send free s arg))" if "s \<in> set ss" for s
    using assms(3) that by (cases s) (auto simp: sender_defs split: option.split)
  then have "br_await (query_send free) arg ss = Some (await_of ?fs)"
    by (intro br_await_sends) blast
  then have r: "requestor_send free arg (sh, cas ! i) = Some (await_of ?fs, sh, ?ca)"
    by (simp add: requestor_send_def scratchpad_ok(2) [OF sh ca])
  have len: "length ?fs \<le> length (br_outputs (cl_value ?ca))"
    using sends_length [of _ arg ss] by (simp add: scratchpad_ok(3) [OF sh ca])
  have "\<exists>rs. query_replies (await_of ?fs) outs = Some rs \<and> length rs = length ?fs \<and>
      (\<forall>i < length ?fs. \<exists>n. of_task i log = replicate n SentPending @ [SentOk (rs ! i)])"
    if "awaits (await_of ?fs) (br_outputs (cl_value ?ca)) log (Inr outs)" for log outs
    using awaits_outputs [OF that len] by (auto simp: query_replies_def take_outputs_map)
  with r len show ?thesis by blast
qed

definition two_repliers :: "(nat, nat, nat, nat, nat) query_sender list" where
  "two_repliers = [ReplierSender id 0, ReplierSender Suc 1]"

theorem requestor_replies_in_order_witness:
  "\<exists>ca. requestor_send (\<lambda>_. True) 4 (connected two_repliers, one_port) =
      Some (AwaitAll [QueryTo 0 4, QueryTo 1 5], connected two_repliers, ca) \<and>
    query_replies (AwaitAll [QueryTo 0 4, QueryTo 1 5 :: (nat, nat, nat) query_future]) [Some 5, Some (7 :: nat)] = Some [5, 7]"
proof -
  let ?fs = "[QueryTo 0 4, QueryTo 1 5] :: (nat, nat, nat) query_future list"
  have fs: "sends (\<lambda>s arg. the (query_send (\<lambda>_. True) s arg)) 4 two_repliers = ?fs" by (simp add: two_repliers_def sender_defs)
  have cl: "port_clones two_repliers (connected two_repliers) [one_port, one_port]"
    unfolding two_repliers_def by (rule two_clones)
  obtain ca where ca: "requestor_send (\<lambda>_. True) 4 (connected two_repliers, one_port) = Some (await_of ?fs, connected two_repliers, ca)"
    and all: "\<forall>log outs. awaits (await_of ?fs) (br_outputs (cl_value ca)) log (Inr outs) \<longrightarrow>
      (\<exists>rs. query_replies (await_of ?fs) outs = Some rs \<and> length rs = length ?fs \<and>
        (\<forall>i < length ?fs. \<exists>n. of_task i log = replicate n SentPending @ [SentOk (rs ! i)]))"
    using requestor_replies_in_order [OF cl, of 1 "\<lambda>_. True" 4] unfolding fs by auto
  have aw: "await_of ?fs = AwaitAll ?fs" by (simp add: await_of_def)
  let ?b = "out_return (BrOk ()) (two_sends (BcFirst 2) [Some 5, Some 7] 0\<lparr>ob_state := FsCompleted\<rparr>)"
  let ?log = "[(0, SentOk 5), (1, SentOk (7 :: nat))]"
  have "awaits (AwaitAll ?fs) (br_outputs (cl_value ca)) ?log (Inr (ob_outputs ?b))"
    by (rule awaits.all [of ?fs two_tasks ?b]) (use two_sends_reach in \<open>simp_all add: out_return_def numeral_2_eq_2\<close>)
  moreover have "ob_outputs ?b = [Some 5, Some 7]" by (simp add: out_return_def two_sends_def)
  ultimately have "awaits (await_of ?fs) (br_outputs (cl_value ca)) ?log (Inr [Some 5, Some 7])" by (simp only: aw)
  from all [THEN spec, THEN spec, THEN mp, OF this]
  obtain rs where rs: "query_replies (await_of ?fs) [Some 5, Some (7 :: nat)] = Some rs" by blast
  then have "rs = [5, 7]" by (simp add: query_replies_def)
  with rs ca show ?thesis unfolding aw by (intro exI [of _ ca]) simp
qed

end
