(* ===== verification/Spec2Isabelle.thy ===== *)
theory Spec2Isabelle
  imports Key_Registry Sim_Path Save_Restore Mpsc_Fifo Grpc_Lifecycle Task_Safety Ports
begin

text \<open>
  Verification library of NeXosim, a discrete-event simulation framework in Rust.

  \<^bold>\<open>The program.\<close> A bench of models is assembled with \<open>SimInit\<close> (\<^verbatim>\<open>simulation/sim_init.rs\<close>). Models have ports
  (\<^verbatim>\<open>ports/\<close>), through which they send each other events and queries; these are put in mailboxes (\<^verbatim>\<open>channel/\<close>) and
  processed by tasks that an executor runs (\<^verbatim>\<open>executor/\<close>). The \<open>Simulation\<close> (\<^verbatim>\<open>simulation.rs\<close>) advances the time from one
  entry of the scheduler queue (\<^verbatim>\<open>simulation/scheduler.rs\<close>) to the next, turns the entries that are due into futures and
  has the executor run them. A server (\<^verbatim>\<open>server/\<close>) gives remote clients access to a simulation, whose sources and
  sinks are found by their paths (\<^verbatim>\<open>endpoints/\<close>). All these files are in \<^verbatim>\<open>src/nexosim/src/\<close>.

  \<^bold>\<open>Conventions.\<close> A call that may panic has a result of type \<open>'a exec\<close>, where \<open>None\<close> is the panic; an error that the
  code returns is the left side of a sum. The fields of a struct are those of a record, an \<open>enum\<close> is a datatype.
  Integers are natural numbers with the checks of the code written out, and words where the code packs bits or
  wraps around. A \<open>HashMap\<close> is an association list. Code that several threads run is cut at its accesses to shared memory;
  an inductive relation interleaves the steps, with sequentially consistent memory. Crates of third parties are
  parameters: the time type (\<open>tai_laws\<close>), \<open>bincode\<close> (\<open>bincode_laws\<close>), the decoding of arguments, reply channels. So
  is what the user of the framework provides: the models, the clock, the sinks.

  \<^bold>\<open>Theories.\<close>

  \<^item> \<open>Prelude\<close>: the type \<open>exec\<close>, indexing of vectors, lemmas on lists.
  \<^item> \<open>Heap_Array\<close>, \<open>Binary_Heap\<close>, \<open>Priority_Queue\<close>: \<^verbatim>\<open>util/priority_queue.rs\<close> over the heap of the standard library. The
    operations refine those of a sorted list (locale \<open>stable_queue\<close>); draining the queue is a stable sort.
  \<^item> \<open>Indexed_Priority_Queue\<close>, \<open>Key_Registry\<close>: \<^verbatim>\<open>util/indexed_priority_queue.rs\<close> and its client \<^verbatim>\<open>server/key_registry.rs\<close>. The
    queue never panics, refines a map from live keys (locale \<open>indexed_queue\<close>) and rejects stale keys.
  \<^item> \<open>Sim_Time\<close>, \<open>Sim_Path\<close>: \<^verbatim>\<open>time.rs\<close>, \<^verbatim>\<open>time/ticker.rs\<close>, \<^verbatim>\<open>time/clock.rs\<close>, \<^verbatim>\<open>path.rs\<close>. The next tick is the least one
    after the given time.
  \<^item> \<open>Queue_Items\<close>, \<open>Injector\<close>, \<open>Scheduler\<close>: \<^verbatim>\<open>simulation/queue_items.rs\<close>, \<^verbatim>\<open>simulation/injector.rs\<close>,
    \<^verbatim>\<open>simulation/scheduler.rs\<close> and the scheduling methods of \<^verbatim>\<open>model/context.rs\<close>. Whatever calls are made, the queue is well
    formed and in the strict future; a key cancels its event and no other.
  \<^item> \<open>Simulation_Step\<close>, \<open>Simulation\<close>, \<open>Simulation_Run\<close>: \<^verbatim>\<open>simulation.rs\<close>. A step fires exactly the entries that are due, in
    the order of origin and of scheduling, and puts periodic ones back; \<open>step_until\<close> ends, at its target; a terminated
    simulation stays so.
  \<^item> \<open>Save_Restore\<close>: saving and restoring of \<^verbatim>\<open>simulation.rs\<close> and \<^verbatim>\<open>model.rs\<close>. A restored simulation has the saved
    time, queue entries and event keys, given that the models restore themselves; entries with equal keys may change
    their order, and a failed save loses the models.
  \<^item> \<open>Endpoints\<close>, \<open>Sim_Init\<close>: the registries of \<^verbatim>\<open>endpoints.rs\<close> and \<^verbatim>\<open>endpoints/\<close> (locale \<open>path_registry\<close>) and the bench
    builder with the registration of models and of the inputs that the macro of \<^verbatim>\<open>src/nexosim-macros/src/lib.rs\<close>
    decorates. \<open>SimInit::init\<close> gives the invariant that the theorems on steps assume.
  \<^item> \<open>Mpsc_Queue\<close>, \<open>Mpsc_Fifo\<close>: the lock-free mailbox queue \<^verbatim>\<open>channel/queue.rs\<close>. Under every interleaving it is a FIFO
    queue, of bounded length, and closing it is final.
  \<^item> \<open>Task_Word\<close>, \<open>Task_Machine\<close>, \<open>Task_Safety\<close>: the tasks of \<^verbatim>\<open>executor/task.rs\<close> and \<^verbatim>\<open>executor/task/\<close>. No operation
    of a handle touches freed memory, memory is freed with the last handle, no wake-up is lost.
  \<^item> \<open>Task_Set\<close>: the lock-free set of sub-tasks \<^verbatim>\<open>util/task_set.rs\<close>. The links are lists without repetition, no wake is lost
    and the parent is notified.
  \<^item> \<open>Broadcast_Future\<close>: the futures of \<^verbatim>\<open>ports/output/broadcaster.rs\<close> and \<^verbatim>\<open>ports/source/broadcaster.rs\<close> that join the sends of a
    broadcast, as owners of a task set. They join correctly and are equivalent.
  \<^item> \<open>Ports\<close>: the senders, broadcasters and ports of \<^verbatim>\<open>ports/output.rs\<close>, \<^verbatim>\<open>ports/source.rs\<close> and the directories of these names,
    and the lock of \<^verbatim>\<open>util/cached_rw_lock.rs\<close> that clones of a port share. Events and queries reach exactly what was
    connected through any clone, and replies come in the order of the connections.
  \<^item> \<open>Server_Types\<close>, \<open>Scheduler_Service\<close>, \<open>Controller_Service\<close>, \<open>Monitor_Service\<close>, \<open>Grpc_Server\<close>, \<open>Grpc_Lifecycle\<close>:
    \<^verbatim>\<open>server/services.rs\<close> and \<^verbatim>\<open>server/services/\<close>, with the messages of \<^verbatim>\<open>server/codegen/simulation.v1.rs\<close> that they read. Requests have
    the effect of the methods that they stand for; the services are started and stopped together; a service that is
    not started refuses every request, and no request starts or stops it (locales \<open>controller_request\<close>, \<open>scheduler_request\<close>, \<open>monitor_request\<close>).

  \<^bold>\<open>Loops.\<close> No loop has a bound on its iterations. Loops over data are total functions. Those that may run for ever on some input
  (the loops of a step on a null period, \<open>step_until\<close> and \<open>run\<close>, reading all events of a sink) are partial functions with
  the value \<open>None\<close> when they do not end. It is proved that the loops of a step return in every state that satisfies the
  invariant, that \<open>step_until\<close> returns unless a step panics, and that a sink with finitely many events is read to
  its end; \<open>run\<close> has no target and does not end as long as periodic events are left. The retry
  loops of the lock-free code are steps of the interleaving, and their theorems are invariants.

  \<^bold>\<open>Bounds.\<close> Counters of the code that would need \<open>2 ^ 64\<close> operations to overflow (insertion epochs, reference counts of a
  task) are kept at their width; theorems whose claim would fail there assume that the counter has not reached it.

  \<^bold>\<open>Not modelled.\<close>

  \<^item> The executors (\<^verbatim>\<open>executor/st_executor.rs\<close>, \<^verbatim>\<open>executor/mt_executor.rs\<close> and its directory): work stealing over queues of
    other crates, and parking of threads. A simulation takes the result of an executor run as a parameter.
  \<^item> The asynchronous side of a mailbox (\<^verbatim>\<open>channel.rs\<close>): it waits on the event primitive of another crate.
  \<^item> Sockets and the gRPC stack (\<^verbatim>\<open>server.rs\<close>, \<^verbatim>\<open>server/run.rs\<close>), and the encoding of messages, which is generated code.
  \<^item> Input ports and sinks (\<^verbatim>\<open>ports/input/\<close>, \<^verbatim>\<open>ports/sink/\<close>): traits that adapt the methods of user models, and buffers that user
    code reads; output ports take them as parameters.
  \<^item> Memory orderings weaker than sequential consistency, the recycling of boxes, the texts of errors, logging, and the
    remaining files of \<^verbatim>\<open>util/\<close>, which are cells and macros that the modelled files use as plain values.
\<close>

end
